(* ===== verification/Prelude.thy ===== *)
theory Prelude
  imports Main "HOL-Library.Word"
begin

text \<open>
  What the components share: the machine integers and byte buffers of the C++ code, the
  faults an execution can end in (undefined behaviour and uncaught exceptions as values),
  bounded memory reads and writes, and the list and word lemmas the component proofs use.
\<close>

subsection \<open>Named collections\<close>

named_theorems result_simps \<open>equations of the result constructors and conversions\<close>
named_theorems step_defs \<open>definitions of the operations a component proof unfolds\<close>
named_theorems wf_intros \<open>preservation of the well-formedness invariants\<close>

subsection \<open>Machine types\<close>

type_synonym byte = "8 word"
type_synonym size_t = "64 word"
type_synonym fd = int

text \<open>
  The conversions the code writes or leaves implicit. \<open>i32\<close> is the conversion to
  \<^verbatim>\<open>int32_t\<close> (also of \<^verbatim>\<open>ssize_t\<close> results and of \<^verbatim>\<open>size_t\<close> counts), \<open>size_of\<close> is
  \<^verbatim>\<open>(size_t)x\<close> for a signed \<open>x\<close>: a negative value becomes a huge unsigned one.
\<close>

definition i32 :: "int \<Rightarrow> int" where
  "i32 x = sint (word_of_int x :: 32 word)"

definition size_of :: "int \<Rightarrow> size_t" where
  "size_of x = word_of_int x"

subsection \<open>Faults\<close>

text \<open>
  Where C++ has undefined behaviour, or the code throws, the model returns a fault, so that
  "this never happens" is a statement about the value.
\<close>

datatype fault =
    NullDeref
  | OutOfBounds
  | UseAfterFree
  | BadCast
  | Uninitialised
  | NotImplemented

type_synonym 'a result = "fault + 'a"

fun bindR :: "'a result \<Rightarrow> ('a \<Rightarrow> 'b result) \<Rightarrow> 'b result" where
  "bindR (Inl e) f = Inl e"
| "bindR (Inr x) f = f x"

lemma bindR_Inr_iff: "bindR m f = Inr y \<longleftrightarrow> (\<exists>x. m = Inr x \<and> f x = Inr y)"
  by (cases m) auto

lemma bindR_Inl_iff: "bindR m f = Inl e \<longleftrightarrow> m = Inl e \<or> (\<exists>x. m = Inr x \<and> f x = Inl e)"
  by (cases m) auto

lemma bindR_assoc: "bindR (bindR m f) g = bindR m (\<lambda>x. bindR (f x) g)"
  by (cases m) auto

subsection \<open>Buffers\<close>

text \<open>
  \<open>read_mem buf off n\<close> is what a callee sees that reads \<open>n\<close> bytes at \<open>buf + off\<close>;
  \<open>write_mem buf off xs\<close> is what a callee leaves that writes \<open>xs\<close> there. Both fault
  outside the buffer: \<open>off\<close> is a \<^verbatim>\<open>size_t\<close>, so an offset that went below zero is a
  huge one and lies outside too.
\<close>

definition read_mem :: "'a list \<Rightarrow> size_t \<Rightarrow> size_t \<Rightarrow> 'a list result" where
  "read_mem buf off n =
     (if unat off + unat n \<le> length buf then Inr (take (unat n) (drop (unat off) buf))
      else Inl OutOfBounds)"

definition write_mem :: "'a list \<Rightarrow> size_t \<Rightarrow> 'a list \<Rightarrow> 'a list result" where
  "write_mem buf off xs =
     (if unat off + length xs \<le> length buf
      then Inr (take (unat off) buf @ xs @ drop (unat off + length xs) buf)
      else Inl OutOfBounds)"

lemma length_write_mem: "write_mem buf off xs = Inr buf' \<Longrightarrow> length buf' = length buf"
  by (auto simp: write_mem_def split: if_splits)

lemma take_write_mem:
  "write_mem buf off xs = Inr buf' \<Longrightarrow>
   take (unat off + length xs) buf' = take (unat off) buf @ xs"
  by (auto simp: write_mem_def split: if_splits)

lemma write_mem_append:
  "unat off = length p \<Longrightarrow> length xs \<le> length q \<Longrightarrow>
   write_mem (p @ q) off xs = Inr (p @ xs @ drop (length xs) q)"
  by (simp add: write_mem_def)

lemma write_mem_Inl: "write_mem buf off xs = Inl e \<Longrightarrow> e = OutOfBounds"
  by (auto simp: write_mem_def split: if_splits)

subsection \<open>Words\<close>

lemma i32_small [result_simps]: "- (2 ^ 31) \<le> x \<Longrightarrow> x < 2 ^ 31 \<Longrightarrow> i32 x = x"
  by (simp add: i32_def sint_sbintrunc' signed_take_bit_int_eq_self)

lemma i32_unat: "unat (n :: size_t) < 2 ^ 31 \<Longrightarrow> i32 (uint n) = int (unat n)"
proof -
  assume n: "unat n < 2 ^ 31"
  have "int (unat n) < 2 ^ 31" using n by (metis of_nat_less_iff of_nat_numeral of_nat_power)
  then have "i32 (int (unat n)) = int (unat n)"
    by (intro i32_small) (simp_all del: of_nat_unat add: order.trans [OF _ of_nat_0_le_iff])
  then show ?thesis by simp
qed

lemma word_nonzero_uint: "(n :: size_t) \<noteq> 0 \<Longrightarrow> 1 \<le> uint n"
  by (metis int_one_le_iff_zero_less order_le_less uint_ge_0 unsigned_eq_0_iff)

lemma i32_lower: "- (2 ^ 31) \<le> i32 x"
  using sint_ge [of "word_of_int x :: 32 word"] by (simp add: i32_def)

lemma i32_upper: "i32 x < 2 ^ 31"
  using sint_lt [of "word_of_int x :: 32 word"] by (simp add: i32_def)

lemma unat_size_of: "0 \<le> x \<Longrightarrow> x < 2 ^ 64 \<Longrightarrow> unat (size_of x) = nat x"
  by (simp add: size_of_def unat_eq_nat_uint uint_word_of_int_eq take_bit_int_eq_self)

lemma size_of_neg_one: "size_of (- 1) = - 1"
  by (simp add: size_of_def)

lemma unat_add_size:
  "unat a + unat b < 2 ^ 64 \<Longrightarrow> unat (a + b :: size_t) = unat a + unat b"
  by (simp add: unat_word_ariths)

lemma unat_sub_size: "(b :: size_t) \<le> a \<Longrightarrow> unat (a - b) = unat a - unat b"
  by (rule unat_sub)

lemma unat_of_nat_size: "n < 2 ^ 64 \<Longrightarrow> unat (of_nat n :: size_t) = n"
  by (simp add: unat_of_nat take_bit_nat_eq_self)

lemma take_length_append: "n = length xs \<Longrightarrow> take n (xs @ ys) = xs"
  by simp

lemma drop_take_append:
  "a \<le> b \<Longrightarrow> b \<le> c \<Longrightarrow> drop a (take b xs) @ drop b (take c xs) = drop a (take c xs)"
proof -
  assume ab: "a \<le> b" and bc: "b \<le> c"
  let ?ys = "take c xs"
  have "drop a (take b xs) = take (b - a) (drop a ?ys)" using bc by (simp add: drop_take min_absorb1 diff_le_mono)
  moreover have "drop b ?ys = drop (b - a) (drop a ?ys)" using ab by (simp del: drop_take)
  ultimately show ?thesis by (simp only: append_take_drop_id)
qed

subsection \<open>Lists: removing the first match\<close>

text \<open>The code's \<^verbatim>\<open>find_if\<close> followed by \<^verbatim>\<open>erase\<close>.\<close>

fun remove_first :: "('a \<Rightarrow> bool) \<Rightarrow> 'a list \<Rightarrow> 'a list" where
  "remove_first p [] = []"
| "remove_first p (x # xs) = (if p x then xs else x # remove_first p xs)"

lemma set_remove_first: "set (remove_first p xs) \<subseteq> set xs"
  by (induction xs) auto

lemma remove_first_none: "(\<forall>x\<in>set xs. \<not> p x) \<Longrightarrow> remove_first p xs = xs"
  by (induction xs) auto

lemma map_remove_first: "map f (remove_first (\<lambda>x. p (f x)) xs) = remove_first p (map f xs)"
  by (induction xs) auto

lemma distinct_remove_first [wf_intros]: "distinct xs \<Longrightarrow> distinct (remove_first p xs)"
  by (induction xs) (auto dest: set_remove_first [THEN subsetD])

lemma remove_first_remove1: "remove_first (\<lambda>x. x = a) xs = remove1 a xs"
  by (induction xs) auto

lemma set_remove_first_distinct:
  "distinct (map f xs) \<Longrightarrow> set (remove_first (\<lambda>x. f x = a) xs) = {x \<in> set xs. f x \<noteq> a}"
  by (induction xs) (auto simp: image_iff)

lemma map_of_zip_notin: "c \<notin> set cs \<Longrightarrow> map_of (zip cs vs) c = None"
  by (auto simp: map_of_eq_None_iff dest: set_zip_leftD)

lemma map_of_zip_snoc:
  "length cs = length vs \<Longrightarrow> c \<notin> set cs \<Longrightarrow>
   map_of (zip (cs @ [c]) (vs @ [v])) = (map_of (zip cs vs))(c \<mapsto> v)"
  by (rule ext) (auto simp: map_add_def map_of_zip_notin split: option.split)

lemma dom_map_of_zip_eq: "length cs = length vs \<Longrightarrow> dom (map_of (zip cs vs)) = set cs"
  by (simp add: dom_map_of_conv_image_fst set_map [symmetric] del: set_map)

lemma find_distinct_map:
  "distinct (map f xs) \<Longrightarrow> x \<in> set xs \<Longrightarrow> find (\<lambda>y. f y = f x) xs = Some x"
  by (induction xs) (auto simp: image_iff)

end
