(* ===== verification/TLS_Library.thy ===== *)
theory TLS_Library
  imports Prelude
begin

text \<open>
  \<^verbatim>\<open>TLSHelper.hpp\<close>: the OpenSSL interface the sockets call, as a record of functions over a
  world of type \<open>'w\<close> (the state of the library, the kernel and the peer), and the
  in-source implementation that stands in for OpenSSL when the library is built without
  \<^verbatim>\<open>SECURITYSOCKET_TLS\<close>. With OpenSSL the record is a parameter of the model.
\<close>

subsection \<open>Constants\<close>

definition SSL_ERROR_SSL :: int where "SSL_ERROR_SSL = 1"
definition SSL_ERROR_SYSCALL :: int where "SSL_ERROR_SYSCALL = 2"
definition SSL_ERROR_ZERO_RETURN :: int where "SSL_ERROR_ZERO_RETURN = 3"
definition SSL_ERROR_WANT_READ :: int where "SSL_ERROR_WANT_READ = 4"
definition SSL_ERROR_WANT_WRITE :: int where "SSL_ERROR_WANT_WRITE = 5"

definition TLS1_2_VERSION :: int where "TLS1_2_VERSION = 0x0303"
definition TLS1_3_VERSION :: int where "TLS1_3_VERSION = 0x0304"

definition SSL_VERIFY_NONE :: int where "SSL_VERIFY_NONE = 0"
definition SSL_VERIFY_PEER :: int where "SSL_VERIFY_PEER = 1"

definition X509_V_OK :: int where "X509_V_OK = 0"
definition X509_V_ERR_DEPTH_ZERO_SELF_SIGNED_CERT :: int where
  "X509_V_ERR_DEPTH_ZERO_SELF_SIGNED_CERT = 18"
definition X509_V_ERR_HOSTNAME_MISMATCH :: int where "X509_V_ERR_HOSTNAME_MISMATCH = 62"
definition X509_V_ERR_IP_ADDRESS_MISMATCH :: int where "X509_V_ERR_IP_ADDRESS_MISMATCH = 64"

definition SSL_R_UNSUPPORTED_PROTOCOL :: int where "SSL_R_UNSUPPORTED_PROTOCOL = 258"
definition SSL_R_NO_PROTOCOLS_AVAILABLE :: int where "SSL_R_NO_PROTOCOLS_AVAILABLE = 191"
definition SSL_R_NO_CIPHERS_AVAILABLE :: int where "SSL_R_NO_CIPHERS_AVAILABLE = 181"
definition SSL_R_NO_SHARED_CIPHER :: int where "SSL_R_NO_SHARED_CIPHER = 193"
definition SSL_R_SSLV3_ALERT_HANDSHAKE_FAILURE :: int where
  "SSL_R_SSLV3_ALERT_HANDSHAKE_FAILURE = 1040"
definition SSL_R_TLSV13_ALERT_CERTIFICATE_REQUIRED :: int where
  "SSL_R_TLSV13_ALERT_CERTIFICATE_REQUIRED = 1116"
definition SSL_R_TLSV1_ALERT_UNKNOWN_CA :: int where "SSL_R_TLSV1_ALERT_UNKNOWN_CA = 1048"
definition SSL_R_TLSV1_ALERT_PROTOCOL_VERSION :: int where
  "SSL_R_TLSV1_ALERT_PROTOCOL_VERSION = 1070"

lemmas tls_consts =
  SSL_ERROR_SSL_def SSL_ERROR_SYSCALL_def SSL_ERROR_ZERO_RETURN_def SSL_ERROR_WANT_READ_def
  SSL_ERROR_WANT_WRITE_def TLS1_2_VERSION_def TLS1_3_VERSION_def SSL_VERIFY_NONE_def
  SSL_VERIFY_PEER_def X509_V_OK_def X509_V_ERR_DEPTH_ZERO_SELF_SIGNED_CERT_def
  X509_V_ERR_HOSTNAME_MISMATCH_def X509_V_ERR_IP_ADDRESS_MISMATCH_def

lemmas tls_reasons =
  SSL_R_UNSUPPORTED_PROTOCOL_def SSL_R_NO_PROTOCOLS_AVAILABLE_def SSL_R_NO_CIPHERS_AVAILABLE_def
  SSL_R_NO_SHARED_CIPHER_def SSL_R_SSLV3_ALERT_HANDSHAKE_FAILURE_def
  SSL_R_TLSV13_ALERT_CERTIFICATE_REQUIRED_def SSL_R_TLSV1_ALERT_UNKNOWN_CA_def
  SSL_R_TLSV1_ALERT_PROTOCOL_VERSION_def

subsection \<open>The interface\<close>

text \<open>
  \<^verbatim>\<open>SSL_CTX*\<close> and \<^verbatim>\<open>SSL*\<close> are addresses, \<open>None\<close> the null pointer. The configuration
  calls whose return value the code ignores are one function of the setting, so that a
  trace of the settings is visible to a world that records them. \<open>lib_null_ok\<close> says whether
  the calls on a session take the null pointer: the functions of the stub ignore their
  arguments, those of OpenSSL dereference them.
\<close>

type_synonym ctx_ptr = "nat option"
type_synonym ssl_ptr = "nat option"
type_synonym callback = nat

datatype ctx_setting =
    MinProto int
  | MaxProto int
  | CipherList string
  | CipherSuites string
  | Verify int
  | LoadVerifyLocations string
  | DefaultVerifyPaths
  | PasswdCallback string
  | CertificateFile string
  | PrivateKeyFile string
  | InfoCallback

datatype ssl_setting =
    TlsextHostName string
  | Set1Host string
  | ExData callback

record 'w ssl_lib =
  lib_ctx_new :: "'w \<Rightarrow> ctx_ptr \<times> 'w"
  lib_ctx_set :: "ctx_ptr \<Rightarrow> ctx_setting \<Rightarrow> 'w \<Rightarrow> 'w"
  lib_ctx_free :: "ctx_ptr \<Rightarrow> 'w \<Rightarrow> 'w"
  lib_new :: "ctx_ptr \<Rightarrow> 'w \<Rightarrow> ssl_ptr \<times> 'w"
  lib_set :: "ssl_ptr \<Rightarrow> ssl_setting \<Rightarrow> 'w \<Rightarrow> 'w"
  lib_free :: "ssl_ptr \<Rightarrow> 'w \<Rightarrow> 'w"
  lib_set_fd :: "ssl_ptr \<Rightarrow> fd \<Rightarrow> 'w \<Rightarrow> int \<times> 'w"
  lib_connect :: "ssl_ptr \<Rightarrow> 'w \<Rightarrow> int \<times> 'w"
  lib_shutdown :: "ssl_ptr \<Rightarrow> 'w \<Rightarrow> 'w"
  lib_write :: "ssl_ptr \<Rightarrow> byte list \<Rightarrow> int \<Rightarrow> 'w \<Rightarrow> int \<times> 'w"
  lib_read :: "ssl_ptr \<Rightarrow> int \<Rightarrow> 'w \<Rightarrow> (int \<times> byte list) \<times> 'w"
  lib_peek :: "ssl_ptr \<Rightarrow> int \<Rightarrow> 'w \<Rightarrow> int \<times> 'w"
  lib_get_error :: "ssl_ptr \<Rightarrow> int \<Rightarrow> 'w \<Rightarrow> int"
  lib_verify_mode :: "ssl_ptr \<Rightarrow> 'w \<Rightarrow> int"
  lib_verify_result :: "ssl_ptr \<Rightarrow> 'w \<Rightarrow> int"
  lib_peek_error :: "'w \<Rightarrow> int"
  lib_error_reason :: "int \<Rightarrow> int"
  lib_clear_error :: "'w \<Rightarrow> 'w"
  lib_version :: "ssl_ptr \<Rightarrow> 'w \<Rightarrow> int"
  lib_has_cipher :: "ssl_ptr \<Rightarrow> 'w \<Rightarrow> bool"
  lib_null_ok :: bool

text \<open>The calls on a session \<open>p\<close>, of which \<open>x\<close> is the outcome.\<close>

definition with_session :: "'w ssl_lib \<Rightarrow> ssl_ptr \<Rightarrow> 'a \<Rightarrow> 'a result" where
  "with_session lib p x = (if p = None \<and> \<not> lib_null_ok lib then Inl NullDeref else Inr x)"

lemma with_session_iff:
  "with_session lib p x = Inr y \<longleftrightarrow> (p \<noteq> None \<or> lib_null_ok lib) \<and> x = y"
  "with_session lib p x = Inl e \<longleftrightarrow> p = None \<and> \<not> lib_null_ok lib \<and> e = NullDeref"
  by (auto simp: with_session_def)

lemma with_session_Some [simp]: "with_session lib (Some p) x = Inr x"
  by (simp add: with_session_def)

subsection \<open>The implementation of a build without TLS\<close>

definition stub_error_reason :: "int \<Rightarrow> int" where
  "stub_error_reason e = e mod 0x1000"

definition stub_ssl :: "'w ssl_lib" where
  "stub_ssl = \<lparr>
     lib_ctx_new = (\<lambda>w. (None, w)),
     lib_ctx_set = (\<lambda>ctx s w. w),
     lib_ctx_free = (\<lambda>ctx w. w),
     lib_new = (\<lambda>ctx w. (None, w)),
     lib_set = (\<lambda>ssl s w. w),
     lib_free = (\<lambda>ssl w. w),
     lib_set_fd = (\<lambda>ssl s w. (0, w)),
     lib_connect = (\<lambda>ssl w. (0, w)),
     lib_shutdown = (\<lambda>ssl w. w),
     lib_write = (\<lambda>ssl buf n w. (0, w)),
     lib_read = (\<lambda>ssl n w. ((0, []), w)),
     lib_peek = (\<lambda>ssl n w. (0, w)),
     lib_get_error = (\<lambda>ssl ret w. 0),
     lib_verify_mode = (\<lambda>ssl w. SSL_VERIFY_NONE),
     lib_verify_result = (\<lambda>ssl w. X509_V_OK),
     lib_peek_error = (\<lambda>w. 0),
     lib_error_reason = stub_error_reason,
     lib_clear_error = (\<lambda>w. w),
     lib_version = (\<lambda>ssl w. 0),
     lib_has_cipher = (\<lambda>ssl w. False),
     lib_null_ok = True\<rparr>"

end
