(* ===== verification/Result_Codes.thy ===== *)
theory Result_Codes
  imports TLS_Library
begin

unbundle bit_operations_syntax

text \<open>
  \<^verbatim>\<open>SocketResult.hpp\<close> and the result type of \<^verbatim>\<open>SecuritySocket.hpp\<close>: the result codes, the
  classification of POSIX, Winsock and OpenSSL failures into them, and their messages.
\<close>

subsection \<open>Codes and results\<close>

datatype SocketCode =
    SUCCESS
  | ADDRESS_NOT_AVAILABLE
  | WINDOWS_SOCKET_INITIALIZATION_FAIL
  | TLS_CONTEXT_INITIALIZATION_FAIL
  | TLS_INITIALIZATION_FAIL
  | SOCKET_PERMISSION_DENIED
  | SOCKET_ADDRESS_FAMILY_NOT_SUPPORTED
  | SOCKET_INVALID_ARGUMENT
  | SOCKET_CANNOT_CREATED
  | SOCKET_CANNOT_ALLOC
  | SOCKET_OPTION_ERROR
  | SOCKET_CONNECTION_NOT_RESPOND
  | SOCKET_CONNECTION_ADDRESS_IN_USE
  | SOCKET_CONNECTION_BAD_DESCRIPTOR
  | SOCKET_CONNECTION_REFUSED
  | SOCKET_CONNECTION_BAD_ADDRESS
  | SOCKET_CONNECTION_UNREACHED
  | SOCKET_CONNECTION_INTERRUPTED
  | SOCKET_ALREADY_CONNECTED
  | SOCKET_CONNECTION_IN_PROGRESS
  | SOCKET_CONNECTION_NEED_TO_BE_BLOCKED
  | SOCKET_BIND_FAILED
  | SOCKET_LISTEN_FAILED
  | TLS_SETFD_ERROR
  | TLS_VERSION_NOT_SUPPORTED
  | TLS_CIPHER_SUITE_MISMATCH
  | TLS_SERVER_CERT_INVALID
  | TLS_CLIENT_CERT_REJECTED
  | TLS_HOSTNAME_MISMATCH
  | SSL_PROTOCOL_ERROR
  | SSL_ERROR_CLOSED_BY_PEER
  | SOCKET_TIMEOUT
  | SOCKET_CLOSED
  | SOCKET_EVENT_ERROR
  | SOCKET_EVENT_OBJECT_NOT_CREATED
  | SOCKET_EVENT_CANNOT_ADDED
  | SOCKET_SERVER_ALREADY_RUNNING
  | UNKNOWN_ERROR
  | CODE_LENGTH

record SocketResult =
  sr_code :: SocketCode
  sr_bytes :: int

text \<open>The constructor's two forms: with a byte count, and with its default of \<open>-1\<close>.\<close>

definition mkResult :: "SocketCode \<Rightarrow> int \<Rightarrow> SocketResult" where
  "mkResult c n = \<lparr>sr_code = c, sr_bytes = n\<rparr>"

abbreviation mkCode :: "SocketCode \<Rightarrow> SocketResult" where
  "mkCode c \<equiv> mkResult c (- 1)"

lemma sr_code_mkResult [simp]: "sr_code (mkResult c n) = c"
  by (simp add: mkResult_def)

lemma sr_bytes_mkResult [simp]: "sr_bytes (mkResult c n) = n"
  by (simp add: mkResult_def)

lemma mkResult_eq_iff [simp]: "mkResult c n = mkResult d m \<longleftrightarrow> c = d \<and> n = m"
  by (simp add: mkResult_def)

subsection \<open>Operating-system errors\<close>

text \<open>
  \<open>errno\<close> values by their names (on Linux \<^verbatim>\<open>EWOULDBLOCK\<close> and \<^verbatim>\<open>EAGAIN\<close> are one value);
  \<open>E_OTHER\<close> stands for the values the code does not name, \<open>E_NONE\<close> for zero.
\<close>

datatype errno =
    E_NONE | EACCES | EAFNOSUPPORT | EINVAL | EMFILE | ENOBUFS | ETIMEDOUT | EADDRINUSE | EBADF
  | ECONNREFUSED | EFAULT | ENETUNREACH | EINTR | EALREADY | EINPROGRESS | EWOULDBLOCK
  | E_OTHER nat

fun createResultFromSocketError :: "errno \<Rightarrow> SocketResult" where
  "createResultFromSocketError EACCES = mkCode SOCKET_PERMISSION_DENIED"
| "createResultFromSocketError EAFNOSUPPORT = mkCode SOCKET_ADDRESS_FAMILY_NOT_SUPPORTED"
| "createResultFromSocketError EINVAL = mkCode SOCKET_INVALID_ARGUMENT"
| "createResultFromSocketError EMFILE = mkCode SOCKET_CANNOT_CREATED"
| "createResultFromSocketError ENOBUFS = mkCode SOCKET_CANNOT_ALLOC"
| "createResultFromSocketError ETIMEDOUT = mkCode SOCKET_CONNECTION_NOT_RESPOND"
| "createResultFromSocketError EADDRINUSE = mkCode SOCKET_CONNECTION_ADDRESS_IN_USE"
| "createResultFromSocketError EBADF = mkCode SOCKET_CONNECTION_BAD_DESCRIPTOR"
| "createResultFromSocketError ECONNREFUSED = mkCode SOCKET_CONNECTION_REFUSED"
| "createResultFromSocketError EFAULT = mkCode SOCKET_CONNECTION_BAD_ADDRESS"
| "createResultFromSocketError ENETUNREACH = mkCode SOCKET_CONNECTION_UNREACHED"
| "createResultFromSocketError EINTR = mkCode SOCKET_CONNECTION_INTERRUPTED"
| "createResultFromSocketError EALREADY = mkCode SOCKET_ALREADY_CONNECTED"
| "createResultFromSocketError EINPROGRESS = mkCode SOCKET_CONNECTION_IN_PROGRESS"
| "createResultFromSocketError EWOULDBLOCK = mkCode SOCKET_CONNECTION_NEED_TO_BE_BLOCKED"
| "createResultFromSocketError _ = mkCode UNKNOWN_ERROR"

text \<open>The Winsock branch, over the Winsock error names.\<close>

datatype wsa_error =
    WSA_NONE | WSAEACCES | WSAEAFNOSUPPORT | WSAEINVAL | WSAEMFILE | WSAENOBUFS | WSAETIMEDOUT
  | WSAEADDRINUSE | WSAEBADF | WSAECONNREFUSED | WSAEFAULT | WSAENETUNREACH | WSAEINTR
  | WSAEALREADY | WSAEINPROGRESS | WSAEWOULDBLOCK | WSATRY_AGAIN | WSA_OTHER nat

fun createResultFromWsaError :: "wsa_error \<Rightarrow> SocketResult" where
  "createResultFromWsaError WSAEACCES = mkCode SOCKET_PERMISSION_DENIED"
| "createResultFromWsaError WSAEAFNOSUPPORT = mkCode SOCKET_ADDRESS_FAMILY_NOT_SUPPORTED"
| "createResultFromWsaError WSAEINVAL = mkCode SOCKET_INVALID_ARGUMENT"
| "createResultFromWsaError WSAEMFILE = mkCode SOCKET_CANNOT_CREATED"
| "createResultFromWsaError WSAENOBUFS = mkCode SOCKET_CANNOT_ALLOC"
| "createResultFromWsaError WSAETIMEDOUT = mkCode SOCKET_CONNECTION_NOT_RESPOND"
| "createResultFromWsaError WSAEADDRINUSE = mkCode SOCKET_CONNECTION_ADDRESS_IN_USE"
| "createResultFromWsaError WSAEBADF = mkCode SOCKET_CONNECTION_BAD_DESCRIPTOR"
| "createResultFromWsaError WSAECONNREFUSED = mkCode SOCKET_CONNECTION_REFUSED"
| "createResultFromWsaError WSAEFAULT = mkCode SOCKET_CONNECTION_BAD_ADDRESS"
| "createResultFromWsaError WSAENETUNREACH = mkCode SOCKET_CONNECTION_UNREACHED"
| "createResultFromWsaError WSAEINTR = mkCode SOCKET_CONNECTION_INTERRUPTED"
| "createResultFromWsaError WSAEALREADY = mkCode SOCKET_ALREADY_CONNECTED"
| "createResultFromWsaError WSAEINPROGRESS = mkCode SOCKET_CONNECTION_IN_PROGRESS"
| "createResultFromWsaError WSAEWOULDBLOCK = mkCode SOCKET_CONNECTION_NEED_TO_BE_BLOCKED"
| "createResultFromWsaError WSATRY_AGAIN = mkCode SOCKET_CONNECTION_NEED_TO_BE_BLOCKED"
| "createResultFromWsaError _ = mkCode UNKNOWN_ERROR"

text \<open>\<open>createResult err ret\<close>: \<open>err\<close> is what \<^verbatim>\<open>errno\<close> holds when it is called.\<close>

definition createResult :: "errno \<Rightarrow> int \<Rightarrow> SocketResult" where
  "createResult err operation_return =
     (if operation_return > 0 then mkResult SUCCESS operation_return
      else let res = createResultFromSocketError err
           in mkResult (sr_code res) operation_return)"

subsection \<open>TLS errors\<close>

definition createTLSResult ::
  "'w ssl_lib \<Rightarrow> ('w \<Rightarrow> errno) \<Rightarrow> ssl_ptr \<Rightarrow> int \<Rightarrow> 'w \<Rightarrow> SocketResult" where
  "createTLSResult lib errno_of ssl operation_return w =
    (if operation_return \<ge> 1 then mkResult SUCCESS operation_return
     else let code = lib_get_error lib ssl operation_return w in
       if code = SSL_ERROR_SSL then
         (let verify_result = lib_verify_result lib ssl w;
              reason = lib_error_reason lib (lib_peek_error lib w);
              peer = lib_verify_mode lib ssl w AND SSL_VERIFY_PEER \<noteq> 0
          in if peer \<and> (verify_result = X509_V_ERR_HOSTNAME_MISMATCH
                      \<or> verify_result = X509_V_ERR_IP_ADDRESS_MISMATCH)
             then mkResult TLS_HOSTNAME_MISMATCH operation_return
             else if peer \<and> verify_result \<noteq> X509_V_OK
             then mkResult TLS_SERVER_CERT_INVALID operation_return
             else if reason = SSL_R_UNSUPPORTED_PROTOCOL
                   \<or> reason = SSL_R_NO_PROTOCOLS_AVAILABLE
                   \<or> reason = SSL_R_TLSV1_ALERT_PROTOCOL_VERSION
             then mkResult TLS_VERSION_NOT_SUPPORTED operation_return
             else if reason = SSL_R_NO_CIPHERS_AVAILABLE \<or> reason = SSL_R_NO_SHARED_CIPHER
             then mkResult TLS_CIPHER_SUITE_MISMATCH operation_return
             else if reason = SSL_R_TLSV13_ALERT_CERTIFICATE_REQUIRED
                   \<or> reason = SSL_R_TLSV1_ALERT_UNKNOWN_CA
             then mkResult TLS_CLIENT_CERT_REJECTED operation_return
             else if reason = SSL_R_SSLV3_ALERT_HANDSHAKE_FAILURE
             then (if lib_has_cipher lib ssl w
                   then mkResult TLS_CLIENT_CERT_REJECTED operation_return
                   else mkResult TLS_CIPHER_SUITE_MISMATCH operation_return)
             else mkResult SSL_PROTOCOL_ERROR operation_return)
       else if code = SSL_ERROR_WANT_READ \<or> code = SSL_ERROR_WANT_WRITE
       then mkResult SOCKET_CONNECTION_NEED_TO_BE_BLOCKED operation_return
       else if code = SSL_ERROR_SYSCALL then createResult (errno_of w) operation_return
       else if code = SSL_ERROR_ZERO_RETURN
       then mkResult SSL_ERROR_CLOSED_BY_PEER operation_return
       else mkResult UNKNOWN_ERROR operation_return)"

subsection \<open>Messages\<close>

fun getMessage :: "SocketCode \<Rightarrow> string" where
  "getMessage SUCCESS = ''Success''"
| "getMessage ADDRESS_NOT_AVAILABLE = ''Address not available''"
| "getMessage WINDOWS_SOCKET_INITIALIZATION_FAIL = ''Windows socket initialization failed''"
| "getMessage TLS_CONTEXT_INITIALIZATION_FAIL = ''TLS context initialization failed''"
| "getMessage TLS_INITIALIZATION_FAIL = ''TLS initialization failed''"
| "getMessage SOCKET_PERMISSION_DENIED =
     ''The process does not have permission to create the socket.''"
| "getMessage SOCKET_ADDRESS_FAMILY_NOT_SUPPORTED =
     ''Address Faimily is not supported in host system''"
| "getMessage SOCKET_INVALID_ARGUMENT =
     ''An invalid argument was used when creating the socket.''"
| "getMessage SOCKET_CANNOT_CREATED =
     ''No more sockets can be created because the file descriptor limit has been reached.''"
| "getMessage SOCKET_CANNOT_ALLOC =
     ''No more sockets can be created due to insufficient memory.''"
| "getMessage SOCKET_OPTION_ERROR = ''Socket option error occurred''"
| "getMessage SOCKET_CONNECTION_NOT_RESPOND = ''Connected host is not responding to requests.''"
| "getMessage SOCKET_CONNECTION_ADDRESS_IN_USE = ''Socket connection address already in use''"
| "getMessage SOCKET_CONNECTION_BAD_DESCRIPTOR = ''Invalid socket descriptor''"
| "getMessage SOCKET_CONNECTION_REFUSED =
     ''The connection was refused, or the server did not accept the connection request.''"
| "getMessage SOCKET_CONNECTION_BAD_ADDRESS = ''Bad address for socket connection''"
| "getMessage SOCKET_CONNECTION_UNREACHED = ''Socket connection unreachable''"
| "getMessage SOCKET_CONNECTION_INTERRUPTED = ''Socket connection interrupted''"
| "getMessage SOCKET_ALREADY_CONNECTED = ''Socket is already connected''"
| "getMessage SOCKET_CONNECTION_IN_PROGRESS = ''Socket connection in progress''"
| "getMessage SOCKET_CONNECTION_NEED_TO_BE_BLOCKED =
     ''Socket has no data. Call select or poll function for waiting data''"
| "getMessage SOCKET_BIND_FAILED = ''Socket binding failed''"
| "getMessage SOCKET_LISTEN_FAILED = ''Socket listen failed''"
| "getMessage TLS_SETFD_ERROR = ''Failed to set file descriptor for TLS''"
| "getMessage TLS_VERSION_NOT_SUPPORTED =
     ''Server does not support the configured TLS version''"
| "getMessage TLS_CIPHER_SUITE_MISMATCH =
     ''No common cipher suite between client and server''"
| "getMessage TLS_SERVER_CERT_INVALID = ''Server certificate verification failed''"
| "getMessage TLS_CLIENT_CERT_REJECTED = ''Server rejected the client certificate''"
| "getMessage TLS_HOSTNAME_MISMATCH =
     ''Server certificate does not match the expected hostname''"
| "getMessage SSL_PROTOCOL_ERROR = ''SSL protocol error occurred''"
| "getMessage SSL_ERROR_CLOSED_BY_PEER = ''SSL connection closed by peer''"
| "getMessage SOCKET_TIMEOUT = ''Socket operation timed out''"
| "getMessage SOCKET_CLOSED = ''Socket is closed''"
| "getMessage SOCKET_EVENT_ERROR = ''Socket event error occurred''"
| "getMessage SOCKET_EVENT_OBJECT_NOT_CREATED =
     ''Socket event object could not be created''"
| "getMessage SOCKET_EVENT_CANNOT_ADDED = ''Failed to add socket event''"
| "getMessage SOCKET_SERVER_ALREADY_RUNNING = ''Socket server is already running''"
| "getMessage UNKNOWN_ERROR = ''Unknown socket error occurred''"
| "getMessage CODE_LENGTH = ''Invalid socket code (LENGTH should not be used)''"

definition all_codes :: "SocketCode list" where
  "all_codes =
    [SUCCESS, ADDRESS_NOT_AVAILABLE, WINDOWS_SOCKET_INITIALIZATION_FAIL,
     TLS_CONTEXT_INITIALIZATION_FAIL, TLS_INITIALIZATION_FAIL, SOCKET_PERMISSION_DENIED,
     SOCKET_ADDRESS_FAMILY_NOT_SUPPORTED, SOCKET_INVALID_ARGUMENT, SOCKET_CANNOT_CREATED,
     SOCKET_CANNOT_ALLOC, SOCKET_OPTION_ERROR, SOCKET_CONNECTION_NOT_RESPOND,
     SOCKET_CONNECTION_ADDRESS_IN_USE, SOCKET_CONNECTION_BAD_DESCRIPTOR,
     SOCKET_CONNECTION_REFUSED, SOCKET_CONNECTION_BAD_ADDRESS, SOCKET_CONNECTION_UNREACHED,
     SOCKET_CONNECTION_INTERRUPTED, SOCKET_ALREADY_CONNECTED, SOCKET_CONNECTION_IN_PROGRESS,
     SOCKET_CONNECTION_NEED_TO_BE_BLOCKED, SOCKET_BIND_FAILED, SOCKET_LISTEN_FAILED,
     TLS_SETFD_ERROR, TLS_VERSION_NOT_SUPPORTED, TLS_CIPHER_SUITE_MISMATCH,
     TLS_SERVER_CERT_INVALID, TLS_CLIENT_CERT_REJECTED, TLS_HOSTNAME_MISMATCH,
     SSL_PROTOCOL_ERROR, SSL_ERROR_CLOSED_BY_PEER, SOCKET_TIMEOUT, SOCKET_CLOSED,
     SOCKET_EVENT_ERROR, SOCKET_EVENT_OBJECT_NOT_CREATED, SOCKET_EVENT_CANNOT_ADDED,
     SOCKET_SERVER_ALREADY_RUNNING, UNKNOWN_ERROR, CODE_LENGTH]"

subsection \<open>The codes in declaration order\<close>

text \<open>
  The enumeration's order, as the position of a code in \<open>all_codes\<close>; it makes the codes a
  linear order, so that the library's ordered containers and sorting apply to them.
\<close>

fun position :: "'a \<Rightarrow> 'a list \<Rightarrow> nat" where
  "position a [] = 0"
| "position a (x # xs) = (if x = a then 0 else Suc (position a xs))"

lemma nth_position: "a \<in> set xs \<Longrightarrow> xs ! position a xs = a"
  by (induction xs) auto

lemma all_codes_complete: "c \<in> set all_codes"
  by (cases c) (simp_all add: all_codes_def)

definition code_index :: "SocketCode \<Rightarrow> nat" where
  "code_index c = position c all_codes"

lemma code_index_inj: "code_index c = code_index d \<longleftrightarrow> c = d"
  by (metis all_codes_complete code_index_def nth_position)

instantiation SocketCode :: linorder
begin

definition less_eq_SocketCode :: "SocketCode \<Rightarrow> SocketCode \<Rightarrow> bool" where
  "less_eq_SocketCode c d \<longleftrightarrow> code_index c \<le> code_index d"

definition less_SocketCode :: "SocketCode \<Rightarrow> SocketCode \<Rightarrow> bool" where
  "less_SocketCode c d \<longleftrightarrow> code_index c < code_index d"

instance
  by standard (auto simp: less_eq_SocketCode_def less_SocketCode_def code_index_inj)

end

subsection \<open>Lemmas\<close>

lemma createResult_code:
  "sr_code (createResult err n) =
     (if n > 0 then SUCCESS else sr_code (createResultFromSocketError err))"
  by (simp add: createResult_def Let_def)

lemma createResult_bytes [simp]: "sr_bytes (createResult err n) = n"
  by (simp add: createResult_def Let_def)

text \<open>The codes the classification of a system error can have.\<close>

definition os_codes :: "SocketCode set" where
  "os_codes = {SOCKET_PERMISSION_DENIED, SOCKET_ADDRESS_FAMILY_NOT_SUPPORTED,
     SOCKET_INVALID_ARGUMENT, SOCKET_CANNOT_CREATED, SOCKET_CANNOT_ALLOC,
     SOCKET_CONNECTION_NOT_RESPOND, SOCKET_CONNECTION_ADDRESS_IN_USE,
     SOCKET_CONNECTION_BAD_DESCRIPTOR, SOCKET_CONNECTION_REFUSED,
     SOCKET_CONNECTION_BAD_ADDRESS, SOCKET_CONNECTION_UNREACHED,
     SOCKET_CONNECTION_INTERRUPTED, SOCKET_ALREADY_CONNECTED, SOCKET_CONNECTION_IN_PROGRESS,
     SOCKET_CONNECTION_NEED_TO_BE_BLOCKED, UNKNOWN_ERROR}"

lemma createResultFromSocketError_range:
  "sr_code (createResultFromSocketError err) \<in> os_codes"
  by (cases err) (simp_all add: os_codes_def)

lemma createResultFromWsaError_range:
  "sr_code (createResultFromWsaError err) \<in> os_codes"
  by (cases err) (simp_all add: os_codes_def)

lemma os_codes_excluded:
  "SUCCESS \<notin> os_codes" "SOCKET_TIMEOUT \<notin> os_codes" "SOCKET_CLOSED \<notin> os_codes"
  "SOCKET_SERVER_ALREADY_RUNNING \<notin> os_codes" "SSL_ERROR_CLOSED_BY_PEER \<notin> os_codes"
  by (simp_all add: os_codes_def)

lemma createResult_success_iff [result_simps]:
  "sr_code (createResult err n) = SUCCESS \<longleftrightarrow> n > 0"
  using createResultFromSocketError_range [of err] os_codes_excluded
  by (auto simp: createResult_code)

lemma createResult_not_timeout [result_simps]:
  "sr_code (createResult err n) \<noteq> SOCKET_TIMEOUT"
  "sr_code (createResult err n) \<noteq> SOCKET_CLOSED"
  using createResultFromSocketError_range [of err] os_codes_excluded
  by (auto simp: createResult_code)

lemma createTLSResult_bytes [simp]: "sr_bytes (createTLSResult lib eo ssl n w) = n"
  by (simp add: createTLSResult_def Let_def)

lemma createTLSResult_success_iff [result_simps]:
  "sr_code (createTLSResult lib eo ssl n w) = SUCCESS \<longleftrightarrow> n > 0"
  by (auto simp: createTLSResult_def Let_def result_simps)

lemma createTLSResult_not_timeout [result_simps]:
  "sr_code (createTLSResult lib eo ssl n w) \<noteq> SOCKET_TIMEOUT"
  "sr_code (createTLSResult lib eo ssl n w) \<noteq> SOCKET_CLOSED"
  by (auto simp: createTLSResult_def Let_def result_simps)

lemma getMessage_distinct: "distinct (map getMessage all_codes)"
  by (simp add: all_codes_def)

subsection \<open>Properties\<close>

text \<open>
  Every result code has a message of its own: no two codes share one, so the text a
  caller logs identifies the code.
\<close>

theorem getMessage_injective: "getMessage c = getMessage d \<longleftrightarrow> c = d"
  using getMessage_distinct all_codes_complete [of c] all_codes_complete [of d]
  by (auto simp: distinct_map dest: inj_onD)

text \<open>
  The result of a send, receive or other counted call succeeds exactly when the call
  moved at least one byte, carries the call's own return value, and is never a timeout or a
  closed connection: those two codes can only come from the event listener or from the
  callers' test for a zero return.
\<close>

theorem createResult_classification:
  "createResult err n =
     (if n > 0 then mkResult SUCCESS n else mkResult (sr_code (createResultFromSocketError err)) n)
   \<and> (sr_code (createResult err n) = SUCCESS \<longleftrightarrow> n > 0)
   \<and> sr_code (createResult err n) \<notin> {SOCKET_TIMEOUT, SOCKET_CLOSED}"
  by (simp add: result_simps) (simp add: createResult_def Let_def)

text \<open>
  A failed handshake is reported as a certificate or host name problem only when the
  session verifies its peer; without verification the outcome depends on the alert alone,
  and a handshake-failure alert means a rejected client certificate exactly when a cipher
  had already been negotiated.
\<close>

theorem tls_failure_classification:
  assumes "n \<le> 0" and "lib_get_error lib ssl n w = SSL_ERROR_SSL"
    and "lib_verify_mode lib ssl w AND SSL_VERIFY_PEER = 0"
  shows "sr_code (createTLSResult lib eo ssl n w) \<in>
      {TLS_VERSION_NOT_SUPPORTED, TLS_CIPHER_SUITE_MISMATCH, TLS_CLIENT_CERT_REJECTED,
       SSL_PROTOCOL_ERROR}
    \<and> (lib_error_reason lib (lib_peek_error lib w) = SSL_R_SSLV3_ALERT_HANDSHAKE_FAILURE \<longrightarrow>
      sr_code (createTLSResult lib eo ssl n w) =
        (if lib_has_cipher lib ssl w then TLS_CLIENT_CERT_REJECTED else TLS_CIPHER_SUITE_MISMATCH))"
  using assms by (auto simp: createTLSResult_def Let_def tls_reasons)

theorem tls_failure_classification_witness:
  "sr_code (createTLSResult
      (stub_ssl\<lparr>lib_get_error := (\<lambda>ssl n w. SSL_ERROR_SSL), lib_peek_error := (\<lambda>w. 1040),
                lib_has_cipher := (\<lambda>ssl w. True)\<rparr>) (\<lambda>w. E_NONE) (Some 1) (- 1) ())
    = TLS_CLIENT_CERT_REJECTED"
proof -
  let ?lib = "stub_ssl\<lparr>lib_get_error := (\<lambda>ssl n w. SSL_ERROR_SSL), lib_peek_error := (\<lambda>w. 1040),
                lib_has_cipher := (\<lambda>ssl w. True)\<rparr> :: unit ssl_lib"
  show ?thesis
    using tls_failure_classification [of "- 1" ?lib "Some 1" "()"]
    by (simp add: stub_ssl_def tls_consts tls_reasons stub_error_reason_def)
qed

end
