(* ===== verification/C_Strings.thy ===== *)
theory C_Strings
  imports Prelude
begin

text \<open>
  The C string functions the code uses on fixed character arrays: \<^verbatim>\<open>memcpy\<close>, \<^verbatim>\<open>snprintf\<close>
  with \<^verbatim>\<open>"%s"\<close> and \<^verbatim>\<open>"%d"\<close>, and reading an array as a C string. A \<^verbatim>\<open>const char*\<close> argument is
  a \<open>string\<close>: the characters before its terminator.
\<close>

definition NUL :: char where
  "NUL = CHR 0x00"

definition zero_array :: "nat \<Rightarrow> char list" where
  "zero_array n = replicate n NUL"

text \<open>Reading an array as a string: a fault when no terminator lies inside it.\<close>

definition c_str :: "char list \<Rightarrow> string result" where
  "c_str arr = (if NUL \<in> set arr then Inr (takeWhile (\<lambda>c. c \<noteq> NUL) arr) else Inl OutOfBounds)"

text \<open>\<^verbatim>\<open>snprintf(dst, n, "%s", src)\<close> for \<open>n > 0\<close>: at most \<open>n - 1\<close> characters and the terminator.\<close>

definition snprintf_s :: "char list \<Rightarrow> nat \<Rightarrow> string \<Rightarrow> char list" where
  "snprintf_s dst n src =
     (let s = take (n - 1) src @ [NUL] in s @ drop (length s) dst)"

text \<open>\<^verbatim>\<open>"%d"\<close>: decimal digits of a signed integer.\<close>

definition digit_char :: "nat \<Rightarrow> char" where
  "digit_char d = char_of (48 + d)"

fun show_nat :: "nat \<Rightarrow> string" where
  "show_nat n = (if n < 10 then [digit_char n] else show_nat (n div 10) @ [digit_char (n mod 10)])"

declare show_nat.simps [simp del]

definition show_int :: "int \<Rightarrow> string" where
  "show_int i = (if i < 0 then CHR ''-'' # show_nat (nat (- i)) else show_nat (nat i))"

text \<open>The reader of a decimal string, for the round trip (the service argument of \<^verbatim>\<open>getaddrinfo\<close>).\<close>

definition char_digit :: "char \<Rightarrow> nat" where
  "char_digit c = of_char c - 48"

definition read_nat :: "string \<Rightarrow> nat" where
  "read_nat s = foldl (\<lambda>acc c. 10 * acc + char_digit c) 0 s"

subsection \<open>Lemmas\<close>

lemma char_digit_digit_char: "d < 10 \<Longrightarrow> char_digit (digit_char d) = d"
  by (simp add: char_digit_def digit_char_def)

lemma digit_char_not_NUL: "d < 10 \<Longrightarrow> digit_char d \<noteq> NUL"
proof
  assume "d < 10" and "digit_char d = NUL"
  then have "(of_char (digit_char d) :: nat) = of_char NUL" by simp
  with \<open>d < 10\<close> show False by (simp add: digit_char_def NUL_def)
qed

lemma read_show_nat: "read_nat (show_nat n) = n"
proof (induction n rule: show_nat.induct)
  case (1 n)
  show ?case
  proof (cases "n < 10")
    case True
    then show ?thesis
      by (simp add: show_nat.simps [of n] read_nat_def char_digit_digit_char)
  next
    case False
    with 1 have "read_nat (show_nat (n div 10)) = n div 10" by simp
    with False show ?thesis
      by (simp add: show_nat.simps [of n] read_nat_def char_digit_digit_char)
  qed
qed

lemma show_nat_no_NUL: "NUL \<notin> set (show_nat n)"
proof (induction n rule: show_nat.induct)
  case (1 n)
  then show ?case
    using digit_char_not_NUL [of n] digit_char_not_NUL [of "n mod 10"]
    by (cases "n < 10") (auto simp: show_nat.simps [of n])
qed

lemma length_show_nat: "n < 10 ^ k \<Longrightarrow> 0 < k \<Longrightarrow> length (show_nat n) \<le> k"
proof (induction k arbitrary: n)
  case 0
  then show ?case by simp
next
  case (Suc k)
  show ?case
  proof (cases "n < 10")
    case True
    then show ?thesis by (simp add: show_nat.simps [of n])
  next
    case False
    with Suc.prems have "n div 10 < 10 ^ k" by (simp add: div_less_iff_less_mult algebra_simps)
    moreover have "0 < k" using False Suc.prems by (cases k) auto
    ultimately have "length (show_nat (n div 10)) \<le> k" by (rule Suc.IH)
    with False show ?thesis by (simp add: show_nat.simps [of n])
  qed
qed

lemma show_int_no_NUL: "NUL \<notin> set (show_int i)"
  using show_nat_no_NUL by (simp add: show_int_def NUL_def)

lemma takeWhile_terminated:
  "NUL \<notin> set s \<Longrightarrow> takeWhile (\<lambda>c. c \<noteq> NUL) (s @ NUL # t) = s"
  by (induction s) auto

lemma c_str_terminated: "NUL \<notin> set s \<Longrightarrow> c_str (s @ NUL # t) = Inr s"
  by (simp add: c_str_def takeWhile_terminated)

lemma length_snprintf_s:
  "0 < n \<Longrightarrow> n \<le> length dst \<Longrightarrow> length (snprintf_s dst n src) = length dst"
  by (simp add: snprintf_s_def Let_def)

lemma c_str_snprintf_s:
  "NUL \<notin> set src \<Longrightarrow> c_str (snprintf_s dst n src) = Inr (take (n - 1) src)"
  using c_str_terminated [of "take (n - 1) src"]
  by (auto simp: snprintf_s_def Let_def dest: in_set_takeD)

end
