(* ===== verification/OS_Interface.thy ===== *)
theory OS_Interface
  imports Result_Codes C_Strings
begin

unbundle bit_operations_syntax

text \<open>
  The POSIX socket interface the code calls, as a record of functions over a world \<open>'w\<close>,
  with its documented contract, and \<^verbatim>\<open>SocketHelper.hpp\<close>: blocking mode, Nagle and timeouts.
  The kernel and the C library's resolver are parameters; every result, every error and
  every interleaving with the peer is a choice of the world.
\<close>

subsection \<open>Poll events\<close>

type_synonym events = "16 word"

definition POLLIN :: events where "POLLIN = 0x001"
definition POLLOUT :: events where "POLLOUT = 0x004"
definition POLLERR :: events where "POLLERR = 0x008"
definition POLLHUP :: events where "POLLHUP = 0x010"
definition POLLNVAL :: events where "POLLNVAL = 0x020"

lemmas poll_consts = POLLIN_def POLLOUT_def POLLERR_def POLLHUP_def POLLNVAL_def

definition has_event :: "events \<Rightarrow> events \<Rightarrow> bool" where
  "has_event revents flag \<longleftrightarrow> revents AND flag \<noteq> 0"

subsection \<open>The interface\<close>

record timeval =
  tv_sec :: int
  tv_usec :: int

datatype sockopt =
    SO_REUSEADDR int
  | SO_RCVTIMEO timeval
  | SO_SNDTIMEO timeval
  | SO_RCVBUF size_t
  | SO_SNDBUF size_t
  | TCP_NODELAY int

text \<open>\<^verbatim>\<open>sockaddr_in\<close>: the address and the port, both in network byte order.\<close>

record sockaddr_in =
  sin_addr :: "32 word"
  sin_port :: "16 word"

datatype gai_error =
    EAI_AGAIN | EAI_FAIL | EAI_MEMORY | EAI_NONAME | EAI_SERVICE | EAI_OTHER nat

record 'w os =
  os_errno :: "'w \<Rightarrow> errno"
  os_socket :: "bool \<Rightarrow> 'w \<Rightarrow> int \<times> 'w"
  os_getfl :: "fd \<Rightarrow> 'w \<Rightarrow> 32 word"
  os_setfl :: "fd \<Rightarrow> 32 word \<Rightarrow> 'w \<Rightarrow> 'w"
  os_setsockopt :: "fd \<Rightarrow> sockopt \<Rightarrow> 'w \<Rightarrow> 'w"
  os_connect :: "fd \<Rightarrow> byte list \<Rightarrow> 'w \<Rightarrow> int \<times> 'w"
  os_bind :: "fd \<Rightarrow> byte list \<Rightarrow> 'w \<Rightarrow> int \<times> 'w"
  os_listen :: "fd \<Rightarrow> 'w \<Rightarrow> int \<times> 'w"
  os_accept :: "fd \<Rightarrow> 'w \<Rightarrow> (int \<times> sockaddr_in) \<times> 'w"
  os_shutdown :: "fd \<Rightarrow> 'w \<Rightarrow> 'w"
  os_close :: "fd \<Rightarrow> 'w \<Rightarrow> 'w"
  os_send :: "fd \<Rightarrow> byte list \<Rightarrow> 'w \<Rightarrow> int \<times> 'w"
  os_recv :: "fd \<Rightarrow> size_t \<Rightarrow> 'w \<Rightarrow> (int \<times> byte list) \<times> 'w"
  os_peek :: "fd \<Rightarrow> size_t \<Rightarrow> 'w \<Rightarrow> int \<times> 'w"
  os_poll :: "(fd \<times> events) list \<Rightarrow> 32 word \<Rightarrow> 'w \<Rightarrow> (int \<times> events list) \<times> 'w"
  os_so_error :: "fd \<Rightarrow> 'w \<Rightarrow> errno \<times> 'w"
  os_getaddrinfo :: "string option \<Rightarrow> string \<Rightarrow> bool \<Rightarrow> 'w \<Rightarrow> (gai_error + byte list) \<times> 'w"
  os_sleep :: "32 word \<Rightarrow> 'w \<Rightarrow> 'w"

text \<open>An environment in which every call fails: the base of the concrete ones.\<close>

definition null_os :: "'w os" where
  "null_os = \<lparr>
     os_errno = (\<lambda>w. E_NONE),
     os_socket = (\<lambda>u w. (- 1, w)),
     os_getfl = (\<lambda>s w. 0),
     os_setfl = (\<lambda>s f w. w),
     os_setsockopt = (\<lambda>s opt w. w),
     os_connect = (\<lambda>s a w. (- 1, w)),
     os_bind = (\<lambda>s a w. (- 1, w)),
     os_listen = (\<lambda>s w. (- 1, w)),
     os_accept = (\<lambda>s w. ((- 1, \<lparr>sin_addr = 0, sin_port = 0\<rparr>), w)),
     os_shutdown = (\<lambda>s w. w),
     os_close = (\<lambda>s w. w),
     os_send = (\<lambda>s buf w. (- 1, w)),
     os_recv = (\<lambda>s n w. ((- 1, []), w)),
     os_peek = (\<lambda>s n w. (- 1, w)),
     os_poll = (\<lambda>fds t w. ((- 1, map (\<lambda>_. 0) fds), w)),
     os_so_error = (\<lambda>s w. (E_NONE, w)),
     os_getaddrinfo = (\<lambda>ip port server w. (Inl EAI_FAIL, w)),
     os_sleep = (\<lambda>ms w. w)\<rparr>"

text \<open>
  The documented contract of the counted calls: \<^verbatim>\<open>recv\<close> delivers as many bytes as it
  returns, at most as many as asked for; \<^verbatim>\<open>send\<close> takes at most what it is given; \<^verbatim>\<open>poll\<close>
  reports one \<open>revents\<close> per descriptor.
\<close>

definition recv_ok :: "'w os \<Rightarrow> bool" where
  "recv_ok os \<longleftrightarrow> (\<forall>s n w. case os_recv os s n w of ((r, data), w') \<Rightarrow>
     r \<le> int (unat n) \<and> (0 < r \<longrightarrow> length data = nat r) \<and> (r \<le> 0 \<longrightarrow> data = []))"

definition send_ok :: "'w os \<Rightarrow> bool" where
  "send_ok os \<longleftrightarrow> (\<forall>s buf w. fst (os_send os s buf w) \<le> int (length buf))"

definition poll_ok :: "'w os \<Rightarrow> bool" where
  "poll_ok os \<longleftrightarrow> (\<forall>fds t w. length (snd (fst (os_poll os fds t w))) = length fds)"

lemma null_os_ok [simp]: "recv_ok null_os" "send_ok null_os" "poll_ok null_os"
  by (simp_all add: recv_ok_def send_ok_def poll_ok_def null_os_def order.trans [OF _ uint_ge_0])

lemma recv_okD:
  assumes "recv_ok os" and "os_recv os s n w = ((r, data), w')"
  shows "r \<le> int (unat n) \<and> (0 < r \<longrightarrow> length data = nat r) \<and> (r \<le> 0 \<longrightarrow> data = [])"
  using assms(1) [unfolded recv_ok_def, THEN spec, of s, THEN spec, of n, THEN spec, of w] assms(2)
  by simp

subsection \<open>Blocking mode, Nagle, timeouts\<close>

definition O_NONBLOCK :: "32 word" where "O_NONBLOCK = 0x800"

definition setNonBlockingMode :: "'w os \<Rightarrow> fd \<Rightarrow> 'w \<Rightarrow> 'w" where
  "setNonBlockingMode os s w =
     (let flags = os_getfl os s w in os_setfl os s (flags OR O_NONBLOCK) w)"

definition setBlockingMode :: "'w os \<Rightarrow> fd \<Rightarrow> 'w \<Rightarrow> 'w" where
  "setBlockingMode os s w =
     (let flags = os_getfl os s w in os_setfl os s (flags AND NOT O_NONBLOCK) w)"

definition setNoDelay :: "'w os \<Rightarrow> fd \<Rightarrow> 'w \<Rightarrow> 'w" where
  "setNoDelay os s w = os_setsockopt os s (TCP_NODELAY 1) w"

text \<open>
  The conversion of a timeout, with \<^verbatim>\<open>time_t\<close> and \<^verbatim>\<open>suseconds_t\<close> of 64 bits: products and
  differences are taken in that width.
\<close>

definition i64 :: "int \<Rightarrow> int" where
  "i64 x = sint (word_of_int x :: 64 word)"

definition to_timeval :: "32 word \<Rightarrow> timeval" where
  "to_timeval ms =
     (let sec = uint ms div 1000
      in \<lparr>tv_sec = sec, tv_usec = i64 (i64 (uint ms * 1000) - i64 (sec * 1000000))\<rparr>)"

definition setTimeout :: "'w os \<Rightarrow> fd \<Rightarrow> 32 word \<Rightarrow> 32 word \<Rightarrow> 'w \<Rightarrow> 'w" where
  "setTimeout os s read_timeout_ms write_timeout_ms w =
     os_setsockopt os s (SO_SNDTIMEO (to_timeval write_timeout_ms))
       (os_setsockopt os s (SO_RCVTIMEO (to_timeval read_timeout_ms)) w)"

subsection \<open>Peer addresses as text\<close>

definition ntohs :: "16 word \<Rightarrow> 16 word" where
  "ntohs p = (push_bit 8 p) OR (drop_bit 8 p)"

definition octet :: "32 word \<Rightarrow> nat \<Rightarrow> nat" where
  "octet a k = unat (drop_bit (8 * k) a AND 0xFF)"

definition inet_ntop :: "32 word \<Rightarrow> string" where
  "inet_ntop a = show_nat (octet a 0) @ ''.'' @ show_nat (octet a 1) @ ''.''
     @ show_nat (octet a 2) @ ''.'' @ show_nat (octet a 3)"

subsection \<open>Lemmas and properties\<close>

lemma i64_small: "- (2 ^ 63) \<le> x \<Longrightarrow> x < 2 ^ 63 \<Longrightarrow> i64 x = x"
  by (simp add: i64_def sint_sbintrunc' signed_take_bit_int_eq_self)

lemma octet_less: "octet a k < 256"
proof -
  have "drop_bit (8 * k) a AND 0xFF = take_bit 8 (drop_bit (8 * k) a)"
    by (simp add: take_bit_eq_mask mask_eq_exp_minus_1)
  then have "octet a k = take_bit 8 (unat (drop_bit (8 * k) a))"
    by (simp add: octet_def unsigned_take_bit_eq)
  then show ?thesis by (simp add: take_bit_eq_mod)
qed

lemma inet_ntop_length: "length (inet_ntop a) \<le> 15"
proof -
  have "length (show_nat (octet a k)) \<le> 3" for k
    by (rule length_show_nat) (use octet_less [of a k] in auto)
  from this [of 0] this [of 1] this [of 2] this [of 3] show ?thesis
    by (simp add: inet_ntop_def)
qed

lemma inet_ntop_no_NUL: "NUL \<notin> set (inet_ntop a)"
  using show_nat_no_NUL by (auto simp: inet_ntop_def NUL_def)

text \<open>
  A timeout is handed to the kernel exactly: seconds and microseconds add up to the
  milliseconds asked for, and the microseconds are a proper fraction of a second, for every
  32-bit value.
\<close>

theorem to_timeval_exact:
  "tv_sec (to_timeval ms) * 1000000 + tv_usec (to_timeval ms) = uint ms * 1000
   \<and> 0 \<le> tv_usec (to_timeval ms) \<and> tv_usec (to_timeval ms) < 1000000
   \<and> 0 \<le> tv_sec (to_timeval ms)"
proof -
  obtain m where m: "uint ms = m" and lo: "0 \<le> m" and hi: "m < 4294967296"
    using uint_lt2p [of ms] by simp
  have sec: "0 \<le> m div 1000" "m div 1000 \<le> m" using lo by arith+
  have "i64 (m * 1000) = m * 1000" by (rule i64_small) (use lo hi in simp_all)
  moreover have "i64 (m div 1000 * 1000000) = m div 1000 * 1000000"
    by (rule i64_small) (use sec hi in simp_all)
  moreover have diff: "m * 1000 - m div 1000 * 1000000 = m mod 1000 * 1000"
    by (simp add: minus_div_mult_eq_mod [symmetric] algebra_simps)
  moreover have "0 \<le> m mod 1000" "m mod 1000 < 1000" by simp_all
  then have "i64 (m mod 1000 * 1000) = m mod 1000 * 1000"
    by (intro i64_small) simp_all
  ultimately have eq: "to_timeval ms = \<lparr>tv_sec = m div 1000, tv_usec = m mod 1000 * 1000\<rparr>"
    by (simp add: to_timeval_def m Let_def)
  show ?thesis
    using diff sec \<open>0 \<le> m mod 1000\<close> \<open>m mod 1000 < 1000\<close> by (simp add: eq m)
qed

text \<open>
  Over a kernel that keeps each descriptor's flags, returning a socket to blocking mode
  after the non-blocking section of a connect clears exactly the non-blocking flag: every
  other flag is as before, and so is the whole set when the socket was blocking.
\<close>

theorem blocking_mode_restored:
  assumes keeps: "\<And>s f w. os_getfl os s (os_setfl os s f w) = f"
  shows "os_getfl os s (setBlockingMode os s (setNonBlockingMode os s w))
      = os_getfl os s w AND NOT O_NONBLOCK"
    (is "?f = _")
proof -
  have "?f = (os_getfl os s w OR O_NONBLOCK) AND NOT O_NONBLOCK"
    by (simp add: setBlockingMode_def setNonBlockingMode_def keeps Let_def)
  also have "\<dots> = os_getfl os s w AND NOT O_NONBLOCK"
    by (rule bit_eqI) (auto simp: bit_simps)
  finally show ?thesis .
qed

theorem blocking_mode_restored_witness:
  "let os = null_os\<lparr>os_getfl := (\<lambda>s w. w), os_setfl := (\<lambda>s f w. f)\<rparr>
   in os_getfl os 3 (setBlockingMode os 3 (setNonBlockingMode os 3 0x8002)) = 0x8002"
  using blocking_mode_restored [of "null_os\<lparr>os_getfl := (\<lambda>s w. w), os_setfl := (\<lambda>s f w. f)\<rparr>" 3 "0x8002"]
  by (simp add: O_NONBLOCK_def)

end
