(* ===== verification/Address.thy ===== *)
theory Address
  imports OS_Interface
begin

text \<open>
  \<^verbatim>\<open>SocketAddress\<close>: the socket address built from a configuration, a path for a unix-domain
  socket and the resolver's first answer otherwise.
\<close>

record SocketAddress =
  sa_result :: SocketResult
  sa_size :: nat
  sa_bytes :: "byte list"
  sa_unix :: bool

definition byte_of_char :: "char \<Rightarrow> byte" where
  "byte_of_char c = of_nat (of_char c)"

text \<open>The 110 bytes of a \<^verbatim>\<open>sockaddr_un\<close>: the family \<^verbatim>\<open>AF_UNIX\<close>, then the 108-byte path.\<close>

definition sockaddr_un :: "string \<Rightarrow> byte list" where
  "sockaddr_un path = [1, 0] @ map byte_of_char (snprintf_s (zero_array 108) 108 path)"

definition SocketAddress_new ::
  "'w os \<Rightarrow> string \<Rightarrow> string \<Rightarrow> bool \<Rightarrow> bool \<Rightarrow> 'w \<Rightarrow> (SocketAddress \<times> 'w) result" where
  "SocketAddress_new os ip port is_server is_unix_domain w =
     (if is_unix_domain then
        bindR (write_mem (replicate 512 0) 0 (sockaddr_un ip)) (\<lambda>bytes.
          Inr (\<lparr>sa_result = mkCode SUCCESS, sa_size = 110, sa_bytes = bytes, sa_unix = True\<rparr>, w))
      else
        (let input_ip = (if is_server then None else Some ip);
             (ret, w) = os_getaddrinfo os input_ip port is_server w
         in case ret of
              Inl e \<Rightarrow>
                Inr (\<lparr>sa_result =
                        (case e of EAI_OTHER _ \<Rightarrow> mkCode SUCCESS
                         | _ \<Rightarrow> mkCode ADDRESS_NOT_AVAILABLE),
                      sa_size = 0, sa_bytes = replicate 512 0, sa_unix = False\<rparr>, w)
            | Inr addr \<Rightarrow>
                bindR (write_mem (replicate 512 0) 0 addr) (\<lambda>bytes.
                  Inr (\<lparr>sa_result = mkCode SUCCESS, sa_size = length addr, sa_bytes = bytes,
                        sa_unix = False\<rparr>, w))))"

text \<open>What \<open>address()\<close> and \<open>size()\<close> hand to the kernel.\<close>

definition sa_view :: "SocketAddress \<Rightarrow> byte list" where
  "sa_view a = take (sa_size a) (sa_bytes a)"

subsection \<open>Properties\<close>

lemma write_zero_bytes:
  "length xs \<le> n \<Longrightarrow>
   write_mem (replicate n (0 :: byte)) 0 xs = Inr (xs @ replicate (n - length xs) 0)"
  using write_mem_append [of 0 "[]" xs "replicate n 0"] by simp

lemma length_sockaddr_un: "length (sockaddr_un path) = 110"
  by (simp add: sockaddr_un_def length_snprintf_s zero_array_def)

text \<open>
  A unix-domain address always fits and never reports an error: the kernel is given the
  first 107 characters of the path and a terminator, so a longer path is cut short silently.
\<close>

theorem unix_address:
  "\<exists>a. SocketAddress_new os path port is_server True w = Inr (a, w)
     \<and> sa_result a = mkCode SUCCESS
     \<and> take (3 + min 107 (length path)) (sa_view a) =
         [1, 0] @ map byte_of_char (take 107 path @ [NUL])"
proof -
  have "length (sockaddr_un path) \<le> 512" by (simp add: length_sockaddr_un)
  moreover have "take (3 + min 107 (length path)) (sockaddr_un path) =
      [1, 0] @ map byte_of_char (take 107 path @ [NUL])"
    (is "_ = ?xs")
  proof -
    have "sockaddr_un path = ?xs @ map byte_of_char (drop (length (take 107 path @ [NUL])) (zero_array 108))"
      by (simp add: sockaddr_un_def snprintf_s_def Let_def)
    then show ?thesis by (simp only:) (rule take_length_append, simp)
  qed
  ultimately show ?thesis
    by (simp add: SocketAddress_new_def write_zero_bytes sa_view_def length_sockaddr_un)
qed

text \<open>
  For an internet address the object tells success exactly when the resolver succeeded
  or failed with one of the errors the code does not list; in that last case it claims
  success with an empty address.
\<close>

theorem inet_address_result:
  assumes "os_getaddrinfo os (if is_server then None else Some ip) port is_server w = (ret, w')"
    and "\<And>addr. ret = Inr addr \<Longrightarrow> length addr \<le> 512"
  shows "\<exists>a. SocketAddress_new os ip port is_server False w = Inr (a, w')
     \<and> (sr_code (sa_result a) = SUCCESS \<longleftrightarrow>
          ret \<notin> Inl ` {EAI_AGAIN, EAI_FAIL, EAI_MEMORY, EAI_NONAME, EAI_SERVICE})
     \<and> sa_view a = (case ret of Inl _ \<Rightarrow> [] | Inr addr \<Rightarrow> addr)"
proof (cases ret)
  case (Inl e)
  with assms(1) show ?thesis
    by (cases e) (simp_all add: SocketAddress_new_def sa_view_def Let_def)
next
  case (Inr addr)
  with assms show ?thesis
    by (auto simp: SocketAddress_new_def sa_view_def Let_def write_zero_bytes)
qed

theorem inet_address_result_witness:
  "\<exists>a. SocketAddress_new (null_os\<lparr>os_getaddrinfo := (\<lambda>ip port server w. (Inl (EAI_OTHER 6), w))\<rparr>)
         ''no-such-family'' ''80'' False False () = Inr (a, ())
     \<and> sr_code (sa_result a) = SUCCESS \<and> sa_view a = []"
  using inet_address_result
    [of "null_os\<lparr>os_getaddrinfo := (\<lambda>ip port server w. (Inl (EAI_OTHER 6), w))\<rparr>"
       False "''no-such-family''" "''80''" "()" "Inl (EAI_OTHER 6)" "()"]
  by auto

end
