(* ===== verification/Configuration.thy ===== *)
theory Configuration
  imports C_Strings
begin

unbundle bit_operations_syntax

text \<open>
  The configuration classes of \<^verbatim>\<open>SecuritySocket.hpp\<close> and the cipher-suite strings of
  \<^verbatim>\<open>SecuritySocket.cpp\<close>: the connection parameters with their fixed arrays, the TLS
  settings as bitmaps, and the colon-separated suite lists built from them.
\<close>

subsection \<open>Connection parameters\<close>

definition MAX_PDU_SIZE :: size_t where
  "MAX_PDU_SIZE = 65536"

record SocketConfiguration =
  cfg_ip :: "char list"
  cfg_port :: "char list"
  cfg_pdu_size :: size_t
  cfg_max_retries :: "32 word"
  cfg_read_timeout :: "32 word"
  cfg_write_timeout :: "32 word"
  cfg_time_between_retries :: "32 word"
  cfg_is_unix_domain :: bool

text \<open>
  The address is copied with \<^verbatim>\<open>memcpy\<close> of its length into a zeroed array of 128 characters;
  the port is an unsigned 32-bit number printed with \<^verbatim>\<open>"%d"\<close>.
\<close>

definition SocketConfiguration_new ::
  "string \<Rightarrow> 32 word \<Rightarrow> bool \<Rightarrow> 32 word \<Rightarrow> 32 word \<Rightarrow> 32 word \<Rightarrow> 32 word \<Rightarrow> size_t
   \<Rightarrow> SocketConfiguration result" where
  "SocketConfiguration_new ip port is_unix_domain max_retries read_timeout write_timeout
      time_between_retries pdu_size =
     bindR (write_mem (zero_array 128) 0 ip) (\<lambda>ip_array.
       Inr \<lparr>cfg_ip = ip_array,
            cfg_port = snprintf_s (zero_array 16) 16 (show_int (sint port)),
            cfg_pdu_size = pdu_size,
            cfg_max_retries = max_retries,
            cfg_read_timeout = read_timeout,
            cfg_write_timeout = write_timeout,
            cfg_time_between_retries = time_between_retries,
            cfg_is_unix_domain = is_unix_domain\<rparr>)"

text \<open>The constructor's default arguments.\<close>

definition SocketConfiguration_default :: "string \<Rightarrow> 32 word \<Rightarrow> SocketConfiguration result" where
  "SocketConfiguration_default ip port =
     SocketConfiguration_new ip port False 3 2000 2000 100 MAX_PDU_SIZE"

subsection \<open>TLS settings\<close>

datatype SocketTLSVersion = TLS1_2 | TLS1_3

fun version_bit :: "SocketTLSVersion \<Rightarrow> 32 word" where
  "version_bit TLS1_2 = push_bit 0 1"
| "version_bit TLS1_3 = push_bit 1 1"

datatype SocketTLS1_2CipherSuite =
    ECDHE_ECDSA_AES256_GCM_SHA384
  | ECDHE_RSA_AES256_GCM_SHA384
  | ECDHE_ECDSA_CHACHA20_POLY1305
  | ECDHE_RSA_CHACHA20_POLY1305

fun suite12_bit :: "SocketTLS1_2CipherSuite \<Rightarrow> 32 word" where
  "suite12_bit ECDHE_ECDSA_AES256_GCM_SHA384 = push_bit 0 1"
| "suite12_bit ECDHE_RSA_AES256_GCM_SHA384 = push_bit 1 1"
| "suite12_bit ECDHE_ECDSA_CHACHA20_POLY1305 = push_bit 2 1"
| "suite12_bit ECDHE_RSA_CHACHA20_POLY1305 = push_bit 3 1"

datatype SocketTLS1_3CipherSuite =
    TLS_AES_128_GCM_SHA256
  | TLS_AES_256_GCM_SHA384
  | TLS_CHACHA20_POLY1305_SHA256
  | TLS_AES_128_CCM_SHA256
  | TLS_AES_128_CCM8_SHA256

fun suite13_bit :: "SocketTLS1_3CipherSuite \<Rightarrow> 32 word" where
  "suite13_bit TLS_AES_128_GCM_SHA256 = push_bit 0 1"
| "suite13_bit TLS_AES_256_GCM_SHA384 = push_bit 1 1"
| "suite13_bit TLS_CHACHA20_POLY1305_SHA256 = push_bit 2 1"
| "suite13_bit TLS_AES_128_CCM_SHA256 = push_bit 3 1"
| "suite13_bit TLS_AES_128_CCM8_SHA256 = push_bit 4 1"

datatype SocketTLSClientAuthenticationMode =
    AUTH_MODE_NONE | AUTH_MODE_OPTIONAL | AUTH_MODE_REQUIRED

definition or_bits :: "('a \<Rightarrow> 32 word) \<Rightarrow> 'a list \<Rightarrow> 32 word" where
  "or_bits bit_of xs = foldl (\<lambda>acc x. acc OR bit_of x) 0 xs"

definition path_array :: "string option \<Rightarrow> char list" where
  "path_array p = (case p of None \<Rightarrow> zero_array 256
                   | Some s \<Rightarrow> snprintf_s (zero_array 256) 256 s)"

record SocketTLSClientConfiguration =
  tc_versions :: "32 word"
  tc_suites12 :: "32 word"
  tc_suites13 :: "32 word"
  tc_verify_server :: bool
  tc_verify_hostname :: bool
  tc_use_client_certificate :: bool
  tc_trust_store_path :: "char list"
  tc_cert_file_path :: "char list"
  tc_key_file_path :: "char list"
  tc_key_password :: "char list"
  tc_on_tls_event :: "nat option"

definition SocketTLSClientConfiguration_new ::
  "SocketTLSVersion list \<Rightarrow> SocketTLS1_2CipherSuite list \<Rightarrow> SocketTLS1_3CipherSuite list
   \<Rightarrow> bool \<Rightarrow> bool \<Rightarrow> string option \<Rightarrow> bool \<Rightarrow> string option \<Rightarrow> string option \<Rightarrow> string option
   \<Rightarrow> SocketTLSClientConfiguration" where
  "SocketTLSClientConfiguration_new support_versions suites12 suites13 verify_server
      verify_hostname trust_store use_client_certificate cert key password =
     \<lparr>tc_versions = or_bits version_bit support_versions,
      tc_suites12 = or_bits suite12_bit suites12,
      tc_suites13 = or_bits suite13_bit suites13,
      tc_verify_server = verify_server,
      tc_verify_hostname = verify_hostname,
      tc_use_client_certificate = use_client_certificate,
      tc_trust_store_path = path_array trust_store,
      tc_cert_file_path = path_array cert,
      tc_key_file_path = path_array key,
      tc_key_password = path_array password,
      tc_on_tls_event = None\<rparr>"

definition setOnTLSEvent ::
  "SocketTLSClientConfiguration \<Rightarrow> nat option \<Rightarrow> SocketTLSClientConfiguration" where
  "setOnTLSEvent c cb = c\<lparr>tc_on_tls_event := cb\<rparr>"

definition tc_valid :: "SocketTLSClientConfiguration \<Rightarrow> bool" where
  "tc_valid c \<longleftrightarrow> tc_versions c \<noteq> 0"

definition isVersionSupported :: "SocketTLSClientConfiguration \<Rightarrow> SocketTLSVersion \<Rightarrow> bool" where
  "isVersionSupported c v \<longleftrightarrow> tc_versions c AND version_bit v \<noteq> 0"

record SocketTLSServerConfiguration =
  ts_versions :: "32 word"
  ts_suites12 :: "32 word"
  ts_suites13 :: "32 word"
  ts_client_auth :: SocketTLSClientAuthenticationMode
  ts_client_trust_store_path :: "char list"
  ts_cert_file_path :: "char list"
  ts_key_file_path :: "char list"
  ts_key_password :: "char list"
  ts_on_tls_event :: "nat option"

definition SocketTLSServerConfiguration_new ::
  "SocketTLSVersion list \<Rightarrow> SocketTLS1_2CipherSuite list \<Rightarrow> SocketTLS1_3CipherSuite list
   \<Rightarrow> string option \<Rightarrow> string option \<Rightarrow> string option
   \<Rightarrow> SocketTLSClientAuthenticationMode \<Rightarrow> string option \<Rightarrow> SocketTLSServerConfiguration" where
  "SocketTLSServerConfiguration_new support_versions suites12 suites13 cert key password
      auth_mode trust_store =
     \<lparr>ts_versions = or_bits version_bit support_versions,
      ts_suites12 = or_bits suite12_bit suites12,
      ts_suites13 = or_bits suite13_bit suites13,
      ts_client_auth = auth_mode,
      ts_client_trust_store_path = path_array trust_store,
      ts_cert_file_path = path_array cert,
      ts_key_file_path = path_array key,
      ts_key_password = path_array password,
      ts_on_tls_event = None\<rparr>"

definition ts_valid :: "SocketTLSServerConfiguration \<Rightarrow> bool" where
  "ts_valid c \<longleftrightarrow> ts_versions c \<noteq> 0"

definition ts_isVersionSupported ::
  "SocketTLSServerConfiguration \<Rightarrow> SocketTLSVersion \<Rightarrow> bool" where
  "ts_isVersionSupported c v \<longleftrightarrow> ts_versions c AND version_bit v \<noteq> 0"

subsection \<open>Cipher-suite strings\<close>

definition appendCipherString ::
  "string \<Rightarrow> size_t \<Rightarrow> char list \<Rightarrow> (size_t \<times> char list) result" where
  "appendCipherString cipher_str offset dest =
     bindR (if offset \<noteq> 0
            then bindR (write_mem dest offset '':'') (\<lambda>d. Inr (offset + 1, d))
            else Inr (offset, dest))
       (\<lambda>(off, d).
          let len = of_nat (length cipher_str) in
          bindR (write_mem d off cipher_str) (\<lambda>d.
            let off = off + len in
            bindR (write_mem d off [NUL]) (\<lambda>d. Inr (off, d))))"

text \<open>
  The two generators are the same sequence of tests, one per suite in this order; the
  tables hold the bit and the string of each test.
\<close>

definition suites12 :: "(32 word \<times> string) list" where
  "suites12 =
    [(suite12_bit ECDHE_ECDSA_AES256_GCM_SHA384, ''ECDHE-ECDSA-AES256-GCM-SHA384''),
     (suite12_bit ECDHE_RSA_AES256_GCM_SHA384, ''ECDHE-RSA-AES256-GCM-SHA384''),
     (suite12_bit ECDHE_ECDSA_CHACHA20_POLY1305, ''ECDHE-ECDSA-CHACHA20-POLY1305''),
     (suite12_bit ECDHE_RSA_CHACHA20_POLY1305, ''ECDHE-RSA-CHACHA20-POLY1305'')]"

definition suites13 :: "(32 word \<times> string) list" where
  "suites13 =
    [(suite13_bit TLS_AES_128_GCM_SHA256, ''TLS_AES_128_GCM_SHA256''),
     (suite13_bit TLS_AES_256_GCM_SHA384, ''TLS_AES_256_GCM_SHA384''),
     (suite13_bit TLS_CHACHA20_POLY1305_SHA256, ''TLS_CHACHA20_POLY1305_SHA256''),
     (suite13_bit TLS_AES_128_CCM_SHA256, ''TLS_AES_128_CCM_SHA256''),
     (suite13_bit TLS_AES_128_CCM8_SHA256, ''TLS_AES_128_CCM_8_SHA256'')]"

fun append_suites ::
  "(32 word \<times> string) list \<Rightarrow> 32 word \<Rightarrow> size_t \<Rightarrow> char list \<Rightarrow> char list result" where
  "append_suites [] bitmap offset ret = Inr ret"
| "append_suites ((b, name) # table) bitmap offset ret =
     (if bitmap AND b \<noteq> 0
      then bindR (appendCipherString name offset ret)
             (\<lambda>(off, d). append_suites table bitmap off d)
      else append_suites table bitmap offset ret)"

definition generateSuites ::
  "(32 word \<times> string) list \<Rightarrow> 32 word \<Rightarrow> char list \<Rightarrow> char list result" where
  "generateSuites table suites_bitmap ret =
     bindR (write_mem ret 0 [NUL]) (\<lambda>ret.
       if suites_bitmap = 0 then Inr ret else append_suites table suites_bitmap 0 ret)"

definition generateTLS12CipherSuites :: "32 word \<Rightarrow> char list \<Rightarrow> char list result" where
  "generateTLS12CipherSuites = generateSuites suites12"

definition generateTLS13CipherSuites :: "32 word \<Rightarrow> char list \<Rightarrow> char list result" where
  "generateTLS13CipherSuites = generateSuites suites13"

text \<open>The specification: the selected names, joined with colons; and the way back.\<close>

definition selected :: "(32 word \<times> string) list \<Rightarrow> 32 word \<Rightarrow> string list" where
  "selected table bitmap = map snd (filter (\<lambda>(b, name). bitmap AND b \<noteq> 0) table)"

fun join_colon :: "string list \<Rightarrow> string" where
  "join_colon [] = []"
| "join_colon [s] = s"
| "join_colon (s # ss) = s @ CHR '':'' # join_colon ss"

fun split_colon :: "string \<Rightarrow> string list" where
  "split_colon [] = [[]]"
| "split_colon (c # cs) =
     (if c = CHR '':'' then [] # split_colon cs
      else case split_colon cs of [] \<Rightarrow> [[c]] | s # ss \<Rightarrow> (c # s) # ss)"

subsection \<open>Bitmaps\<close>

lemma and_or_bits_from:
  "foldl (\<lambda>acc x. acc OR f x) a xs AND m \<noteq> (0 :: 32 word) \<longleftrightarrow>
   a AND m \<noteq> 0 \<or> (\<exists>x\<in>set xs. f x AND m \<noteq> 0)"
  by (induction xs arbitrary: a) (auto simp: bit.conj_disj_distrib2 or_eq_0_iff)

lemma and_or_bits: "or_bits f xs AND m \<noteq> 0 \<longleftrightarrow> (\<exists>x\<in>set xs. f x AND m \<noteq> 0)"
  by (simp add: or_bits_def and_or_bits_from)

text \<open>The enumerators are pairwise disjoint bits.\<close>

lemma version_bit_disjoint: "version_bit u AND version_bit v \<noteq> 0 \<longleftrightarrow> u = v"
  by (cases u; cases v) simp_all

lemma suite12_bit_disjoint: "suite12_bit u AND suite12_bit v \<noteq> 0 \<longleftrightarrow> u = v"
  by (cases u; cases v) simp_all

lemma suite13_bit_disjoint: "suite13_bit u AND suite13_bit v \<noteq> 0 \<longleftrightarrow> u = v"
  by (cases u; cases v) simp_all

lemma version_bit_member: "or_bits version_bit vs AND version_bit v \<noteq> 0 \<longleftrightarrow> v \<in> set vs"
  by (simp add: and_or_bits version_bit_disjoint)

lemma suite12_bit_member: "or_bits suite12_bit xs AND suite12_bit x \<noteq> 0 \<longleftrightarrow> x \<in> set xs"
  by (simp add: and_or_bits suite12_bit_disjoint)

lemma suite13_bit_member: "or_bits suite13_bit xs AND suite13_bit x \<noteq> 0 \<longleftrightarrow> x \<in> set xs"
  by (simp add: and_or_bits suite13_bit_disjoint)

lemma or_bits_zero_iff: "or_bits version_bit vs = 0 \<longleftrightarrow> vs = []"
proof
  assume "or_bits version_bit vs = 0"
  then have "v \<notin> set vs" for v using version_bit_member [of vs v] by simp
  then show "vs = []" by (cases vs) auto
qed (simp add: or_bits_def)

subsection \<open>Suite strings\<close>

text \<open>
  Appending keeps the buffer of the form \<open>s @ NUL # rest\<close> with the offset at the
  terminator; \<open>append_name\<close> is the effect on \<open>s\<close>.
\<close>

definition append_name :: "string \<Rightarrow> string \<Rightarrow> string" where
  "append_name s n = (if s = [] then n else s @ CHR '':'' # n)"

lemma appendCipherString_spec:
  assumes "unat off = length s" and "length s + length n + 2 \<le> length (s @ NUL # rest)"
    and "length (s @ NUL # rest) < 2 ^ 32"
  shows "\<exists>off' rest'. appendCipherString n off (s @ NUL # rest) =
           Inr (off', append_name s n @ NUL # rest')
         \<and> unat off' = length (append_name s n)
         \<and> length (append_name s n @ NUL # rest') = length (s @ NUL # rest)"
proof (cases "s = []")
  case True
  with assms(1) have "off = 0" by (simp add: unat_eq_zero)
  have len: "unat (of_nat (length n) :: size_t) = length n"
    using assms by (intro unat_of_nat_size) simp
  have 1: "write_mem (NUL # rest) 0 n = Inr (n @ drop (length n) (NUL # rest))"
    using write_mem_append [of 0 "[]" n "NUL # rest"] assms True by simp
  have "write_mem (n @ drop (length n) (NUL # rest)) (of_nat (length n)) [NUL]
      = Inr (n @ [NUL] @ drop 1 (drop (length n) (NUL # rest)))"
    using write_mem_append [of "of_nat (length n)" n "[NUL]" "drop (length n) (NUL # rest)"]
      assms True len by simp
  with 1 True \<open>off = 0\<close> len assms show ?thesis
    by (auto simp: appendCipherString_def append_name_def Let_def)
next
  case False
  with assms(1) have "off \<noteq> 0" by auto
  have one: "unat (off + 1) = length s + 1"
    using assms unat_add_size [of off 1] by simp
  have len: "unat (of_nat (length n) :: size_t) = length n"
    using assms by (intro unat_of_nat_size) simp
  have two: "unat (off + 1 + of_nat (length n)) = length s + 1 + length n"
    using assms one len unat_add_size [of "off + 1" "of_nat (length n)"] by simp
  let ?s1 = "s @ '':''" and ?s2 = "s @ '':'' @ n"
  have 1: "write_mem (s @ NUL # rest) off '':'' = Inr (?s1 @ rest)"
    using write_mem_append [of off s "'':''" "NUL # rest"] assms by simp
  have 2: "write_mem (?s1 @ rest) (off + 1) n = Inr (?s1 @ n @ drop (length n) rest)"
    by (rule write_mem_append) (use assms one in auto)
  have 3: "write_mem (?s2 @ drop (length n) rest) (off + 1 + of_nat (length n)) [NUL]
      = Inr (?s2 @ [NUL] @ drop 1 (drop (length n) rest))"
    using write_mem_append [of "off + 1 + of_nat (length n)" ?s2 "[NUL]" "drop (length n) rest"]
      assms two by simp
  from 1 2 3 False \<open>off \<noteq> 0\<close> two assms show ?thesis
    by (auto simp: appendCipherString_def append_name_def Let_def)
qed

lemma append_suites_spec:
  assumes "unat off = length s"
    and "length s + (\<Sum>(b, n)\<leftarrow>table. length n + 1) < length (s @ NUL # rest)"
    and "length (s @ NUL # rest) < 2 ^ 32"
  shows "\<exists>rest'. append_suites table bm off (s @ NUL # rest) =
           Inr (foldl append_name s (selected table bm) @ NUL # rest')"
  using assms
proof (induction table arbitrary: off s rest)
  case Nil
  then show ?case by (simp add: selected_def)
next
  case (Cons e table)
  obtain b n where e: "e = (b, n)" by (cases e)
  show ?case
  proof (cases "bm AND b \<noteq> 0")
    case False
    with Cons.IH [OF Cons.prems(1) _ Cons.prems(3)] Cons.prems(2) e show ?thesis
      by (simp add: selected_def)
  next
    case True
    have "length s + length n + 2 \<le> length (s @ NUL # rest)" using Cons.prems(2) e by simp
    then obtain off' rest' where
      step: "appendCipherString n off (s @ NUL # rest) = Inr (off', append_name s n @ NUL # rest')"
      and off': "unat off' = length (append_name s n)"
      and len: "length (append_name s n @ NUL # rest') = length (s @ NUL # rest)"
      using appendCipherString_spec Cons.prems(1,3) by blast
    have "length (append_name s n) + (\<Sum>(b, n)\<leftarrow>table. length n + 1)
        < length (append_name s n @ NUL # rest')"
      using Cons.prems(2) e len by (auto simp: append_name_def split: if_splits)
    from Cons.IH [OF off' this] len Cons.prems(3) step e True show ?thesis
      by (simp add: selected_def)
  qed
qed

lemma foldl_append_name:
  "s \<noteq> [] \<Longrightarrow> (\<forall>n\<in>set ns. n \<noteq> []) \<Longrightarrow> foldl append_name s ns = join_colon (s # ns)"
proof (induction ns arbitrary: s)
  case (Cons n ns)
  then have "foldl append_name s (n # ns) = join_colon ((s @ CHR '':'' # n) # ns)"
    using Cons.IH [of "s @ CHR '':'' # n"] by (simp add: append_name_def [of s n])
  also have "\<dots> = join_colon (s # n # ns)" by (cases ns) simp_all
  finally show ?case .
qed simp

lemma foldl_append_name_Nil:
  "(\<forall>n\<in>set ns. n \<noteq> []) \<Longrightarrow> foldl append_name [] ns = join_colon ns"
  by (cases ns) (simp_all add: foldl_append_name append_name_def [of "[]"])

lemma set_selected: "n \<in> set (selected table bm) \<Longrightarrow> n \<in> snd ` set table"
  by (auto simp: selected_def)

lemma selected_zero: "selected table 0 = []"
  by (simp add: selected_def)

lemma set_join_colon: "set (join_colon ns) \<subseteq> insert (CHR '':'') (\<Union>n\<in>set ns. set n)"
  by (induction ns rule: join_colon.induct) auto

lemma split_colon_no_colon: "CHR '':'' \<notin> set s \<Longrightarrow> split_colon s = [s]"
  by (induction s) auto

lemma split_colon_append:
  "CHR '':'' \<notin> set s \<Longrightarrow> split_colon (s @ CHR '':'' # t) = s # split_colon t"
  by (induction s) auto

lemma split_join_colon:
  "ns \<noteq> [] \<Longrightarrow> (\<forall>n\<in>set ns. CHR '':'' \<notin> set n) \<Longrightarrow> split_colon (join_colon ns) = ns"
  by (induction ns rule: join_colon.induct)
    (simp_all add: split_colon_no_colon split_colon_append)

text \<open>A table is fit for a buffer when its names are proper and together leave room.\<close>

definition table_fits :: "(32 word \<times> string) list \<Rightarrow> nat \<Rightarrow> bool" where
  "table_fits table k \<longleftrightarrow>
     list_all (\<lambda>(b, n). n \<noteq> [] \<and> CHR '':'' \<notin> set n \<and> NUL \<notin> set n) table
     \<and> (\<Sum>(b, n)\<leftarrow>table. length n + 1) < k"

lemma suites12_fits: "table_fits suites12 512"
  by (simp add: table_fits_def suites12_def NUL_def)

lemma suites13_fits: "table_fits suites13 512"
  by (simp add: table_fits_def suites13_def NUL_def)

lemma generateSuites_spec:
  assumes fits: "table_fits table (length ret)" and "length ret < 2 ^ 32"
  shows "\<exists>buf. generateSuites table bm ret = Inr buf
           \<and> c_str buf = Inr (join_colon (selected table bm))"
proof -
  from fits have "ret \<noteq> []" by (auto simp: table_fits_def)
  then obtain c rest where ret: "ret = c # rest" by (cases ret) auto
  have "write_mem ret 0 [NUL] = Inr (NUL # rest)"
    using write_mem_append [of 0 "[]" "[NUL]" ret] ret by simp
  then have gen: "generateSuites table bm ret =
      (if bm = 0 then Inr (NUL # rest) else append_suites table bm 0 (NUL # rest))"
    by (simp add: generateSuites_def)
  have names: "\<forall>n\<in>set (selected table bm). n \<noteq> [] \<and> NUL \<notin> set n"
    using fits by (fastforce simp: table_fits_def list_all_iff dest: set_selected)
  then have nonul: "NUL \<notin> set (join_colon (selected table bm))"
    using set_join_colon [of "selected table bm"] by (auto simp: NUL_def)
  obtain rest' where "append_suites table bm 0 (NUL # rest) =
      Inr (join_colon (selected table bm) @ NUL # rest')"
    using append_suites_spec [of 0 "[]" table rest bm] fits assms(2) ret names
    by (auto simp: table_fits_def foldl_append_name_Nil)
  with gen nonul show ?thesis
    using c_str_terminated [of "[]" rest] by (auto simp: selected_zero c_str_terminated)
qed

subsection \<open>Properties\<close>

text \<open>The OpenSSL names of the suites, in the order the generators emit them.\<close>

definition order12 :: "(SocketTLS1_2CipherSuite \<times> string) list" where
  "order12 =
    [(ECDHE_ECDSA_AES256_GCM_SHA384, ''ECDHE-ECDSA-AES256-GCM-SHA384''),
     (ECDHE_RSA_AES256_GCM_SHA384, ''ECDHE-RSA-AES256-GCM-SHA384''),
     (ECDHE_ECDSA_CHACHA20_POLY1305, ''ECDHE-ECDSA-CHACHA20-POLY1305''),
     (ECDHE_RSA_CHACHA20_POLY1305, ''ECDHE-RSA-CHACHA20-POLY1305'')]"

definition order13 :: "(SocketTLS1_3CipherSuite \<times> string) list" where
  "order13 =
    [(TLS_AES_128_GCM_SHA256, ''TLS_AES_128_GCM_SHA256''),
     (TLS_AES_256_GCM_SHA384, ''TLS_AES_256_GCM_SHA384''),
     (TLS_CHACHA20_POLY1305_SHA256, ''TLS_CHACHA20_POLY1305_SHA256''),
     (TLS_AES_128_CCM_SHA256, ''TLS_AES_128_CCM_SHA256''),
     (TLS_AES_128_CCM8_SHA256, ''TLS_AES_128_CCM_8_SHA256'')]"

lemma selected12: "selected suites12 (or_bits suite12_bit xs) =
    map snd (filter (\<lambda>(x, n). x \<in> set xs) order12)"
  by (simp add: selected_def suites12_def order12_def suite12_bit_member [of xs]
      del: suite12_bit.simps)

lemma selected13: "selected suites13 (or_bits suite13_bit xs) =
    map snd (filter (\<lambda>(x, n). x \<in> set xs) order13)"
  by (simp add: selected_def suites13_def order13_def suite13_bit_member [of xs]
      del: suite13_bit.simps)

lemma order12_complete: "xs \<noteq> [] \<Longrightarrow> filter (\<lambda>(x, n). x \<in> set xs) order12 \<noteq> []"
proof -
  assume "xs \<noteq> []"
  then obtain x where "x \<in> set xs" by (cases xs) auto
  moreover have "x \<in> fst ` set order12" by (cases x) (simp_all add: order12_def)
  ultimately show ?thesis by (force simp: filter_empty_conv)
qed

lemma order13_complete: "xs \<noteq> [] \<Longrightarrow> filter (\<lambda>(x, n). x \<in> set xs) order13 \<noteq> []"
proof -
  assume "xs \<noteq> []"
  then obtain x where "x \<in> set xs" by (cases xs) auto
  moreover have "x \<in> fst ` set order13" by (cases x) (simp_all add: order13_def)
  ultimately show ?thesis by (force simp: filter_empty_conv)
qed

lemma order_names_proper:
  "n \<in> snd ` set order12 \<Longrightarrow> CHR '':'' \<notin> set n"
  "m \<in> snd ` set order13 \<Longrightarrow> CHR '':'' \<notin> set m"
  by (auto simp: order12_def order13_def)

text \<open>
  The versions a TLS client configuration supports are exactly those of its
  constructor's list, whatever the order and repetitions, and it is valid (TLS is used)
  exactly when that list is not empty.
\<close>

theorem tls_versions_as_given:
  "(isVersionSupported (SocketTLSClientConfiguration_new vs s12 s13 vsrv vhost trust uc cert key pw) v
      \<longleftrightarrow> v \<in> set vs)
   \<and> (tc_valid (SocketTLSClientConfiguration_new vs s12 s13 vsrv vhost trust uc cert key pw)
      \<longleftrightarrow> vs \<noteq> [])"
  by (simp_all add: isVersionSupported_def tc_valid_def SocketTLSClientConfiguration_new_def
      version_bit_member or_bits_zero_iff)

text \<open>
  C26. The TLS 1.2 cipher string fits the 512-character buffers the callers pass, and
  splitting it at the colons gives back the names of exactly the configured suites, in the
  preference order of the code; with no suite configured it is empty.
\<close>

theorem cipher12_roundtrip:
  assumes "length ret = 512"
  shows "\<exists>buf s. generateTLS12CipherSuites (or_bits suite12_bit xs) ret = Inr buf
           \<and> c_str buf = Inr s
           \<and> (if xs = [] then s = []
              else split_colon s = map snd (filter (\<lambda>(x, n). x \<in> set xs) order12))"
proof -
  let ?names = "map snd (filter (\<lambda>(x, n). x \<in> set xs) order12)"
  obtain buf where "generateTLS12CipherSuites (or_bits suite12_bit xs) ret = Inr buf"
    and "c_str buf = Inr (join_colon ?names)"
    using generateSuites_spec [of suites12 ret "or_bits suite12_bit xs"] suites12_fits assms
    by (auto simp: generateTLS12CipherSuites_def selected12)
  moreover have "split_colon (join_colon ?names) = ?names" if "xs \<noteq> []"
    by (rule split_join_colon) (use order12_complete [OF that] order_names_proper in auto)
  ultimately show ?thesis by auto
qed

theorem cipher12_roundtrip_witness:
  "\<exists>buf s. generateTLS12CipherSuites
      (or_bits suite12_bit [ECDHE_RSA_AES256_GCM_SHA384]) (zero_array 512) = Inr buf
    \<and> c_str buf = Inr s \<and> split_colon s = [''ECDHE-RSA-AES256-GCM-SHA384'']"
  using cipher12_roundtrip [of "zero_array 512" "[ECDHE_RSA_AES256_GCM_SHA384]"]
  by (simp add: zero_array_def order12_def)

text \<open>
  The same for the TLS 1.3 cipher suites.
\<close>

theorem cipher13_roundtrip:
  assumes "length ret = 512"
  shows "\<exists>buf s. generateTLS13CipherSuites (or_bits suite13_bit xs) ret = Inr buf
           \<and> c_str buf = Inr s
           \<and> (if xs = [] then s = []
              else split_colon s = map snd (filter (\<lambda>(x, n). x \<in> set xs) order13))"
proof -
  let ?names = "map snd (filter (\<lambda>(x, n). x \<in> set xs) order13)"
  obtain buf where "generateTLS13CipherSuites (or_bits suite13_bit xs) ret = Inr buf"
    and "c_str buf = Inr (join_colon ?names)"
    using generateSuites_spec [of suites13 ret "or_bits suite13_bit xs"] suites13_fits assms
    by (auto simp: generateTLS13CipherSuites_def selected13)
  moreover have "split_colon (join_colon ?names) = ?names" if "xs \<noteq> []"
    by (rule split_join_colon) (use order13_complete [OF that] order_names_proper in auto)
  ultimately show ?thesis by auto
qed

theorem cipher13_roundtrip_witness:
  "\<exists>buf s. generateTLS13CipherSuites
      (or_bits suite13_bit [TLS_AES_128_CCM8_SHA256, TLS_AES_128_GCM_SHA256])
      (zero_array 512) = Inr buf
    \<and> c_str buf = Inr s
    \<and> split_colon s = [''TLS_AES_128_GCM_SHA256'', ''TLS_AES_128_CCM_8_SHA256'']"
  using cipher13_roundtrip
    [of "zero_array 512" "[TLS_AES_128_CCM8_SHA256, TLS_AES_128_GCM_SHA256]"]
  by (simp add: zero_array_def order13_def)

text \<open>The address of a configuration: what the constructor copies and \<open>ip()\<close> reads back.\<close>

lemma write_zero_array:
  "length s \<le> n \<Longrightarrow> write_mem (zero_array n) 0 s = Inr (s @ zero_array (n - length s))"
  using write_mem_append [of 0 "[]" s "zero_array n"] by (simp add: zero_array_def)

lemma c_str_padded:
  assumes "NUL \<notin> set s"
  shows "c_str (s @ zero_array k) = (if k = 0 then Inl OutOfBounds else Inr s)"
  using assms c_str_terminated [OF assms] by (cases k) (auto simp: c_str_def zero_array_def)

text \<open>
  A configuration holds its address intact exactly when the address is shorter than the
  128-character array: with 128 characters reading it back runs past the array, and with
  more the constructor itself writes past it.
\<close>

theorem configuration_address:
  assumes "NUL \<notin> set ip"
  shows "bindR (SocketConfiguration_new ip port ud mr rt wt tb pdu) (\<lambda>c. c_str (cfg_ip c)) =
           (if length ip < 128 then Inr ip else Inl OutOfBounds)"
proof (cases "length ip \<le> 128")
  case True
  then show ?thesis
    using c_str_padded [OF assms, of "128 - length ip"]
    by (auto simp: SocketConfiguration_new_def write_zero_array)
next
  case False
  then have "write_mem (zero_array 128) 0 ip = Inl OutOfBounds"
    by (simp add: write_mem_def zero_array_def)
  with False show ?thesis by (simp add: SocketConfiguration_new_def)
qed

theorem configuration_address_witness:
  "bindR (SocketConfiguration_default ''127.0.0.1'' 5000) (\<lambda>c. c_str (cfg_ip c)) = Inr ''127.0.0.1''"
  using configuration_address [of "''127.0.0.1''"]
  by (simp add: SocketConfiguration_default_def NUL_def)

text \<open>
  The port survives the trip through its decimal string (the service name later given
  to \<^verbatim>\<open>getaddrinfo\<close>) for every value below \<open>2 ^ 31\<close>, without truncation by the
  16-character array.
\<close>

theorem configuration_port:
  assumes "SocketConfiguration_new ip port ud mr rt wt tb pdu = Inr c" and "unat port < 2 ^ 31"
  shows "\<exists>s. c_str (cfg_port c) = Inr s \<and> length s \<le> 10 \<and> read_nat s = unat port"
proof -
  from assms(2) have "int (unat port) < int (2 ^ 31)" by (simp only: of_nat_less_iff)
  then have "uint port < 2 ^ 31" by simp
  moreover have "- (2 ^ 31) \<le> uint port" by (rule order.trans [OF _ uint_ge_0]) simp
  ultimately have "sint port = int (unat port)"
    using signed_take_bit_int_eq_self [of 31 "uint port"] by (simp add: sint_uint)
  then have show_port: "show_int (sint port) = show_nat (unat port)"
    by (simp add: show_int_def)
  have len: "length (show_nat (unat port)) \<le> 10"
    by (rule length_show_nat) (use assms(2) in auto)
  have "c_str (cfg_port c) = Inr (take 15 (show_nat (unat port)))"
    using assms(1) c_str_snprintf_s [OF show_nat_no_NUL, of "zero_array 16" 16 "unat port"]
    by (auto simp: SocketConfiguration_new_def bindR_Inr_iff show_port)
  with len show ?thesis by (simp add: read_show_nat)
qed

theorem configuration_port_witness:
  "\<exists>c s. SocketConfiguration_default ''127.0.0.1'' 5000 = Inr c
     \<and> c_str (cfg_port c) = Inr s \<and> read_nat s = 5000"
proof -
  have "length ''127.0.0.1'' \<le> 128" by simp
  then obtain c where c: "SocketConfiguration_default ''127.0.0.1'' 5000 = Inr c"
    by (simp only: SocketConfiguration_default_def SocketConfiguration_new_def
        write_zero_array bindR.simps)
  then show ?thesis
    using configuration_port [OF c [unfolded SocketConfiguration_default_def]] by auto
qed

end
