(* ===== verification/Active_Sockets.thy ===== *)
theory Active_Sockets
  imports Address Configuration
begin

unbundle bit_operations_syntax

text \<open>
  The socket classes: \<^verbatim>\<open>BaseSocket\<close>, \<^verbatim>\<open>PassiveSocket\<close>, \<^verbatim>\<open>ServerActiveSocket\<close>,
  \<^verbatim>\<open>ClientActiveSocket\<close> and \<^verbatim>\<open>TLSClientActiveSocket\<close>, with \<^verbatim>\<open>SocketContainer\<close>'s choice between
  a plain and a TLS object. A method that changes its object returns the new object; the
  server-side TLS classes throw from every method.
\<close>

subsection \<open>Base\<close>

record base_socket =
  bs_result :: SocketResult
  bs_fd :: fd

text \<open>A byte count passed as \<^verbatim>\<open>static_cast<int32_t>(size)\<close> where a \<^verbatim>\<open>size_t\<close> is expected.\<close>

definition as_len :: "size_t \<Rightarrow> size_t" where
  "as_len n = size_of (i32 (uint n))"

text \<open>The constructor body the plain client and the passive socket share up to the mode.\<close>

definition open_stream_socket :: "'w os \<Rightarrow> bool \<Rightarrow> 'w \<Rightarrow> base_socket \<times> 'w" where
  "open_stream_socket os is_unix_domain w =
     (let (temp_socket, w) = os_socket os is_unix_domain w;
          s = i32 temp_socket
      in if s < 0 then (\<lparr>bs_result = createResult (os_errno os w) s, bs_fd = s\<rparr>, w)
         else (\<lparr>bs_result = mkCode SUCCESS, bs_fd = s\<rparr>, w))"

subsection \<open>Passive socket\<close>

definition PassiveSocket_new :: "'w os \<Rightarrow> bool \<Rightarrow> 'w \<Rightarrow> base_socket \<times> 'w" where
  "PassiveSocket_new os is_unix_domain w =
     (let (s, w) = open_stream_socket os is_unix_domain w
      in if bs_fd s < 0 then (s, w) else (s, setNonBlockingMode os (bs_fd s) w))"

definition PassiveSocket_close :: "'w os \<Rightarrow> base_socket \<Rightarrow> 'w \<Rightarrow> base_socket \<times> 'w" where
  "PassiveSocket_close os s w =
     (let w = os_shutdown os (bs_fd s) w;
          w = os_close os (bs_fd s) w
      in (s\<lparr>bs_fd := - 1\<rparr>, w))"

definition PassiveSocket_bind ::
  "'w os \<Rightarrow> base_socket \<Rightarrow> SocketAddress \<Rightarrow> 'w \<Rightarrow> SocketResult \<times> 'w" where
  "PassiveSocket_bind os s address w =
     (let w = os_setsockopt os (bs_fd s) (SO_REUSEADDR 1) w;
          (ret, w) = os_bind os (bs_fd s) (sa_view address) w
      in if ret < 0 then (createResult (os_errno os w) ret, w) else (mkCode SUCCESS, w))"

definition PassiveSocket_listen :: "'w os \<Rightarrow> base_socket \<Rightarrow> 'w \<Rightarrow> SocketResult \<times> 'w" where
  "PassiveSocket_listen os s w =
     (let (ret, w) = os_listen os (bs_fd s) w
      in if ret < 0 then (createResult (os_errno os w) ret, w) else (mkCode SUCCESS, w))"

text \<open>
  The container: with a valid TLS configuration the server side constructs its TLS class,
  whose constructor throws.
\<close>

definition PassiveSocketContainer_new ::
  "'w os \<Rightarrow> bool \<Rightarrow> bool \<Rightarrow> 'w \<Rightarrow> (base_socket \<times> 'w) result" where
  "PassiveSocketContainer_new os tls is_unix_domain w =
     (if tls then Inl NotImplemented else Inr (PassiveSocket_new os is_unix_domain w))"

subsection \<open>Server-side connection\<close>

record server_socket = base_socket +
  ss_ip :: string
  ss_port :: nat

definition ServerActiveSocket_new ::
  "'w os \<Rightarrow> fd \<Rightarrow> sockaddr_in \<Rightarrow> 'w \<Rightarrow> server_socket \<times> 'w" where
  "ServerActiveSocket_new os sock addr w =
     (let result = createResult (os_errno os w) sock
      in if sr_code result \<noteq> SUCCESS
         then (\<lparr>bs_result = result, bs_fd = sock, ss_ip = '''', ss_port = 0\<rparr>, w)
         else (\<lparr>bs_result = result, bs_fd = sock,
                ss_ip = (if sock \<ge> 0 then inet_ntop (sin_addr addr) else ''''),
                ss_port = (if sock \<ge> 0 then unat (ntohs (sin_port addr)) else 0)\<rparr>,
               setNonBlockingMode os sock w))"

definition PassiveSocket_accept :: "'w os \<Rightarrow> base_socket \<Rightarrow> 'w \<Rightarrow> server_socket \<times> 'w" where
  "PassiveSocket_accept os s w =
     (let ((sock, client_addr), w) = os_accept os (bs_fd s) w
      in ServerActiveSocket_new os (i32 sock) client_addr w)"

definition ServerActiveSocket_close :: "'w os \<Rightarrow> server_socket \<Rightarrow> 'w \<Rightarrow> server_socket \<times> 'w" where
  "ServerActiveSocket_close os s w = (s\<lparr>bs_fd := - 1\<rparr>, os_close os (bs_fd s) w)"

text \<open>
  \<open>read\<close> returns the result and the bytes the kernel has stored at the caller's pointer;
  the caller's buffer is written where it is known, in the connection and the client.
  \<open>write\<close> is given the bytes at the caller's pointer.
\<close>

definition recv_result :: "errno \<Rightarrow> int \<Rightarrow> SocketResult" where
  "recv_result err ret = (if ret = 0 then mkResult SOCKET_CLOSED 0 else createResult err ret)"

definition socket_recv ::
  "'w os \<Rightarrow> fd \<Rightarrow> size_t \<Rightarrow> 'w \<Rightarrow> (SocketResult \<times> byte list) \<times> 'w" where
  "socket_recv os s n w =
     (let ((ret, data), w) = os_recv os s (as_len n) w
      in ((recv_result (os_errno os w) (i32 ret), data), w))"

definition socket_send :: "'w os \<Rightarrow> fd \<Rightarrow> byte list \<Rightarrow> 'w \<Rightarrow> SocketResult \<times> 'w" where
  "socket_send os s buffer w =
     (let (ret, w) = os_send os s buffer w
      in (recv_result (os_errno os w) (i32 ret), w))"

definition ServerActiveSocket_read ::
  "'w os \<Rightarrow> server_socket \<Rightarrow> size_t \<Rightarrow> 'w \<Rightarrow> (SocketResult \<times> byte list) \<times> 'w" where
  "ServerActiveSocket_read os s n w = socket_recv os (bs_fd s) n w"

definition ServerActiveSocket_write ::
  "'w os \<Rightarrow> server_socket \<Rightarrow> byte list \<Rightarrow> 'w \<Rightarrow> SocketResult \<times> 'w" where
  "ServerActiveSocket_write os s buffer w = socket_send os (bs_fd s) buffer w"

definition setSocketBufferSize :: "'w os \<Rightarrow> server_socket \<Rightarrow> size_t \<Rightarrow> 'w \<Rightarrow> 'w" where
  "setSocketBufferSize os s n w =
     os_setsockopt os (bs_fd s) (SO_SNDBUF n) (os_setsockopt os (bs_fd s) (SO_RCVBUF n) w)"

subsection \<open>Plain client socket\<close>

definition ClientActiveSocket_new :: "'w os \<Rightarrow> bool \<Rightarrow> 'w \<Rightarrow> base_socket \<times> 'w" where
  "ClientActiveSocket_new os is_unix_domain w = open_stream_socket os is_unix_domain w"

definition ClientActiveSocket_close :: "'w os \<Rightarrow> fd \<Rightarrow> 'w \<Rightarrow> fd \<times> 'w" where
  "ClientActiveSocket_close os s w = (- 1, os_close os s w)"

definition ClientActiveSocket_connect ::
  "'w os \<Rightarrow> fd \<Rightarrow> SocketAddress \<Rightarrow> 32 word \<Rightarrow> 32 word \<Rightarrow> 'w \<Rightarrow> SocketResult \<times> 'w" where
  "ClientActiveSocket_connect os s address read_timeout_ms write_timeout_ms w =
     (let w = setTimeout os s read_timeout_ms write_timeout_ms w;
          w = setNonBlockingMode os s w;
          (res, w) = os_connect os s (sa_view address) w;
          result = (if res < 0 then createResult (os_errno os w) res else mkCode SUCCESS);
          w = setBlockingMode os s w
      in (result, w))"

definition ClientActiveSocket_reconnect :: "bool \<Rightarrow> 'w \<Rightarrow> SocketResult \<times> 'w" where
  "ClientActiveSocket_reconnect after_handshake w = (mkCode SUCCESS, w)"

definition ClientActiveSocket_disconnect :: "'w os \<Rightarrow> fd \<Rightarrow> 'w \<Rightarrow> 'w" where
  "ClientActiveSocket_disconnect os s w = os_shutdown os s w"

definition ClientActiveSocket_isConnected :: "'w os \<Rightarrow> fd \<Rightarrow> 'w \<Rightarrow> SocketResult \<times> 'w" where
  "ClientActiveSocket_isConnected os s w =
     (let (bytes_read, w) = os_peek os s 1 w
      in (if i32 bytes_read > 0 then mkCode SUCCESS else mkCode SOCKET_CLOSED, w))"

subsection \<open>TLS client socket\<close>

record tls_socket = base_socket +
  tls_context :: ctx_ptr
  tls_ssl :: ssl_ptr
  tls_hostname :: "string option"

text \<open>The settings the constructor gives the context, in its order.\<close>

definition version_settings :: "SocketTLSClientConfiguration \<Rightarrow> ctx_setting list" where
  "version_settings tls =
     (let has12 = isVersionSupported tls TLS1_2;
          has13 = isVersionSupported tls TLS1_3;
          min_ver = (if has12 then TLS1_2_VERSION else TLS1_3_VERSION);
          max_ver = (if has13 then TLS1_3_VERSION else TLS1_2_VERSION)
      in [MinProto min_ver, MaxProto max_ver])"

definition cipher_settings :: "SocketTLSClientConfiguration \<Rightarrow> ctx_setting list result" where
  "cipher_settings tls =
     bindR (bindR (generateTLS12CipherSuites (tc_suites12 tls) (zero_array 512)) c_str)
       (\<lambda>cipher_list.
     bindR (bindR (generateTLS13CipherSuites (tc_suites13 tls) (zero_array 512)) c_str)
       (\<lambda>ciphersuites.
     Inr ((if cipher_list \<noteq> '''' then [CipherList cipher_list] else [])
        @ (if ciphersuites \<noteq> '''' then [CipherSuites ciphersuites] else []))))"

definition verify_settings :: "SocketTLSClientConfiguration \<Rightarrow> ctx_setting list result" where
  "verify_settings tls =
     (if tc_verify_server tls then
        bindR (c_str (tc_trust_store_path tls)) (\<lambda>trust_store.
          Inr [Verify SSL_VERIFY_PEER,
               if trust_store \<noteq> '''' then LoadVerifyLocations trust_store else DefaultVerifyPaths])
      else Inr [Verify SSL_VERIFY_NONE])"

definition certificate_settings :: "SocketTLSClientConfiguration \<Rightarrow> ctx_setting list result" where
  "certificate_settings tls =
     (if tc_use_client_certificate tls then
        bindR (c_str (tc_key_password tls)) (\<lambda>key_password.
        bindR (c_str (tc_cert_file_path tls)) (\<lambda>cert.
        bindR (c_str (tc_key_file_path tls)) (\<lambda>key.
          Inr ((if key_password \<noteq> '''' then [PasswdCallback key_password] else [])
             @ [CertificateFile cert, PrivateKeyFile key]))))
      else Inr [])"

definition client_settings :: "SocketTLSClientConfiguration \<Rightarrow> ctx_setting list result" where
  "client_settings tls =
     bindR (cipher_settings tls) (\<lambda>cs.
     bindR (verify_settings tls) (\<lambda>vs.
     bindR (certificate_settings tls) (\<lambda>cc.
       Inr (version_settings tls @ cs @ vs @ cc))))"

text \<open>The password callback: at most \<open>buf_size\<close> bytes of the password are copied.\<close>

definition password_callback :: "string \<Rightarrow> int \<Rightarrow> int" where
  "password_callback pw buf_size =
     (let len = int (length pw) in if len > buf_size then buf_size else len)"

definition TLSClientActiveSocket_new ::
  "'w os \<Rightarrow> 'w ssl_lib \<Rightarrow> bool \<Rightarrow> SocketTLSClientConfiguration \<Rightarrow> string option \<Rightarrow> 'w
   \<Rightarrow> (tls_socket \<times> 'w) result" where
  "TLSClientActiveSocket_new os lib is_unix_domain tls hostname w =
     (let (base, w) = ClientActiveSocket_new os is_unix_domain w;
          s = \<lparr>bs_result = bs_result base, bs_fd = bs_fd base, tls_context = None,
               tls_ssl = None, tls_hostname = None\<rparr>
      in if sr_code (bs_result s) \<noteq> SUCCESS then Inr (s, w)
         else let (ctx, w) = lib_ctx_new lib w in
           if ctx = None then Inr (s\<lparr>bs_result := mkCode TLS_CONTEXT_INITIALIZATION_FAIL\<rparr>, w)
           else bindR (client_settings tls) (\<lambda>settings.
             let w = foldl (\<lambda>w st. lib_ctx_set lib ctx st w) w settings;
                 s = s\<lparr>tls_context := ctx,
                       tls_hostname := (case hostname of None \<Rightarrow> None
                         | Some h \<Rightarrow> if tc_verify_hostname tls \<and> h \<noteq> '''' then Some h else None)\<rparr>;
                 (ssl, w) = lib_new lib ctx w
             in if ssl = None then
                  Inr (s\<lparr>tls_context := None, bs_result := mkCode TLS_INITIALIZATION_FAIL\<rparr>,
                       lib_ctx_free lib ctx w)
                else
                  Inr (s\<lparr>tls_ssl := ssl\<rparr>,
                       (case tc_on_tls_event tls of None \<Rightarrow> w
                        | Some cb \<Rightarrow> lib_ctx_set lib ctx InfoCallback (lib_set lib ssl (ExData cb) w)))))"

definition TLSClientActiveSocket_close ::
  "'w os \<Rightarrow> 'w ssl_lib \<Rightarrow> tls_socket \<Rightarrow> 'w \<Rightarrow> tls_socket \<times> 'w" where
  "TLSClientActiveSocket_close os lib s w =
     (let w = (if tls_ssl s \<noteq> None then lib_free lib (tls_ssl s) w else w);
          w = (if tls_context s \<noteq> None then lib_ctx_free lib (tls_context s) w else w);
          (f, w) = ClientActiveSocket_close os (bs_fd s) w
      in (s\<lparr>tls_ssl := None, tls_context := None, bs_fd := f\<rparr>, w))"

definition postHandshakeProbe ::
  "'w os \<Rightarrow> 'w ssl_lib \<Rightarrow> tls_socket \<Rightarrow> 'w \<Rightarrow> SocketResult \<times> 'w" where
  "postHandshakeProbe os lib s w =
     (let w = setNonBlockingMode os (bs_fd s) w;
          (peek_ret, w) = lib_peek lib (tls_ssl s) 1 w;
          w = setBlockingMode os (bs_fd s) w
      in if peek_ret > 0 then (mkCode SUCCESS, w)
         else let ssl_err = lib_get_error lib (tls_ssl s) peek_ret w in
           if ssl_err = SSL_ERROR_SSL \<or> ssl_err = SSL_ERROR_ZERO_RETURN
           then (createTLSResult lib (os_errno os) (tls_ssl s) peek_ret w, w)
           else if ssl_err = SSL_ERROR_WANT_READ
           then (mkCode SOCKET_CONNECTION_NEED_TO_BE_BLOCKED, w)
           else (mkCode SUCCESS, lib_clear_error lib w))"

text \<open>
  \<^verbatim>\<open>reconnect\<close>, \<^verbatim>\<open>write\<close> and \<^verbatim>\<open>read\<close> hand \<^verbatim>\<open>_ssl\<close> to the library without a test: it is null when
  the constructor has failed, and after \<^verbatim>\<open>disconnect\<close> or \<^verbatim>\<open>close\<close>.
\<close>

definition TLSClientActiveSocket_reconnect ::
  "'w os \<Rightarrow> 'w ssl_lib \<Rightarrow> tls_socket \<Rightarrow> bool \<Rightarrow> 'w \<Rightarrow> (SocketResult \<times> 'w) result" where
  "TLSClientActiveSocket_reconnect os lib s after_handshake w =
     with_session lib (tls_ssl s)
     (if after_handshake then
        (if lib_version lib (tls_ssl s) w = TLS1_3_VERSION then postHandshakeProbe os lib s w
         else (mkCode SUCCESS, w))
      else
        (let (ret, w) = lib_set_fd lib (tls_ssl s) (bs_fd s) w
         in if ret = 0 then (mkCode TLS_SETFD_ERROR, w)
            else
              (let w = (case tls_hostname s of None \<Rightarrow> w
                        | Some h \<Rightarrow> lib_set lib (tls_ssl s) (Set1Host h)
                                     (lib_set lib (tls_ssl s) (TlsextHostName h) w));
                   (res, w) = lib_connect lib (tls_ssl s) w
               in if res \<noteq> 1 then (createTLSResult lib (os_errno os) (tls_ssl s) res w, w)
                  else (mkCode SUCCESS, w))))"

definition TLSClientActiveSocket_disconnect ::
  "'w os \<Rightarrow> 'w ssl_lib \<Rightarrow> tls_socket \<Rightarrow> 'w \<Rightarrow> tls_socket \<times> 'w" where
  "TLSClientActiveSocket_disconnect os lib s w =
     (let (s, w) = (if tls_ssl s \<noteq> None
                    then (s\<lparr>tls_ssl := None\<rparr>,
                          lib_free lib (tls_ssl s) (lib_shutdown lib (tls_ssl s) w))
                    else (s, w))
      in (s, ClientActiveSocket_disconnect os (bs_fd s) w))"

definition TLSClientActiveSocket_write ::
  "'w os \<Rightarrow> 'w ssl_lib \<Rightarrow> tls_socket \<Rightarrow> byte list \<Rightarrow> 'w \<Rightarrow> (SocketResult \<times> 'w) result" where
  "TLSClientActiveSocket_write os lib s buffer w =
     with_session lib (tls_ssl s)
     (let (ret, w) = lib_write lib (tls_ssl s) buffer (i32 (int (length buffer))) w
      in (createTLSResult lib (os_errno os) (tls_ssl s) ret w, w))"

definition TLSClientActiveSocket_read ::
  "'w os \<Rightarrow> 'w ssl_lib \<Rightarrow> tls_socket \<Rightarrow> size_t \<Rightarrow> 'w
   \<Rightarrow> ((SocketResult \<times> byte list) \<times> 'w) result" where
  "TLSClientActiveSocket_read os lib s n w =
     with_session lib (tls_ssl s)
     (let ((ret, data), w) = lib_read lib (tls_ssl s) (i32 (uint n)) w
      in ((createTLSResult lib (os_errno os) (tls_ssl s) ret w, data), w))"

subsection \<open>Handshake diagnostics\<close>

definition SSL_ST_CONNECT :: "32 word" where "SSL_ST_CONNECT = 0x1000"
definition SSL_ST_ACCEPT :: "32 word" where "SSL_ST_ACCEPT = 0x2000"
definition SSL_ST_MASK :: "32 word" where "SSL_ST_MASK = 0x0FFF"
definition SSL_CB_LOOP :: "32 word" where "SSL_CB_LOOP = 0x01"
definition SSL_CB_EXIT :: "32 word" where "SSL_CB_EXIT = 0x02"
definition SSL_CB_ALERT :: "32 word" where "SSL_CB_ALERT = 0x4000"
definition SSL_CB_HANDSHAKE_START :: "32 word" where "SSL_CB_HANDSHAKE_START = 0x10"
definition SSL_CB_HANDSHAKE_DONE :: "32 word" where "SSL_CB_HANDSHAKE_DONE = 0x20"

lemmas info_consts =
  SSL_ST_CONNECT_def SSL_ST_ACCEPT_def SSL_ST_MASK_def SSL_CB_LOOP_def SSL_CB_EXIT_def
  SSL_CB_ALERT_def SSL_CB_HANDSHAKE_START_def SSL_CB_HANDSHAKE_DONE_def

text \<open>
  The text the info callback formats: \<open>state\<close>, \<open>alert_type\<close> and \<open>alert_desc\<close> are what the
  library's string functions return for this session and \<open>ret\<close>.
\<close>

definition trackTLSInfo :: "string \<Rightarrow> string \<Rightarrow> string \<Rightarrow> 32 word \<Rightarrow> int \<Rightarrow> char list" where
  "trackTLSInfo state alert_type alert_desc wh ret =
     (let buffer = zero_array 2048;
          put = snprintf_s buffer 2048;
          w = wh AND NOT SSL_ST_MASK
      in if wh AND SSL_CB_LOOP \<noteq> 0 then
           (let header = (if w AND SSL_ST_CONNECT \<noteq> 0 then ''SSL_connect''
                          else if w AND SSL_ST_ACCEPT \<noteq> 0 then ''SSL_accept'' else '''')
            in put (''['' @ header @ ''] '' @ state))
         else if wh AND SSL_CB_ALERT \<noteq> 0 then put (''[ALERT] : '' @ alert_type @ '' :'' @ alert_desc)
         else if wh AND SSL_CB_EXIT \<noteq> 0 then
           (if ret \<le> 0 then put (if ret = 0 then ''Handshake failed'' else ''Handshake error'')
            else buffer)
         else if wh AND SSL_CB_HANDSHAKE_START \<noteq> 0 then put ''Handshake start''
         else if wh AND SSL_CB_HANDSHAKE_DONE \<noteq> 0 then put ''Handshake done''
         else buffer)"

subsection \<open>The client socket as the client sees it\<close>

text \<open>
  \<^verbatim>\<open>ClientActiveSocket*\<close> into the container: a plain or a TLS object; the virtual methods
  dispatch on which one it is.
\<close>

datatype client_socket = PlainSocket base_socket | TlsSocket tls_socket

definition ClientActiveSocketContainer_new ::
  "'w os \<Rightarrow> 'w ssl_lib \<Rightarrow> bool \<Rightarrow> bool \<Rightarrow> SocketTLSClientConfiguration \<Rightarrow> string option \<Rightarrow> 'w
   \<Rightarrow> (client_socket \<times> 'w) result" where
  "ClientActiveSocketContainer_new os lib tls is_unix_domain tls_cfg hostname w =
     (if tls then bindR (TLSClientActiveSocket_new os lib is_unix_domain tls_cfg hostname w)
                    (\<lambda>(s, w). Inr (TlsSocket s, w))
      else (let (s, w) = ClientActiveSocket_new os is_unix_domain w in Inr (PlainSocket s, w)))"

fun client_descriptor :: "client_socket \<Rightarrow> fd" where
  "client_descriptor (PlainSocket s) = bs_fd s"
| "client_descriptor (TlsSocket s) = bs_fd s"

fun client_valid :: "client_socket \<Rightarrow> SocketResult" where
  "client_valid (PlainSocket s) = bs_result s"
| "client_valid (TlsSocket s) = bs_result s"

fun client_close ::
  "'w os \<Rightarrow> 'w ssl_lib \<Rightarrow> client_socket \<Rightarrow> 'w \<Rightarrow> client_socket \<times> 'w" where
  "client_close os lib (PlainSocket s) w =
     (let (f, w) = ClientActiveSocket_close os (bs_fd s) w in (PlainSocket (s\<lparr>bs_fd := f\<rparr>), w))"
| "client_close os lib (TlsSocket s) w =
     (let (s, w) = TLSClientActiveSocket_close os lib s w in (TlsSocket s, w))"

fun client_disconnect ::
  "'w os \<Rightarrow> 'w ssl_lib \<Rightarrow> client_socket \<Rightarrow> 'w \<Rightarrow> client_socket \<times> 'w" where
  "client_disconnect os lib (PlainSocket s) w =
     (PlainSocket s, ClientActiveSocket_disconnect os (bs_fd s) w)"
| "client_disconnect os lib (TlsSocket s) w =
     (let (s, w) = TLSClientActiveSocket_disconnect os lib s w in (TlsSocket s, w))"

definition client_connect ::
  "'w os \<Rightarrow> client_socket \<Rightarrow> SocketAddress \<Rightarrow> 32 word \<Rightarrow> 32 word \<Rightarrow> 'w \<Rightarrow> SocketResult \<times> 'w"
  where
  "client_connect os s address rt wt w =
     ClientActiveSocket_connect os (client_descriptor s) address rt wt w"

fun client_reconnect ::
  "'w os \<Rightarrow> 'w ssl_lib \<Rightarrow> client_socket \<Rightarrow> bool \<Rightarrow> 'w \<Rightarrow> (SocketResult \<times> 'w) result" where
  "client_reconnect os lib (PlainSocket s) after_handshake w =
     Inr (ClientActiveSocket_reconnect after_handshake w)"
| "client_reconnect os lib (TlsSocket s) after_handshake w =
     TLSClientActiveSocket_reconnect os lib s after_handshake w"

definition client_isConnected :: "'w os \<Rightarrow> client_socket \<Rightarrow> 'w \<Rightarrow> SocketResult \<times> 'w" where
  "client_isConnected os s w = ClientActiveSocket_isConnected os (client_descriptor s) w"

fun client_read ::
  "'w os \<Rightarrow> 'w ssl_lib \<Rightarrow> client_socket \<Rightarrow> size_t \<Rightarrow> 'w
   \<Rightarrow> ((SocketResult \<times> byte list) \<times> 'w) result"
  where
  "client_read os lib (PlainSocket s) n w = Inr (socket_recv os (bs_fd s) n w)"
| "client_read os lib (TlsSocket s) n w = TLSClientActiveSocket_read os lib s n w"

fun client_write ::
  "'w os \<Rightarrow> 'w ssl_lib \<Rightarrow> client_socket \<Rightarrow> byte list \<Rightarrow> 'w \<Rightarrow> (SocketResult \<times> 'w) result" where
  "client_write os lib (PlainSocket s) buffer w = Inr (socket_send os (bs_fd s) buffer w)"
| "client_write os lib (TlsSocket s) buffer w = TLSClientActiveSocket_write os lib s buffer w"

subsection \<open>Lemmas\<close>

text \<open>A socket the library can be called for.\<close>

fun has_session :: "'w ssl_lib \<Rightarrow> client_socket \<Rightarrow> bool" where
  "has_session lib (PlainSocket s) \<longleftrightarrow> True"
| "has_session lib (TlsSocket s) \<longleftrightarrow> tls_ssl s \<noteq> None \<or> lib_null_ok lib"

lemma session_calls:
  "has_session lib s \<longleftrightarrow> (\<exists>y. client_reconnect os lib s b w = Inr y)"
  "has_session lib s \<longleftrightarrow> (\<exists>y. client_read os lib s n w = Inr y)"
  "has_session lib s \<longleftrightarrow> (\<exists>y. client_write os lib s buffer w = Inr y)"
  by (cases s; auto simp: TLSClientActiveSocket_reconnect_def TLSClientActiveSocket_read_def
      TLSClientActiveSocket_write_def with_session_iff)+

lemma session_faults:
  "client_reconnect os lib s b w = Inl e \<Longrightarrow> e = NullDeref \<and> \<not> has_session lib s"
  "client_read os lib s n w = Inl e \<Longrightarrow> e = NullDeref \<and> \<not> has_session lib s"
  "client_write os lib s buffer w = Inl e \<Longrightarrow> e = NullDeref \<and> \<not> has_session lib s"
  by (cases s; auto simp: TLSClientActiveSocket_reconnect_def TLSClientActiveSocket_read_def
      TLSClientActiveSocket_write_def with_session_iff)+

lemma path_array_terminated: "\<exists>s. c_str (path_array p) = Inr s"
  by (cases p) (auto simp: path_array_def c_str_def zero_array_def snprintf_s_def Let_def)

lemma generated_suites:
  "\<exists>s. bindR (generateTLS12CipherSuites bm (zero_array 512)) c_str = Inr s"
  "\<exists>s. bindR (generateTLS13CipherSuites bm' (zero_array 512)) c_str = Inr s"
  using generateSuites_spec [of suites12 "zero_array 512" bm] suites12_fits
    generateSuites_spec [of suites13 "zero_array 512" bm'] suites13_fits
  by (auto simp: generateTLS12CipherSuites_def generateTLS13CipherSuites_def zero_array_def)

lemma client_settings_total:
  assumes "tc_trust_store_path tls = path_array trust" and "tc_cert_file_path tls = path_array cert"
    and "tc_key_file_path tls = path_array key" and "tc_key_password tls = path_array password"
  shows "\<exists>st. client_settings tls = Inr st"
proof -
  obtain c12 c13 where
      "bindR (generateTLS12CipherSuites (tc_suites12 tls) (zero_array 512)) c_str = Inr c12"
      "bindR (generateTLS13CipherSuites (tc_suites13 tls) (zero_array 512)) c_str = Inr c13"
    using generated_suites by blast
  moreover obtain t c k p where "c_str (path_array trust) = Inr t" "c_str (path_array cert) = Inr c"
      "c_str (path_array key) = Inr k" "c_str (path_array password) = Inr p"
    using path_array_terminated by metis
  ultimately show ?thesis
    using assms
    by (auto simp: client_settings_def cipher_settings_def verify_settings_def certificate_settings_def)
qed

lemma open_stream_socket_result:
  "open_stream_socket os u w = (s, w') \<Longrightarrow> sr_code (bs_result s) = SUCCESS \<longleftrightarrow> 0 \<le> bs_fd s"
  by (auto simp: open_stream_socket_def Let_def result_simps split: prod.splits if_splits)

subsection \<open>Properties\<close>

definition protocol_number :: "SocketTLSVersion \<Rightarrow> int" where
  "protocol_number v = (case v of TLS1_2 \<Rightarrow> TLS1_2_VERSION | TLS1_3 \<Rightarrow> TLS1_3_VERSION)"

text \<open>
  The texts a configuration holds: of a path or a password the first 255 characters, and of a
  selection of suites their OpenSSL names in the order of preference, joined with colons.
\<close>

definition path_text :: "string option \<Rightarrow> string" where
  "path_text p = (case p of None \<Rightarrow> '''' | Some s \<Rightarrow> take 255 s)"

definition c_string :: "string option \<Rightarrow> bool" where
  "c_string p = (case p of None \<Rightarrow> True | Some s \<Rightarrow> NUL \<notin> set s)"

definition suite_text :: "('a \<times> string) list \<Rightarrow> 'a list \<Rightarrow> string" where
  "suite_text order xs = join_colon (map snd (filter (\<lambda>(x, n). x \<in> set xs) order))"

lemma c_str_path_array: "c_string p \<Longrightarrow> c_str (path_array p) = Inr (path_text p)"
  using c_str_terminated [of "[]" "replicate 255 NUL"]
  by (auto simp: c_string_def path_array_def path_text_def c_str_snprintf_s zero_array_def
      numeral_eq_Suc split: option.splits)

lemma join_colon_Nil: "[] \<notin> set ns \<Longrightarrow> join_colon ns = [] \<longleftrightarrow> ns = []"
  by (cases ns rule: join_colon.cases) auto

lemma suite_text_Nil:
  "suite_text order12 xs = [] \<longleftrightarrow> xs = []" "suite_text order13 ys = [] \<longleftrightarrow> ys = []"
proof -
  have "[] \<notin> snd ` set order12" "[] \<notin> snd ` set order13" by (simp_all add: order12_def order13_def)
  then have "[] \<notin> set (map snd (filter P order12))" "[] \<notin> set (map snd (filter Q order13))" for P Q
    by auto
  note nil = this [THEN join_colon_Nil]
  show "suite_text order12 xs = [] \<longleftrightarrow> xs = []"
    unfolding suite_text_def nil(1) using order12_complete [of xs] by (cases "xs = []") auto
  show "suite_text order13 ys = [] \<longleftrightarrow> ys = []"
    unfolding suite_text_def nil(2) using order13_complete [of ys] by (cases "ys = []") auto
qed

lemma generated_text:
  "bindR (generateTLS12CipherSuites (or_bits suite12_bit xs) (zero_array 512)) c_str
    = Inr (suite_text order12 xs)"
  "bindR (generateTLS13CipherSuites (or_bits suite13_bit ys) (zero_array 512)) c_str
    = Inr (suite_text order13 ys)"
  using generateSuites_spec [of suites12 "zero_array 512" "or_bits suite12_bit xs"] suites12_fits
    generateSuites_spec [of suites13 "zero_array 512" "or_bits suite13_bit ys"] suites13_fits
  by (auto simp: generateTLS12CipherSuites_def generateTLS13CipherSuites_def zero_array_def
      suite_text_def selected12 selected13)

text \<open>
  C27. The settings a TLS client gives its context are exactly those of its configuration, in
  this order: a protocol range that admits the configured versions and no other; the cipher
  strings of the configured TLS 1.2 and TLS 1.3 suites, each only when some are configured;
  with server verification the check of the peer and the trust store of the configuration, or
  the default one when it names none, and without it no check; with a client certificate its
  password, when there is one, its certificate file and its key file, and without it none. No
  configuration makes the construction fault. Paths and passwords count up to 255 characters.
\<close>

theorem tls_client_policy:
  assumes "vs \<noteq> []" and "c_string trust" and "c_string cert" and "c_string key" and "c_string pw"
  shows "\<exists>lo hi. client_settings
        (SocketTLSClientConfiguration_new vs s12 s13 vsrv vhost trust ucert cert key pw)
      = Inr ([MinProto lo, MaxProto hi]
          @ (if s12 = [] then [] else [CipherList (suite_text order12 s12)])
          @ (if s13 = [] then [] else [CipherSuites (suite_text order13 s13)])
          @ (if vsrv then [Verify SSL_VERIFY_PEER,
               if path_text trust = '''' then DefaultVerifyPaths
               else LoadVerifyLocations (path_text trust)]
             else [Verify SSL_VERIFY_NONE])
          @ (if ucert then (if path_text pw = '''' then [] else [PasswdCallback (path_text pw)])
               @ [CertificateFile (path_text cert), PrivateKeyFile (path_text key)]
             else []))
    \<and> (\<forall>v. lo \<le> protocol_number v \<and> protocol_number v \<le> hi \<longleftrightarrow> v \<in> set vs)"
proof -
  let ?tls = "SocketTLSClientConfiguration_new vs s12 s13 vsrv vhost trust ucert cert key pw"
  have ver: "isVersionSupported ?tls v \<longleftrightarrow> v \<in> set vs" for v
    by (simp add: isVersionSupported_def SocketTLSClientConfiguration_new_def version_bit_member)
  have "TLS1_2 \<in> set vs \<or> TLS1_3 \<in> set vs"
    using assms(1) by (metis SocketTLSVersion.exhaust last_in_set)
  moreover obtain lo hi where vs: "version_settings ?tls = [MinProto lo, MaxProto hi]"
      "lo = (if TLS1_2 \<in> set vs then TLS1_2_VERSION else TLS1_3_VERSION)"
      "hi = (if TLS1_3 \<in> set vs then TLS1_3_VERSION else TLS1_2_VERSION)"
    by (simp add: version_settings_def ver)
  ultimately have range: "\<forall>v. lo \<le> protocol_number v \<and> protocol_number v \<le> hi \<longleftrightarrow> v \<in> set vs"
    by (auto simp: protocol_number_def tls_consts split: SocketTLSVersion.splits)
  have "cipher_settings ?tls
      = Inr ((if s12 = [] then [] else [CipherList (suite_text order12 s12)])
           @ (if s13 = [] then [] else [CipherSuites (suite_text order13 s13)]))"
    by (simp add: cipher_settings_def SocketTLSClientConfiguration_new_def generated_text suite_text_Nil)
  with vs(1) range show ?thesis
    by (auto simp: client_settings_def verify_settings_def certificate_settings_def
        SocketTLSClientConfiguration_new_def c_str_path_array assms(2-5))
qed

theorem tls_client_policy_witness:
  "\<exists>lo hi. client_settings
      (SocketTLSClientConfiguration_new [TLS1_3]
         [] [TLS_AES_256_GCM_SHA384, TLS_AES_128_GCM_SHA256] True True None
         True (Some ''me.pem'') (Some ''me.key'') None)
      = Inr [MinProto lo, MaxProto hi, CipherSuites ''TLS_AES_128_GCM_SHA256:TLS_AES_256_GCM_SHA384'',
          Verify SSL_VERIFY_PEER, DefaultVerifyPaths, CertificateFile ''me.pem'', PrivateKeyFile ''me.key'']
    \<and> \<not> (lo \<le> protocol_number TLS1_2 \<and> protocol_number TLS1_2 \<le> hi)"
proof -
  have "c_string None" "c_string (Some ''me.pem'')" "c_string (Some ''me.key'')"
    by (simp_all add: c_string_def NUL_def)
  from tls_client_policy [of "[TLS1_3]", OF _ this(1-3) this(1), of "[]"
      "[TLS_AES_256_GCM_SHA384, TLS_AES_128_GCM_SHA256]" True True True]
  show ?thesis by (simp add: suite_text_def order13_def path_text_def) (metis SocketTLSVersion.distinct(1))
qed

text \<open>
  A build without TLS refuses a TLS client: whatever the system does, the container
  makes a TLS socket whose result is an error, never a plain socket.
\<close>

theorem stub_refuses_tls:
  "\<exists>s w'. ClientActiveSocketContainer_new os stub_ssl True u cfg hostname w = Inr (TlsSocket s, w')
     \<and> sr_code (bs_result s) \<noteq> SUCCESS \<and> tls_ssl s = None"
  by (auto simp: ClientActiveSocketContainer_new_def TLSClientActiveSocket_new_def
      ClientActiveSocket_new_def stub_ssl_def Let_def split: prod.split)

text \<open>
  A TLS socket whose construction succeeded is complete: it has a descriptor, a
  context and a session, and it will check the peer's name exactly when host name
  verification is on and the configuration names a host.
\<close>

theorem tls_open_complete:
  assumes "TLSClientActiveSocket_new os lib u cfg hostname w = Inr (s, w')"
    and "sr_code (bs_result s) = SUCCESS"
  shows "0 \<le> bs_fd s \<and> tls_context s \<noteq> None \<and> tls_ssl s \<noteq> None
    \<and> (tls_hostname s = Some h \<longleftrightarrow> tc_verify_hostname cfg \<and> hostname = Some h \<and> h \<noteq> '''')"
proof -
  obtain base w1 where base: "open_stream_socket os u w = (base, w1)" by fastforce
  obtain ctx w2 where ctx: "lib_ctx_new lib w1 = (ctx, w2)" by fastforce
  note new = TLSClientActiveSocket_new_def ClientActiveSocket_new_def
  have ok: "sr_code (bs_result base) = SUCCESS" and "ctx \<noteq> None"
    using assms base ctx by (auto simp: new Let_def split: if_splits)
  then obtain st where st: "client_settings cfg = Inr st"
    using assms(1) base ctx by (cases "client_settings cfg") (auto simp: new Let_def)
  obtain ssl w3 where ssl: "lib_new lib ctx (foldl (\<lambda>w st. lib_ctx_set lib ctx st w) w2 st) = (ssl, w3)"
    by fastforce
  have "ssl \<noteq> None"
    using assms base ctx ok \<open>ctx \<noteq> None\<close> st ssl by (auto simp: new Let_def split: if_splits)
  with assms(1) base ctx ok \<open>ctx \<noteq> None\<close> st ssl
  have "bs_fd s = bs_fd base" "tls_context s = ctx" "tls_ssl s = ssl"
      "tls_hostname s = (case hostname of None \<Rightarrow> None
         | Some h \<Rightarrow> if tc_verify_hostname cfg \<and> h \<noteq> '''' then Some h else None)"
    by (auto simp: new Let_def)
  then show ?thesis
    using open_stream_socket_result [OF base] ok \<open>ctx \<noteq> None\<close> \<open>ssl \<noteq> None\<close>
    by (auto split: option.splits)
qed

definition open_os :: "'w os" where
  "open_os = null_os\<lparr>os_socket := (\<lambda>u w. (5, w))\<rparr>"

definition open_lib :: "'w ssl_lib" where
  "open_lib = stub_ssl\<lparr>lib_ctx_new := (\<lambda>w. (Some 1, w)), lib_new := (\<lambda>c w. (Some 2, w))\<rparr>"

theorem tls_open_complete_witness:
  "\<exists>s. TLSClientActiveSocket_new open_os open_lib False
        (SocketTLSClientConfiguration_new [TLS1_3] [] [] True True None False None None None)
        (Some ''example.org'') () = Inr (s, ()) \<and> tls_hostname s = Some ''example.org''"
proof -
  let ?cfg = "SocketTLSClientConfiguration_new [TLS1_3] [] [] True True None False None None None"
  obtain st where "client_settings ?cfg = Inr st"
    using client_settings_total [of ?cfg None None None None]
    by (auto simp: SocketTLSClientConfiguration_new_def)
  then obtain s where s: "TLSClientActiveSocket_new open_os open_lib False ?cfg (Some ''example.org'') ()
      = Inr (s, ())" "sr_code (bs_result s) = SUCCESS"
    by (simp add: TLSClientActiveSocket_new_def ClientActiveSocket_new_def open_stream_socket_def
        open_os_def open_lib_def null_os_def Let_def result_simps)
  from tls_open_complete [OF s, of "''example.org''"] s(1) show ?thesis
    by (simp add: SocketTLSClientConfiguration_new_def)
qed

text \<open>
  The handshake diagnostics stay in their buffer: whatever texts the library returns,
  the 2048-character array keeps its size and the callback is given a terminated string.
\<close>

theorem tls_info_bounded:
  "length (trackTLSInfo state alert_type alert_desc wh ret) = 2048
   \<and> (\<exists>s. c_str (trackTLSInfo state alert_type alert_desc wh ret) = Inr s \<and> length s < 2048)"
proof -
  have put: "length (snprintf_s (zero_array 2048) 2048 t) = 2048
      \<and> NUL \<in> set (snprintf_s (zero_array 2048) 2048 t)" for t
    using length_snprintf_s [of 2048 "zero_array 2048" t]
    by (simp add: zero_array_def snprintf_s_def Let_def)
  have "length (trackTLSInfo state alert_type alert_desc wh ret) = 2048
      \<and> NUL \<in> set (trackTLSInfo state alert_type alert_desc wh ret)" (is "?len \<and> ?nul")
    using put by (simp add: trackTLSInfo_def Let_def zero_array_def)
  moreover have "length (takeWhile (\<lambda>c. c \<noteq> NUL) b) < length b" if "NUL \<in> set b" for b
    using that by (induction b) auto
  ultimately show ?thesis by (fastforce simp: c_str_def)
qed

end
