(* ===== verification/Event_Listener.thy ===== *)
theory Event_Listener
  imports Active_Sockets
begin

unbundle bit_operations_syntax

text \<open>
  \<^verbatim>\<open>SocketEvent.hpp\<close> with its Linux and Windows implementations: the one-socket listener the
  client and the broadcaster wait on, and the multi-event listener of the servers, a list of
  poll descriptors kept beside a list of context pointers.
\<close>

subsection \<open>Event types\<close>

datatype SocketEventType =
    UNDEFINED | ACCEPT | CONNECT | DISCONNECTED | READ | WRITE | READ_WRITE

text \<open>
  The poll events of an event type. For \<open>UNDEFINED\<close> and \<open>DISCONNECTED\<close> the code leaves the
  field as it is, uninitialised.
\<close>

fun events_of :: "SocketEventType \<Rightarrow> events option" where
  "events_of ACCEPT = Some POLLIN"
| "events_of CONNECT = Some (POLLIN OR POLLOUT)"
| "events_of READ = Some POLLIN"
| "events_of WRITE = Some POLLOUT"
| "events_of READ_WRITE = Some (POLLIN OR POLLOUT)"
| "events_of _ = None"

subsection \<open>One socket\<close>

type_synonym event_listener = "fd \<times> events"

definition SocketEventListener_open :: "fd \<Rightarrow> SocketEventType \<Rightarrow> event_listener result" where
  "SocketEventListener_open descriptor eventType =
     (case events_of eventType of None \<Rightarrow> Inl Uninitialised | Some ev \<Rightarrow> Inr (descriptor, ev))"

definition wait_with ::
  "(errno \<Rightarrow> SocketResult) \<Rightarrow> 'w os \<Rightarrow> event_listener \<Rightarrow> 32 word \<Rightarrow> 'w \<Rightarrow> SocketResult \<times> 'w" where
  "wait_with on_error os handle timeout_ms w =
     (let ((ret, revs), w) = os_poll os [handle] timeout_ms w;
          revents = (case revs of [] \<Rightarrow> 0 | r # _ \<Rightarrow> r)
      in if ret = 0 then (mkCode SOCKET_TIMEOUT, w)
         else if ret < 0 then (mkCode SOCKET_EVENT_ERROR, w)
         else if has_event revents POLLERR then
           (let (error, w) = os_so_error os (fst handle) w
            in (if error = E_NONE then mkCode SUCCESS else on_error error, w))
         else if has_event revents POLLHUP then (mkCode SOCKET_CLOSED, w)
         else (mkCode SUCCESS, w))"

definition SocketEventListener_wait ::
  "'w os \<Rightarrow> event_listener \<Rightarrow> 32 word \<Rightarrow> 'w \<Rightarrow> SocketResult \<times> 'w" where
  "SocketEventListener_wait os = wait_with createResultFromSocketError os"

definition SocketEventListener_wait_windows ::
  "'w os \<Rightarrow> event_listener \<Rightarrow> 32 word \<Rightarrow> 'w \<Rightarrow> SocketResult \<times> 'w" where
  "SocketEventListener_wait_windows os = wait_with (\<lambda>_. mkCode UNKNOWN_ERROR) os"

subsection \<open>Many sockets\<close>

text \<open>
  \<^verbatim>\<open>SocketEventContext*\<close> is a pointer of type \<open>'c\<close> into a heap of contexts; a context that
  has been freed is not in the heap. The listener holds raw pointers.
\<close>

record event_context =
  ec_fd :: fd
  ec_type :: SocketEventType

type_synonym 'c ctx_heap = "'c \<Rightarrow> event_context option"

record 'c multi_listener =
  ml_server :: fd
  ml_contexts :: "'c list"
  ml_handle :: "(fd \<times> events) list"

definition multi_listener_new :: "'c multi_listener" where
  "multi_listener_new = \<lparr>ml_server = 0, ml_contexts = [], ml_handle = []\<rparr>"

definition SocketMultiEventListener_open :: "'c multi_listener \<Rightarrow> SocketResult \<times> 'c multi_listener"
  where "SocketMultiEventListener_open l = (mkCode SUCCESS, l)"

definition SocketMultiEventListener_close :: "'c multi_listener \<Rightarrow> 'c multi_listener" where
  "SocketMultiEventListener_close l = l"

definition addEvent ::
  "'c ctx_heap \<Rightarrow> 'c \<Rightarrow> SocketEventType \<Rightarrow> 'c multi_listener \<Rightarrow> 'c multi_listener result" where
  "addEvent h context eventType l =
     (case h context of None \<Rightarrow> Inl UseAfterFree
      | Some ec \<Rightarrow>
         (case events_of eventType of None \<Rightarrow> Inl Uninitialised
          | Some ev \<Rightarrow>
             Inr (l\<lparr>ml_server := (if eventType = ACCEPT then ec_fd ec else ml_server l),
                    ml_handle := ml_handle l @ [(ec_fd ec, ev)],
                    ml_contexts := ml_contexts l @ [context]\<rparr>)))"

definition removeEvent ::
  "'c ctx_heap \<Rightarrow> 'c \<Rightarrow> 'c multi_listener \<Rightarrow> 'c multi_listener result" where
  "removeEvent h context l =
     (case h context of None \<Rightarrow> Inl UseAfterFree
      | Some ec \<Rightarrow>
         Inr (l\<lparr>ml_handle := remove_first (\<lambda>p. fst p = ec_fd ec) (ml_handle l),
                ml_contexts := remove_first (\<lambda>c. c = context) (ml_contexts l)\<rparr>))"

definition modifyEvent ::
  "'c ctx_heap \<Rightarrow> 'c \<Rightarrow> SocketEventType \<Rightarrow> 'c multi_listener \<Rightarrow> 'c multi_listener result" where
  "modifyEvent h context eventType l =
     bindR (removeEvent h context l) (\<lambda>l. addEvent h context eventType l)"

text \<open>
  The search for the context of a descriptor dereferences every pointer it passes. A
  descriptor without context leaves the null pointer, which the code (or its caller, for
  events it does not name) dereferences next.
\<close>

fun find_context :: "'c ctx_heap \<Rightarrow> 'c list \<Rightarrow> fd \<Rightarrow> 'c option result" where
  "find_context h [] event_fd = Inr None"
| "find_context h (c # cs) event_fd =
     (case h c of None \<Rightarrow> Inl UseAfterFree
      | Some ec \<Rightarrow> if ec_fd ec = event_fd then Inr (Some c) else find_context h cs event_fd)"

definition event_type :: "fd \<Rightarrow> fd \<Rightarrow> events \<Rightarrow> SocketEventType \<Rightarrow> SocketEventType" where
  "event_type server_socket event_fd revents old =
     (if has_event revents POLLERR \<or> has_event revents POLLHUP \<or> has_event revents POLLNVAL
      then DISCONNECTED
      else if server_socket = event_fd \<and> has_event revents POLLIN then ACCEPT
      else if has_event revents POLLIN then READ
      else if has_event revents POLLOUT then WRITE
      else old)"

fun collect_events ::
  "fd \<Rightarrow> 'c list \<Rightarrow> ((fd \<times> events) \<times> events) list \<Rightarrow> 'c ctx_heap
   \<Rightarrow> ('c list \<times> 'c ctx_heap) result" where
  "collect_events server_socket contexts [] h = Inr ([], h)"
| "collect_events server_socket contexts (((event_fd, ev), revents) # rest) h =
     (if revents = 0 then collect_events server_socket contexts rest h
      else bindR (find_context h contexts event_fd) (\<lambda>found.
        case found of None \<Rightarrow> Inl NullDeref
        | Some c \<Rightarrow>
            (case h c of None \<Rightarrow> Inl UseAfterFree
             | Some ec \<Rightarrow>
                bindR (collect_events server_socket contexts rest
                         (h(c \<mapsto> ec\<lparr>ec_type := event_type server_socket event_fd revents (ec_type ec)\<rparr>)))
                  (\<lambda>(cs, h). Inr (c # cs, h)))))"

text \<open>
  The wait on a snapshot of the two lists: what happens after the lock is released. The
  listener's own lists may change meanwhile, the snapshot does not.
\<close>

definition wait_snapshot ::
  "'w os \<Rightarrow> fd \<Rightarrow> 'c list \<Rightarrow> (fd \<times> events) list \<Rightarrow> 32 word \<Rightarrow> 'c ctx_heap \<Rightarrow> 'w
   \<Rightarrow> (SocketResult \<times> 'c list \<times> 'c ctx_heap \<times> 'w) result" where
  "wait_snapshot os server_socket contexts handle timeout_ms h w =
     (let ((ret, revs), w) = os_poll os handle timeout_ms w
      in if ret = 0 then Inr (mkCode SOCKET_TIMEOUT, [], h, w)
         else if ret < 0 then Inr (mkCode SOCKET_EVENT_ERROR, [], h, w)
         else bindR (collect_events server_socket contexts (zip handle revs) h)
                (\<lambda>(cs, h). Inr (mkCode SUCCESS, cs, h, w)))"

definition SocketMultiEventListener_wait ::
  "'w os \<Rightarrow> 'c multi_listener \<Rightarrow> 32 word \<Rightarrow> 'c ctx_heap \<Rightarrow> 'w
   \<Rightarrow> (SocketResult \<times> 'c list \<times> 'c ctx_heap \<times> 'w) result" where
  "SocketMultiEventListener_wait os l timeout_ms h w =
     wait_snapshot os (ml_server l) (ml_contexts l) (ml_handle l) timeout_ms h w"

subsection \<open>Well-formedness\<close>

text \<open>
  The two lists run in step: the context at a position is alive and has the descriptor at
  that position; no context and no descriptor is registered twice.
\<close>

definition in_step :: "'c ctx_heap \<Rightarrow> 'c list \<Rightarrow> (fd \<times> events) list \<Rightarrow> bool" where
  "in_step h cs hs \<longleftrightarrow>
     list_all2 (\<lambda>c p. \<exists>ec. h c = Some ec \<and> ec_fd ec = fst p) cs hs
     \<and> distinct cs \<and> distinct (map fst hs)"

definition listener_wf :: "'c ctx_heap \<Rightarrow> 'c multi_listener \<Rightarrow> bool" where
  "listener_wf h l \<longleftrightarrow> in_step h (ml_contexts l) (ml_handle l)"

text \<open>The abstract view: which events each registered context is interested in.\<close>

definition interest :: "'c multi_listener \<Rightarrow> 'c \<rightharpoonup> events" where
  "interest l = map_of (zip (ml_contexts l) (map snd (ml_handle l)))"

lemma listener_wf_new: "listener_wf h multi_listener_new"
  by (simp add: listener_wf_def in_step_def multi_listener_new_def)

lemma listener_wf_alive: "listener_wf h l \<Longrightarrow> c \<in> set (ml_contexts l) \<Longrightarrow> h c \<noteq> None"
  by (fastforce simp: listener_wf_def in_step_def list_all2_conv_all_nth in_set_conv_nth)

lemma in_step_fds: "in_step h cs hs \<Longrightarrow> map fst hs = map (\<lambda>c. ec_fd (the (h c))) cs"
  by (fastforce simp: in_step_def list_all2_conv_all_nth intro!: nth_equalityI)

lemma dom_interest: "listener_wf h l \<Longrightarrow> dom (interest l) = set (ml_contexts l)"
  unfolding interest_def listener_wf_def in_step_def
  by (intro dom_map_of_zip_eq) (auto dest: list_all2_lengthD)

lemma addEvent_wf:
  assumes "listener_wf h l" and "h c = Some ec" and "events_of ty = Some ev"
    and "c \<notin> set (ml_contexts l)" and "ec_fd ec \<notin> fst ` set (ml_handle l)"
  shows "\<exists>l'. addEvent h c ty l = Inr l' \<and> listener_wf h l' \<and> interest l' = (interest l)(c \<mapsto> ev)
           \<and> ml_contexts l' = ml_contexts l @ [c]
           \<and> ml_handle l' = ml_handle l @ [(ec_fd ec, ev)]
           \<and> ml_server l' = (if ty = ACCEPT then ec_fd ec else ml_server l)"
proof -
  have len: "length (ml_contexts l) = length (ml_handle l)"
    using assms(1) by (auto simp: listener_wf_def in_step_def dest: list_all2_lengthD)
  have "map_of (zip (ml_contexts l @ [c]) (map snd (ml_handle l) @ [ev]))
      = (map_of (zip (ml_contexts l) (map snd (ml_handle l))))(c \<mapsto> ev)"
    using len assms(4) by (intro map_of_zip_snoc) auto
  with assms show ?thesis
    by (auto simp: addEvent_def listener_wf_def in_step_def interest_def
        intro!: list_all2_appendI)
qed

lemma in_step_remove:
  assumes "in_step h cs hs" and "h c = Some ec" and "c \<in> set cs"
  shows "in_step h (remove_first (\<lambda>d. d = c) cs) (remove_first (\<lambda>p. fst p = ec_fd ec) hs)
    \<and> map_of (zip (remove_first (\<lambda>d. d = c) cs)
                  (map snd (remove_first (\<lambda>p. fst p = ec_fd ec) hs)))
      = (map_of (zip cs (map snd hs)))(c := None)"
  using assms
proof (induction cs arbitrary: hs)
  case Nil
  then show ?case by simp
next
  case (Cons d cs)
  then obtain p hs' where hs: "hs = p # hs'" by (cases hs) (auto simp: in_step_def)
  with Cons.prems obtain ed where d: "h d = Some ed" "ec_fd ed = fst p"
    by (auto simp: in_step_def)
  have step: "in_step h cs hs'" using Cons.prems hs by (auto simp: in_step_def)
  show ?case
  proof (cases "d = c")
    case True
    with Cons.prems step hs d show ?thesis
      by (auto simp: in_step_def fun_eq_iff map_of_zip_notin)
  next
    case False
    with Cons.prems have "c \<in> set cs" by auto
    then obtain i where i: "i < length cs" "cs ! i = c" by (auto simp: in_set_conv_nth)
    with step Cons.prems(2) have "i < length hs'" "fst (hs' ! i) = ec_fd ec"
      by (auto simp: in_step_def list_all2_conv_all_nth)
    then have "ec_fd ec \<in> fst ` set hs'" by (metis image_eqI nth_mem)
    moreover have "fst p \<notin> fst ` set hs'" using Cons.prems(1) hs by (simp add: in_step_def)
    ultimately have ne: "fst p \<noteq> ec_fd ec" by metis
    have IH: "in_step h (remove_first (\<lambda>d. d = c) cs) (remove_first (\<lambda>p. fst p = ec_fd ec) hs')"
      "map_of (zip (remove_first (\<lambda>d. d = c) cs)
                  (map snd (remove_first (\<lambda>p. fst p = ec_fd ec) hs')))
      = (map_of (zip cs (map snd hs')))(c := None)"
      using Cons.IH [OF step Cons.prems(2) \<open>c \<in> set cs\<close>] by auto
    have "d \<notin> set cs" and "fst p \<notin> fst ` set hs'"
      using Cons.prems(1) hs by (auto simp: in_step_def)
    then have "d \<notin> set (remove_first (\<lambda>d. d = c) cs)"
      and "fst p \<notin> fst ` set (remove_first (\<lambda>p. fst p = ec_fd ec) hs')"
      using set_remove_first [of "\<lambda>d. d = c" cs]
        set_remove_first [of "\<lambda>p. fst p = ec_fd ec" hs'] by blast+
    with IH d ne False hs show ?thesis
      by (auto simp: in_step_def fun_eq_iff)
  qed
qed

lemma removeEvent_wf:
  assumes "listener_wf h l" and "c \<in> set (ml_contexts l)"
  shows "\<exists>l'. removeEvent h c l = Inr l' \<and> listener_wf h l' \<and> interest l' = (interest l)(c := None)
           \<and> ml_contexts l' = remove1 c (ml_contexts l) \<and> ml_server l' = ml_server l
           \<and> fst ` set (ml_handle l') = fst ` set (ml_handle l) - {ec_fd (the (h c))}"
proof -
  obtain ec where ec: "h c = Some ec" using listener_wf_alive [OF assms] by auto
  have fds: "distinct (map fst (ml_handle l))"
    using assms(1) by (simp add: listener_wf_def in_step_def)
  have "set (remove_first (\<lambda>p. fst p = ec_fd ec) (ml_handle l))
      = {p \<in> set (ml_handle l). fst p \<noteq> ec_fd ec}"
    by (rule set_remove_first_distinct [OF fds])
  with in_step_remove [of h "ml_contexts l" "ml_handle l" c ec] assms ec show ?thesis
    by (auto simp: removeEvent_def listener_wf_def interest_def remove_first_remove1)
qed

lemma modifyEvent_wf:
  assumes wf: "listener_wf h l" and c: "c \<in> set (ml_contexts l)" and ty: "events_of ty = Some ev"
    and "ty \<noteq> ACCEPT"
  shows "\<exists>l'. modifyEvent h c ty l = Inr l' \<and> listener_wf h l' \<and> interest l' = (interest l)(c \<mapsto> ev)
           \<and> set (ml_contexts l') = set (ml_contexts l) \<and> ml_server l' = ml_server l
           \<and> fst ` set (ml_handle l') = fst ` set (ml_handle l)"
proof -
  obtain ec where ec: "h c = Some ec" using listener_wf_alive [OF wf c] by auto
  obtain l1 where l1: "removeEvent h c l = Inr l1" "listener_wf h l1"
      "interest l1 = (interest l)(c := None)" "ml_contexts l1 = remove1 c (ml_contexts l)"
      "ml_server l1 = ml_server l"
      "fst ` set (ml_handle l1) = fst ` set (ml_handle l) - {ec_fd ec}"
    using removeEvent_wf [OF wf c] ec by auto
  have dist: "distinct (ml_contexts l)" using wf by (simp add: listener_wf_def in_step_def)
  then have "c \<notin> set (ml_contexts l1)" by (simp add: l1)
  moreover have "ec_fd ec \<notin> fst ` set (ml_handle l1)" by (simp add: l1)
  ultimately obtain l2 where l2: "addEvent h c ty l1 = Inr l2" "listener_wf h l2"
      "interest l2 = (interest l1)(c \<mapsto> ev)" "ml_contexts l2 = ml_contexts l1 @ [c]"
      "ml_handle l2 = ml_handle l1 @ [(ec_fd ec, ev)]" "ml_server l2 = ml_server l1"
    using addEvent_wf [OF l1(2) ec ty] \<open>ty \<noteq> ACCEPT\<close> by auto
  have "ec_fd ec \<in> fst ` set (ml_handle l)"
  proof -
    have "ec_fd (the (h c)) \<in> set (map fst (ml_handle l))"
      using in_step_fds wf c by (fastforce simp: listener_wf_def)
    then show ?thesis using ec by simp
  qed
  with l1 l2 dist c show ?thesis by (auto simp: modifyEvent_def)
qed

subsection \<open>Reported events\<close>

text \<open>Writing the type of a context leaves the descriptors of all contexts as they are.\<close>

definition same_fds :: "'c ctx_heap \<Rightarrow> 'c ctx_heap \<Rightarrow> bool" where
  "same_fds h h' \<longleftrightarrow> (\<forall>c. map_option ec_fd (h' c) = map_option ec_fd (h c))"

lemma same_fds_refl [simp, intro]: "same_fds h h"
  by (simp add: same_fds_def)

lemma same_fds_trans: "same_fds h h1 \<Longrightarrow> same_fds h1 h2 \<Longrightarrow> same_fds h h2"
  by (simp add: same_fds_def)

lemma same_fds_type: "h c = Some ec \<Longrightarrow> same_fds h (h(c \<mapsto> ec\<lparr>ec_type := ty\<rparr>))"
  by (simp add: same_fds_def)

lemma same_fds_alive: "same_fds h h' \<Longrightarrow> h' c = None \<longleftrightarrow> h c = None"
  unfolding same_fds_def by (metis map_option_is_None)

lemma same_fds_Some:
  "same_fds h h' \<Longrightarrow> h c = Some ec \<Longrightarrow> \<exists>ec'. h' c = Some ec' \<and> ec_fd ec' = ec_fd ec"
  unfolding same_fds_def by (metis map_option_eq_Some)

lemma in_step_same_fds: "same_fds h h' \<Longrightarrow> in_step h cs hs \<Longrightarrow> in_step h' cs hs"
  by (auto simp: in_step_def elim!: list.rel_mono_strong) (metis same_fds_Some)

lemma listener_wf_same_fds: "same_fds h h' \<Longrightarrow> listener_wf h l \<Longrightarrow> listener_wf h' l"
  by (simp add: listener_wf_def in_step_same_fds)

lemma listener_wf_cong:
  assumes "listener_wf h l"
    and "\<And>c. c \<in> set (ml_contexts l) \<Longrightarrow> map_option ec_fd (h' c) = map_option ec_fd (h c)"
  shows "listener_wf h' l"
  using assms unfolding listener_wf_def in_step_def
  by (auto elim!: list.rel_mono_strong) (metis map_option_eq_Some)

lemma find_context_in_step:
  "in_step h cs hs \<Longrightarrow> (c, p) \<in> set (zip cs hs) \<Longrightarrow> find_context h cs (fst p) = Inr (Some c)"
proof (induction cs arbitrary: hs)
  case (Cons d cs)
  then obtain q hs' where hs: "hs = q # hs'" by (cases hs) auto
  with Cons.prems obtain ed where d: "h d = Some ed" "ec_fd ed = fst q"
    by (auto simp: in_step_def)
  have step: "in_step h cs hs'" using Cons.prems hs by (auto simp: in_step_def)
  show ?case
  proof (cases "(c, p) = (d, q)")
    case True
    with d show ?thesis by simp
  next
    case False
    with Cons.prems hs have mem: "(c, p) \<in> set (zip cs hs')" by auto
    then have "p \<in> set hs'" by (rule set_zip_rightD)
    with Cons.prems(1) hs have "fst q \<noteq> fst p" by (force simp: in_step_def)
    with Cons.IH [OF step mem] d show ?thesis by simp
  qed
qed simp

text \<open>The contexts reported by one wait: those with a non-empty \<open>revents\<close>, in list order.\<close>

definition reported :: "'c list \<Rightarrow> events list \<Rightarrow> 'c list" where
  "reported cs revs = map fst (filter (\<lambda>(c, r). r \<noteq> 0) (zip cs revs))"

lemma reported_Nil [simp]: "reported [] revs = []"
  by (simp add: reported_def)

lemma reported_Cons [simp]:
  "reported (c # cs) (r # revs) = (if r \<noteq> 0 then c # reported cs revs else reported cs revs)"
  by (simp add: reported_def)

lemma set_reported: "set (reported cs revs) \<subseteq> set cs"
  by (auto simp: reported_def dest: set_zip_leftD)

lemma distinct_reported: "distinct cs \<Longrightarrow> distinct (reported cs revs)"
proof (induction cs arbitrary: revs)
  case (Cons c cs)
  then show ?case
    using set_reported [of cs] by (cases revs) (auto simp: reported_def)
qed (simp add: reported_def)

lemma collect_events_spec:
  assumes "in_step h all_cs all_hs" and "set (zip cs hs) \<subseteq> set (zip all_cs all_hs)"
    and "distinct cs" and "length hs = length cs" and "length revs = length cs"
  shows "\<exists>h'. collect_events server all_cs (zip hs revs) h = Inr (reported cs revs, h')
           \<and> same_fds h h' \<and> (\<forall>c. c \<notin> set (reported cs revs) \<longrightarrow> h' c = h c)
           \<and> (\<forall>(c, p, r) \<in> set (zip cs (zip hs revs)). r \<noteq> 0 \<longrightarrow>
                ec_type (the (h' c)) = event_type server (fst p) r (ec_type (the (h c))))"
  using assms
proof (induction cs arbitrary: hs revs h)
  case Nil
  then show ?case by (auto simp: reported_def)
next
  case (Cons c cs)
  then obtain p hs' r revs' where hs: "hs = p # hs'" and revs: "revs = r # revs'"
    by (cases hs; cases revs) auto
  have sub: "set (zip cs hs') \<subseteq> set (zip all_cs all_hs)" using Cons.prems(2) hs by auto
  have tl: "distinct cs" "length hs' = length cs" "length revs' = length cs"
    using Cons.prems hs revs by auto
  have mem: "(c, p) \<in> set (zip all_cs all_hs)" using Cons.prems(2) hs by auto
  have fresh: "c \<notin> set (reported cs revs')" using Cons.prems(3) set_reported by fastforce
  show ?case
  proof (cases "r = 0")
    case True
    then have "reported (c # cs) revs = reported cs revs'"
      and "collect_events server all_cs (zip hs revs) h = collect_events server all_cs (zip hs' revs') h"
      using hs revs by (cases p, simp)+
    with Cons.IH [OF Cons.prems(1) sub tl] hs revs True show ?thesis by auto
  next
    case False
    have find: "find_context h all_cs (fst p) = Inr (Some c)"
      by (rule find_context_in_step [OF Cons.prems(1) mem])
    from mem Cons.prems(1) obtain ec where ec: "h c = Some ec"
      by (auto simp: in_step_def list_all2_iff)
    let ?h1 = "h(c \<mapsto> ec\<lparr>ec_type := event_type server (fst p) r (ec_type ec)\<rparr>)"
    have same: "same_fds h ?h1" using ec by (simp add: same_fds_def)
    obtain h' where h': "collect_events server all_cs (zip hs' revs') ?h1 = Inr (reported cs revs', h')"
        "same_fds ?h1 h'" "\<forall>d. d \<notin> set (reported cs revs') \<longrightarrow> h' d = ?h1 d"
        "\<forall>(d, q, s) \<in> set (zip cs (zip hs' revs')). s \<noteq> 0 \<longrightarrow>
            ec_type (the (h' d)) = event_type server (fst q) s (ec_type (the (?h1 d)))"
      using Cons.IH [OF in_step_same_fds [OF same Cons.prems(1)] sub tl] by blast
    have "ec_type (the (h' d)) = event_type server (fst q) s (ec_type (the (h d)))"
      if "(d, q, s) \<in> set (zip (c # cs) (zip (p # hs') (r # revs')))" "s \<noteq> 0" for d q s
    proof (cases "d = c")
      case True
      with that Cons.prems(3) have "q = p" "s = r"
        by (auto dest: set_zip_leftD)
      with True h'(3) fresh ec show ?thesis by simp
    next
      case False
      with that have "(d, q, s) \<in> set (zip cs (zip hs' revs'))" by auto
      with h'(4) that(2) False show ?thesis by fastforce
    qed
    moreover have "collect_events server all_cs (zip hs revs) h = Inr (c # reported cs revs', h')"
      using find ec h'(1) False by (cases p) (simp add: hs revs)
    moreover have "reported (c # cs) revs = c # reported cs revs'"
      using False by (simp add: reported_def revs)
    moreover have "same_fds h h'" by (rule same_fds_trans [OF same h'(2)])
    ultimately show ?thesis using h'(3) hs revs by auto
  qed
qed

text \<open>The wait of a well-formed listener, on every branch.\<close>

lemma wait_wf:
  assumes wf: "listener_wf h l" and poll: "poll_ok os"
    and ret: "os_poll os (ml_handle l) t w = ((ret, revs), w')"
  shows "ret \<le> 0 \<Longrightarrow> SocketMultiEventListener_wait os l t h w =
           Inr (mkCode (if ret = 0 then SOCKET_TIMEOUT else SOCKET_EVENT_ERROR), [], h, w')"
    and "0 < ret \<Longrightarrow> \<exists>h'. SocketMultiEventListener_wait os l t h w =
             Inr (mkCode SUCCESS, reported (ml_contexts l) revs, h', w')
           \<and> same_fds h h' \<and> (\<forall>c. c \<notin> set (reported (ml_contexts l) revs) \<longrightarrow> h' c = h c)
           \<and> (\<forall>(c, p, r) \<in> set (zip (ml_contexts l) (zip (ml_handle l) revs)). r \<noteq> 0 \<longrightarrow>
                ec_type (the (h' c)) = event_type (ml_server l) (fst p) r (ec_type (the (h c))))"
proof -
  show "ret \<le> 0 \<Longrightarrow> SocketMultiEventListener_wait os l t h w =
           Inr (mkCode (if ret = 0 then SOCKET_TIMEOUT else SOCKET_EVENT_ERROR), [], h, w')"
    using ret by (auto simp: SocketMultiEventListener_wait_def wait_snapshot_def)
next
  assume "0 < ret"
  have "length revs = length (ml_handle l)"
    using poll ret unfolding poll_ok_def by (metis fst_conv snd_conv)
  moreover have "length (ml_handle l) = length (ml_contexts l)"
    using wf by (auto simp: listener_wf_def in_step_def dest: list_all2_lengthD)
  ultimately show "\<exists>h'. SocketMultiEventListener_wait os l t h w =
             Inr (mkCode SUCCESS, reported (ml_contexts l) revs, h', w')
           \<and> same_fds h h' \<and> (\<forall>c. c \<notin> set (reported (ml_contexts l) revs) \<longrightarrow> h' c = h c)
           \<and> (\<forall>(c, p, r) \<in> set (zip (ml_contexts l) (zip (ml_handle l) revs)). r \<noteq> 0 \<longrightarrow>
                ec_type (the (h' c)) = event_type (ml_server l) (fst p) r (ec_type (the (h c))))"
    using collect_events_spec [of h "ml_contexts l" "ml_handle l" "ml_contexts l" "ml_handle l" revs
        "ml_server l"] wf ret \<open>0 < ret\<close>
    by (auto simp: SocketMultiEventListener_wait_def wait_snapshot_def listener_wf_def in_step_def)
qed

subsection \<open>The registry as an interface\<close>

text \<open>
  What the servers rely on: a registry of contexts with the events each is watched for,
  changed by adding, removing and modifying, whose invariant every operation keeps. \<open>fd_of\<close>
  gives the descriptor of a context, \<open>watched\<close> the descriptors in the registry.
\<close>

locale event_registry =
  fixes add :: "'c \<Rightarrow> SocketEventType \<Rightarrow> 'l \<Rightarrow> 'l result"
    and remove :: "'c \<Rightarrow> 'l \<Rightarrow> 'l result"
    and modify :: "'c \<Rightarrow> SocketEventType \<Rightarrow> 'l \<Rightarrow> 'l result"
    and view :: "'l \<Rightarrow> 'c \<rightharpoonup> events"
    and watched :: "'l \<Rightarrow> fd set"
    and acceptor :: "'l \<Rightarrow> fd"
    and fd_of :: "'c \<Rightarrow> fd option"
    and inv :: "'l \<Rightarrow> bool"
  assumes add_law: "inv l \<Longrightarrow> fd_of c = Some f \<Longrightarrow> events_of ty = Some ev \<Longrightarrow> view l c = None \<Longrightarrow>
      f \<notin> watched l \<Longrightarrow>
      \<exists>l'. add c ty l = Inr l' \<and> inv l' \<and> view l' = (view l)(c \<mapsto> ev)
         \<and> watched l' = insert f (watched l)
         \<and> acceptor l' = (if ty = ACCEPT then f else acceptor l)"
    and remove_law: "inv l \<Longrightarrow> view l c \<noteq> None \<Longrightarrow>
      \<exists>l'. remove c l = Inr l' \<and> inv l' \<and> view l' = (view l)(c := None)
         \<and> watched l' = watched l - {the (fd_of c)} \<and> acceptor l' = acceptor l"
    and modify_law: "inv l \<Longrightarrow> view l c \<noteq> None \<Longrightarrow> events_of ty = Some ev \<Longrightarrow> ty \<noteq> ACCEPT \<Longrightarrow>
      \<exists>l'. modify c ty l = Inr l' \<and> inv l' \<and> view l' = (view l)(c \<mapsto> ev)
         \<and> watched l' = watched l \<and> acceptor l' = acceptor l"
    and view_law: "inv l \<Longrightarrow> view l c \<noteq> None \<Longrightarrow> \<exists>f. fd_of c = Some f \<and> f \<in> watched l"
begin

lemma add_then_remove:
  assumes "inv l" and "fd_of c = Some f" and "events_of ty = Some ev" and "view l c = None"
    and "f \<notin> watched l"
  shows "\<exists>l'. bindR (add c ty l) (remove c) = Inr l' \<and> inv l' \<and> view l' = view l
           \<and> watched l' = watched l"
proof -
  obtain l1 where l1: "add c ty l = Inr l1" "inv l1" "view l1 = (view l)(c \<mapsto> ev)"
      "watched l1 = insert f (watched l)"
    using add_law [OF assms] by auto
  then have "view l1 c \<noteq> None" by simp
  moreover have "(view l)(c := None) = view l" using assms(4) by (simp add: fun_upd_idem)
  ultimately show ?thesis using remove_law [OF l1(2)] l1 assms by fastforce
qed

lemma modify_twice:
  assumes "inv l" and "view l c \<noteq> None" and "events_of ty = Some ev" and "ty \<noteq> ACCEPT"
    and "events_of ty' = Some ev'" and "ty' \<noteq> ACCEPT"
  shows "\<exists>l'. bindR (modify c ty l) (modify c ty') = Inr l' \<and> inv l'
           \<and> view l' = (view l)(c \<mapsto> ev') \<and> watched l' = watched l"
proof -
  obtain l1 where l1: "modify c ty l = Inr l1" "inv l1" "view l1 = (view l)(c \<mapsto> ev)"
      "watched l1 = watched l"
    using modify_law [OF assms(1-4)] by auto
  then have "view l1 c \<noteq> None" by simp
  from modify_law [OF l1(2) this assms(5,6)] l1 show ?thesis by auto
qed

end

interpretation reg: event_registry "addEvent h" "removeEvent h" "modifyEvent h" interest
  "\<lambda>l. fst ` set (ml_handle l)" ml_server "\<lambda>c. map_option ec_fd (h c)" "listener_wf h" for h
proof unfold_locales
  fix l c f ty ev
  assume a: "listener_wf h l" "map_option ec_fd (h c) = Some f" "events_of ty = Some ev"
    "interest l c = None" "f \<notin> fst ` set (ml_handle l)"
  then obtain ec where "h c = Some ec" "ec_fd ec = f" by auto
  moreover have "c \<notin> set (ml_contexts l)" using a dom_interest [OF a(1)] by (auto simp: domIff)
  ultimately show "\<exists>l'. addEvent h c ty l = Inr l' \<and> listener_wf h l'
      \<and> interest l' = (interest l)(c \<mapsto> ev)
      \<and> fst ` set (ml_handle l') = insert f (fst ` set (ml_handle l))
      \<and> ml_server l' = (if ty = ACCEPT then f else ml_server l)"
    using addEvent_wf [OF a(1) _ a(3)] a(5) by fastforce
next
  fix l c
  assume a: "listener_wf h l" "interest l c \<noteq> None"
  then have c: "c \<in> set (ml_contexts l)" using dom_interest [OF a(1)] by auto
  then obtain ec where "h c = Some ec" using listener_wf_alive [OF a(1)] by auto
  with removeEvent_wf [OF a(1) c] show "\<exists>l'. removeEvent h c l = Inr l' \<and> listener_wf h l'
      \<and> interest l' = (interest l)(c := None)
      \<and> fst ` set (ml_handle l') = fst ` set (ml_handle l) - {the (map_option ec_fd (h c))}
      \<and> ml_server l' = ml_server l"
    by auto
next
  fix l c ty ev
  assume a: "listener_wf h l" "interest l c \<noteq> None" "events_of ty = Some ev" "ty \<noteq> ACCEPT"
  then have "c \<in> set (ml_contexts l)" using dom_interest [OF a(1)] by auto
  from modifyEvent_wf [OF a(1) this a(3,4)]
  show "\<exists>l'. modifyEvent h c ty l = Inr l' \<and> listener_wf h l' \<and> interest l' = (interest l)(c \<mapsto> ev)
      \<and> fst ` set (ml_handle l') = fst ` set (ml_handle l) \<and> ml_server l' = ml_server l"
    by auto
next
  fix l c
  assume a: "listener_wf h l" "interest l c \<noteq> None"
  then have c: "c \<in> set (ml_contexts l)" using dom_interest [OF a(1)] by auto
  then obtain ec where ec: "h c = Some ec" using listener_wf_alive [OF a(1)] by auto
  have "ec_fd ec \<in> set (map fst (ml_handle l))"
    using in_step_fds [of h "ml_contexts l" "ml_handle l"] a(1) c ec
    by (force simp: listener_wf_def)
  with ec show "\<exists>f. map_option ec_fd (h c) = Some f \<and> f \<in> fst ` set (ml_handle l)" by simp
qed

subsection \<open>Properties\<close>

text \<open>
  C25. Re-registering a context for other events (the remove and add pair the code uses for
  \<^verbatim>\<open>modifyEvent\<close>) never loses or duplicates it: whatever the two changes, the listener stays
  well formed, watches the same descriptors and only this context's events differ.
\<close>

theorem modify_keeps_registration:
  assumes "listener_wf h l" and "interest l c \<noteq> None"
    and "events_of ty = Some ev" and "ty \<noteq> ACCEPT"
    and "events_of ty' = Some ev'" and "ty' \<noteq> ACCEPT"
  shows "\<exists>l'. bindR (modifyEvent h c ty l) (modifyEvent h c ty') = Inr l' \<and> listener_wf h l'
           \<and> interest l' = (interest l)(c \<mapsto> ev')
           \<and> fst ` set (ml_handle l') = fst ` set (ml_handle l)"
  by (rule reg.modify_twice [OF assms])

definition sample_heap :: "nat ctx_heap" where
  "sample_heap = [0 \<mapsto> \<lparr>ec_fd = 3, ec_type = UNDEFINED\<rparr>, 1 \<mapsto> \<lparr>ec_fd = 4, ec_type = UNDEFINED\<rparr>]"

definition sample_listener :: "nat multi_listener" where
  "sample_listener = \<lparr>ml_server = 3, ml_contexts = [0, 1], ml_handle = [(3, POLLIN), (4, POLLIN)]\<rparr>"

lemma sample_listener_wf: "listener_wf sample_heap sample_listener"
  by (simp add: listener_wf_def in_step_def sample_heap_def sample_listener_def)

theorem modify_keeps_registration_witness:
  "\<exists>l'. bindR (modifyEvent sample_heap 1 WRITE sample_listener) (modifyEvent sample_heap 1 READ) = Inr l'
      \<and> listener_wf sample_heap l' \<and> interest l' 1 = Some POLLIN \<and> interest l' 0 = Some POLLIN"
proof -
  have "interest sample_listener 1 \<noteq> None" "interest sample_listener 0 = Some POLLIN"
    by (simp_all add: interest_def sample_listener_def)
  then show ?thesis
    using modify_keeps_registration [OF sample_listener_wf, of 1 WRITE POLLOUT READ POLLIN]
    by auto
qed

text \<open>
  C12. One wait on a well-formed listener never dereferences a null or freed context, and
  reports exactly the contexts whose descriptors have events, each once and in registration
  order, with the type the priority of the flags gives: disconnection before acceptance
  before reading before writing.
\<close>

theorem wait_reports_events:
  assumes "listener_wf h l" and "poll_ok os"
    and "os_poll os (ml_handle l) t w = ((ret, revs), w')" and "0 < ret"
  shows "\<exists>h'. SocketMultiEventListener_wait os l t h w =
             Inr (mkCode SUCCESS, reported (ml_contexts l) revs, h', w')
           \<and> listener_wf h' l \<and> distinct (reported (ml_contexts l) revs)
           \<and> (\<forall>(c, p, r) \<in> set (zip (ml_contexts l) (zip (ml_handle l) revs)). r \<noteq> 0 \<longrightarrow>
                ec_type (the (h' c)) = event_type (ml_server l) (fst p) r (ec_type (the (h c))))"
proof -
  have "distinct (ml_contexts l)" using assms(1) by (simp add: listener_wf_def in_step_def)
  with wait_wf(2) [OF assms(1-4)] assms(1) show ?thesis
    by (auto intro: listener_wf_same_fds distinct_reported)
qed

text \<open>
  The one-socket wait gives priority to failure: an error pending on the socket decides
  the result, and a hang-up is reported as a closed connection even when \<^verbatim>\<open>poll\<close> reports
  unread input with it.
\<close>

theorem hangup_hides_input:
  assumes "os_poll os [l] t w = ((ret, [revents]), w')" and "0 < ret"
    and "has_event revents POLLHUP" and "\<not> has_event revents POLLERR"
  shows "SocketEventListener_wait os l t w = (mkCode SOCKET_CLOSED, w')"
  using assms by (simp add: SocketEventListener_wait_def wait_with_def)

theorem wait_reports_events_witness:
  "\<exists>h'. SocketMultiEventListener_wait
            (null_os\<lparr>os_poll := (\<lambda>fds t w. ((1, map (\<lambda>p. if fst p = 4 then 0x11 else 0) fds), w))\<rparr>)
            sample_listener 100 sample_heap () = Inr (mkCode SUCCESS, [1], h', ())
      \<and> ec_type (the (h' 1)) = DISCONNECTED"
proof -
  let ?os = "null_os\<lparr>os_poll := (\<lambda>fds t w. ((1, map (\<lambda>p. if fst p = 4 then 0x11 else 0) fds), w))\<rparr>
      :: unit os"
  have "poll_ok ?os" by (simp add: poll_ok_def)
  from wait_reports_events [OF sample_listener_wf this, of 100 "()" 1 "[0, 0x11]" "()"]
  show ?thesis
    by (auto simp: sample_listener_def sample_heap_def event_type_def has_event_def poll_consts)
qed

theorem hangup_hides_input_witness:
  "SocketEventListener_wait (null_os\<lparr>os_poll := (\<lambda>fds t w. ((1, [0x11]), w))\<rparr>) (5, POLLIN) 100 ()
     = (mkCode SOCKET_CLOSED, ())"
  by (rule hangup_hides_input [where ret = 1 and revents = "0x11"])
    (simp_all add: has_event_def poll_consts)

end
