(* ===== verification/Channels.thy ===== *)
theory Channels
  imports Event_Listener
begin

text \<open>
  The interfaces a writer relies on, shared by the client and the broadcast server: a
  socket that takes a prefix of what it is given, a wait and a pause that leave the stream
  alone, and, for the client, a socket that never asks to try again.
\<close>

text \<open>The calls that only wait leave an observation of the world alone.\<close>

definition quiet :: "'w os \<Rightarrow> ('w \<Rightarrow> 'a) \<Rightarrow> bool" where
  "quiet os obs \<longleftrightarrow> (\<forall>fds t w. obs (snd (os_poll os fds t w)) = obs w)
     \<and> (\<forall>s w. obs (snd (os_so_error os s w)) = obs w)
     \<and> (\<forall>ms w. obs (os_sleep os ms w) = obs w)"

lemma wait_quiet: "quiet os obs \<Longrightarrow> obs (snd (SocketEventListener_wait os l t w)) = obs w"
  by (auto simp: SocketEventListener_wait_def wait_with_def quiet_def Let_def split: prod.splits)
    (metis snd_conv)+

lemma open_listener:
  "SocketEventListener_open f CONNECT = Inr (f, POLLIN OR POLLOUT)"
  "SocketEventListener_open f READ = Inr (f, POLLIN)"
  "SocketEventListener_open f WRITE = Inr (f, POLLOUT)"
  by (simp_all add: SocketEventListener_open_def)

text \<open>
  \<open>sent\<close> is the stream the peer receives; \<open>contract\<close> the condition on the environment under
  which the laws hold.
\<close>

locale byte_channel =
  fixes send :: "byte list \<Rightarrow> 'w \<Rightarrow> SocketResult \<times> 'w"
    and wait :: "'w \<Rightarrow> SocketResult \<times> 'w"
    and nap :: "'w \<Rightarrow> 'w"
    and sent :: "'w \<Rightarrow> byte list"
    and contract :: bool
  assumes send_law: "contract \<Longrightarrow> length buf < 2 ^ 31 \<Longrightarrow> send buf w = (r, w') \<Longrightarrow>
      sr_code r \<noteq> SOCKET_TIMEOUT
      \<and> (if sr_code r = SUCCESS
         then 0 < sr_bytes r \<and> sr_bytes r \<le> int (length buf)
            \<and> sent w' = sent w @ take (nat (sr_bytes r)) buf
         else sent w' = sent w)"
    and wait_law: "contract \<Longrightarrow> sent (snd (wait w)) = sent w"
    and nap_law: "contract \<Longrightarrow> sent (nap w) = sent w"
begin

text \<open>One write of the rest of a buffer: the chunk is in bounds, and what a success adds.\<close>

lemma rest_chunk:
  assumes "contract" and len: "length buffer = unat n" and small: "unat n < 2 ^ 31"
    and "written \<le> n"
  shows "read_mem buffer written (n - written) = Inr (drop (unat written) buffer)"
    and "send (drop (unat written) buffer) w = (r, w') \<Longrightarrow> sr_code r \<noteq> SOCKET_TIMEOUT
      \<and> (if sr_code r = SUCCESS
         then written < written + size_of (sr_bytes r) \<and> written + size_of (sr_bytes r) \<le> n
            \<and> sent w' = sent w
                @ drop (unat written) (take (unat (written + size_of (sr_bytes r))) buffer)
         else sent w' = sent w)"
proof -
  have wn: "unat written \<le> unat n" using assms(4) by (simp add: word_le_nat_alt)
  have "unat (n - written) = unat n - unat written" using assms(4) by (rule unat_sub_size)
  then show "read_mem buffer written (n - written) = Inr (drop (unat written) buffer)"
    using wn len by (simp add: read_mem_def)
  assume send: "send (drop (unat written) buffer) w = (r, w')"
  have "length (drop (unat written) buffer) < 2 ^ 31" using len small by simp
  note law = send_law [OF \<open>contract\<close> this send]
  show "sr_code r \<noteq> SOCKET_TIMEOUT
      \<and> (if sr_code r = SUCCESS
         then written < written + size_of (sr_bytes r) \<and> written + size_of (sr_bytes r) \<le> n
            \<and> sent w' = sent w
                @ drop (unat written) (take (unat (written + size_of (sr_bytes r))) buffer)
         else sent w' = sent w)"
  proof (cases "sr_code r = SUCCESS")
    case False
    with law show ?thesis by simp
  next
    case True
    let ?k = "nat (sr_bytes r)"
    have k: "0 < ?k" "?k \<le> unat n - unat written"
      using True law len by (simp_all add: nat_le_iff)
    have "unat (size_of (sr_bytes r)) = ?k" using k small by (simp add: unat_size_of)
    then have wr: "unat (written + size_of (sr_bytes r)) = unat written + ?k"
      using k(2) small wn by (simp add: unat_add_size)
    with True law k wn show ?thesis
      by (simp add: word_le_nat_alt word_less_nat_alt drop_take)
  qed
qed

end

text \<open>A blocking socket: a failed write never means "try again".\<close>

locale blocking_channel = byte_channel +
  assumes blocking_law: "contract \<Longrightarrow> length buf < 2 ^ 31 \<Longrightarrow>
      sr_code (fst (send buf w)) \<noteq> SOCKET_CONNECTION_NEED_TO_BE_BLOCKED"

end
