(* ===== verification/Client.thy ===== *)
theory Client
  imports Channels
begin

text \<open>
  \<^verbatim>\<open>SocketClientImpl\<close>: opening, connecting, reading, writing and closing, over the client
  sockets and the one-socket listener. The loops whose counter the code does not always
  advance are \<open>partial_function (option)\<close>s, so that never returning is the value \<open>None\<close>.
\<close>

subsection \<open>State\<close>

record client =
  cl_socket :: "client_socket option"
  cl_cfg :: SocketConfiguration
  cl_tls :: SocketTLSClientConfiguration

definition SocketClientImpl_new ::
  "SocketConfiguration \<Rightarrow> SocketTLSClientConfiguration \<Rightarrow> client" where
  "SocketClientImpl_new cfg tls = \<lparr>cl_socket = None, cl_cfg = cfg, cl_tls = tls\<rparr>"

text \<open>The member access \<^verbatim>\<open>_socket->...\<close>.\<close>

definition the_socket :: "client \<Rightarrow> client_socket result" where
  "the_socket c = (case cl_socket c of None \<Rightarrow> Inl NullDeref | Some s \<Rightarrow> Inr s)"

text \<open>Sequencing a step that may fault before a loop that may not return.\<close>

fun bindO :: "'a result \<Rightarrow> ('a \<Rightarrow> 'b result option) \<Rightarrow> 'b result option" where
  "bindO (Inl e) f = Some (Inl e)"
| "bindO (Inr x) f = f x"

subsection \<open>Opening and closing\<close>

text \<open>
  The address reaches the socket as a host name, which only a TLS socket that verifies the
  peer's name reads.
\<close>

definition SocketClientImpl_open ::
  "'w os \<Rightarrow> 'w ssl_lib \<Rightarrow> client \<Rightarrow> 'w \<Rightarrow> (SocketResult \<times> client \<times> 'w) result" where
  "SocketClientImpl_open os lib c w =
     (let cfg = cl_cfg c; tls = cl_tls c in
      bindR (if tc_valid tls \<and> tc_verify_hostname tls then c_str (cfg_ip cfg) else Inr '''')
        (\<lambda>hostname.
      bindR (ClientActiveSocketContainer_new os lib (tc_valid tls) (cfg_is_unix_domain cfg) tls
               (Some hostname) w)
        (\<lambda>(s, w). Inr (client_valid s, c\<lparr>cl_socket := Some s\<rparr>, w))))"

definition SocketClientImpl_close ::
  "'w os \<Rightarrow> 'w ssl_lib \<Rightarrow> client \<Rightarrow> 'w \<Rightarrow> (client \<times> 'w) result" where
  "SocketClientImpl_close os lib c w =
     bindR (the_socket c) (\<lambda>s.
       let (s, w) = client_disconnect os lib s w;
           (s, w) = client_close os lib s w
       in Inr (c\<lparr>cl_socket := Some s\<rparr>, w))"

definition SocketClientImpl_isConnected ::
  "'w os \<Rightarrow> client \<Rightarrow> 'w \<Rightarrow> (SocketResult \<times> 'w) result" where
  "SocketClientImpl_isConnected os c w =
     bindR (the_socket c) (\<lambda>s. Inr (client_isConnected os s w))"

subsection \<open>Connecting\<close>

definition in_progress :: "SocketResult \<Rightarrow> bool" where
  "in_progress r \<longleftrightarrow> sr_code r = SOCKET_CONNECTION_IN_PROGRESS
                  \<or> sr_code r = SOCKET_CONNECTION_NEED_TO_BE_BLOCKED"

text \<open>
  The attempts: the counter advances once at the end of each iteration, and once more when
  the wait times out. An early return hands back a result that is not \<open>SUCCESS\<close>, which the
  test after the loop would return too.
\<close>

function connect_attempts ::
  "'w os \<Rightarrow> client_socket \<Rightarrow> SocketConfiguration \<Rightarrow> SocketAddress \<Rightarrow> event_listener
   \<Rightarrow> nat \<Rightarrow> SocketResult \<Rightarrow> 'w \<Rightarrow> SocketResult \<times> 'w" where
  "connect_attempts os s cfg address l i result w =
     (if i < unat (cfg_max_retries cfg) then
        (let (result, w) = client_connect os s address (cfg_read_timeout cfg) (cfg_write_timeout cfg) w
         in if sr_code result = SUCCESS then (result, w)
            else if in_progress result then
              (let (result, w) = SocketEventListener_wait os l (cfg_read_timeout cfg) w
               in if sr_code result = SOCKET_TIMEOUT then
                    connect_attempts os s cfg address l (i + 1 + 1) result
                      (os_sleep os (cfg_time_between_retries cfg) w)
                  else (result, w))
            else
              connect_attempts os s cfg address l (i + 1) result
                (os_sleep os (cfg_time_between_retries cfg) w))
      else (result, w))"
  by pat_completeness auto
termination
  by (relation "measure (\<lambda>(os, s, cfg, address, l, i, result, w). unat (cfg_max_retries cfg) - i)")
    auto

text \<open>The handshake, retried until the library has completed it.\<close>

partial_function (option) handshake ::
  "'w os \<Rightarrow> 'w ssl_lib \<Rightarrow> client_socket \<Rightarrow> SocketConfiguration \<Rightarrow> event_listener
   \<Rightarrow> nat \<Rightarrow> SocketResult \<Rightarrow> 'w \<Rightarrow> (SocketResult \<times> 'w) result option" where
  "handshake os lib s cfg l i result w =
     (if i < unat (cfg_max_retries cfg) then
        (case client_reconnect os lib s False w of Inl e \<Rightarrow> Some (Inl e)
         | Inr (result, w) \<Rightarrow>
            if sr_code result = SUCCESS then Some (Inr (result, w))
            else if in_progress result then
              (let (result, w) = SocketEventListener_wait os l (cfg_read_timeout cfg) w
               in if sr_code result = SOCKET_TIMEOUT then handshake os lib s cfg l (i + 1) result w
                  else if sr_code result \<noteq> SUCCESS then Some (Inr (result, w))
                  else handshake os lib s cfg l i result w)
            else Some (Inr (result, w)))
      else Some (Inr (result, w)))"

text \<open>
  The probe after the handshake: the outcome is the function's return value or the end of
  the loop, \<open>Inl\<close> and \<open>Inr\<close>; only the latter is followed by the pause of 100 ms.
\<close>

partial_function (option) probe ::
  "'w os \<Rightarrow> 'w ssl_lib \<Rightarrow> client_socket \<Rightarrow> SocketConfiguration \<Rightarrow> event_listener
   \<Rightarrow> nat \<Rightarrow> SocketResult \<Rightarrow> 'w \<Rightarrow> ((SocketResult + SocketResult) \<times> 'w) result option" where
  "probe os lib s cfg l i result w =
     (if i < unat (cfg_max_retries cfg) then
        (case client_reconnect os lib s True w of Inl e \<Rightarrow> Some (Inl e)
         | Inr (result, w) \<Rightarrow>
            if sr_code result = SUCCESS then Some (Inr (Inr result, w))
            else if in_progress result then
              (let (result, w) = SocketEventListener_wait os l (cfg_read_timeout cfg) w
               in if sr_code result = SOCKET_TIMEOUT then Some (Inr (Inl (mkCode SUCCESS), w))
                  else if sr_code result \<noteq> SUCCESS then Some (Inr (Inl result, w))
                  else probe os lib s cfg l i result w)
            else Some (Inr (Inl result, w)))
      else Some (Inr (Inr result, w)))"

text \<open>
  The test after the address is constructed reads the fresh \<open>result\<close>, which is \<open>SUCCESS\<close>:
  an address error goes unnoticed, as in the code.
\<close>

definition SocketClientImpl_connect ::
  "'w os \<Rightarrow> 'w ssl_lib \<Rightarrow> client \<Rightarrow> 'w \<Rightarrow> (SocketResult \<times> 'w) result option" where
  "SocketClientImpl_connect os lib c w =
     (let cfg = cl_cfg c; result = mkCode SUCCESS in
      bindO (c_str (cfg_ip cfg)) (\<lambda>ip.
      bindO (c_str (cfg_port cfg)) (\<lambda>port.
      bindO (SocketAddress_new os ip port False (cfg_is_unix_domain cfg) w) (\<lambda>(address, w).
        if sr_code result \<noteq> SUCCESS then Some (Inr (result, w)) else
      bindO (the_socket c) (\<lambda>s.
      bindO (SocketEventListener_open (client_descriptor s) CONNECT) (\<lambda>l.
        let (result, w) = connect_attempts os s cfg address l 0 result w in
        if sr_code result \<noteq> SUCCESS then Some (Inr (result, w)) else
        (case handshake os lib s cfg l 0 result w of None \<Rightarrow> None
         | Some (Inl e) \<Rightarrow> Some (Inl e)
         | Some (Inr (result, w)) \<Rightarrow>
            if sr_code result \<noteq> SUCCESS then Some (Inr (result, w)) else
            bindO (SocketEventListener_open (client_descriptor s) READ) (\<lambda>l.
              (case probe os lib s cfg l 0 result w of None \<Rightarrow> None
               | Some (Inl e) \<Rightarrow> Some (Inl e)
               | Some (Inr (Inl result, w)) \<Rightarrow> Some (Inr (result, w))
               | Some (Inr (Inr result, w)) \<Rightarrow> Some (Inr (result, os_sleep os 100 w)))))))))))"

subsection \<open>Reading\<close>

text \<open>The caller's buffer is a list of bytes; what the socket delivers lands at its start.\<close>

function read_loop ::
  "'w os \<Rightarrow> 'w ssl_lib \<Rightarrow> client_socket \<Rightarrow> SocketConfiguration \<Rightarrow> event_listener \<Rightarrow> size_t
   \<Rightarrow> nat \<Rightarrow> SocketResult \<Rightarrow> byte list \<Rightarrow> 'w \<Rightarrow> (SocketResult \<times> byte list \<times> 'w) result" where
  "read_loop os lib s cfg l n i result buffer w =
     (if i < unat (cfg_max_retries cfg) then
        (let (result, w) = SocketEventListener_wait os l (cfg_read_timeout cfg) w;
             nap = os_sleep os (cfg_time_between_retries cfg)
         in if sr_code result = SOCKET_TIMEOUT then
              read_loop os lib s cfg l n (i + 1) result buffer (nap w)
            else if sr_code result \<noteq> SUCCESS then Inr (result, buffer, w)
            else
              (case client_read os lib s n w of Inl e \<Rightarrow> Inl e
               | Inr ((result, data), w) \<Rightarrow>
                 (case write_mem buffer 0 data of Inl e \<Rightarrow> Inl e
                  | Inr buffer \<Rightarrow>
                     if sr_bytes result = 0 then Inr (mkCode SOCKET_CLOSED, buffer, w)
                     else if sr_code result = SOCKET_TIMEOUT
                             \<or> sr_code result = SOCKET_CONNECTION_NEED_TO_BE_BLOCKED
                     then read_loop os lib s cfg l n (i + 1) result buffer (nap w)
                     else Inr (result, buffer, w))))
      else Inr (result, buffer, w))"
  by pat_completeness auto
termination
  by (relation "measure (\<lambda>(os, lib, s, cfg, l, n, i, result, buffer, w).
                           unat (cfg_max_retries cfg) - i)") auto

definition SocketClientImpl_read ::
  "'w os \<Rightarrow> 'w ssl_lib \<Rightarrow> client \<Rightarrow> byte list \<Rightarrow> size_t \<Rightarrow> 'w
   \<Rightarrow> (SocketResult \<times> byte list \<times> 'w) result" where
  "SocketClientImpl_read os lib c buffer n w =
     bindR (the_socket c) (\<lambda>s.
     bindR (SocketEventListener_open (client_descriptor s) READ) (\<lambda>l.
       read_loop os lib s (cl_cfg c) l n 0 (mkCode SUCCESS) buffer w))"

subsection \<open>Writing\<close>

text \<open>
  \<open>written_size\<close> is a \<^verbatim>\<open>size_t\<close>: after a blocked write the code adds the result's \<open>-1\<close>,
  converted to \<^verbatim>\<open>size_t\<close>, to it. \<open>send\<close>, \<open>wait\<close> and \<open>nap\<close> are the calls of the loop.
\<close>

partial_function (option) write_loop ::
  "(byte list \<Rightarrow> 'w \<Rightarrow> (SocketResult \<times> 'w) result) \<Rightarrow> ('w \<Rightarrow> SocketResult \<times> 'w) \<Rightarrow> ('w \<Rightarrow> 'w) \<Rightarrow> nat
   \<Rightarrow> byte list \<Rightarrow> size_t \<Rightarrow> nat \<Rightarrow> size_t \<Rightarrow> SocketResult \<Rightarrow> 'w
   \<Rightarrow> (SocketResult \<times> size_t \<times> 'w) result option" where
  "write_loop send wait nap max_retries buffer n i written result w =
     (if i < max_retries then
        (let (result, w) = wait w
         in if sr_code result = SOCKET_TIMEOUT then
              write_loop send wait nap max_retries buffer n (i + 1) written result (nap w)
            else if sr_code result \<noteq> SUCCESS then Some (Inr (result, written, w))
            else case read_mem buffer written (n - written) of Inl e \<Rightarrow> Some (Inl e)
              | Inr chunk \<Rightarrow>
                (case send chunk w of Inl e \<Rightarrow> Some (Inl e)
                 | Inr (result, w) \<Rightarrow>
                 let i = (if sr_code result = SOCKET_TIMEOUT then i + 1 else i)
                 in if sr_code result \<noteq> SOCKET_TIMEOUT
                       \<and> sr_code result \<noteq> SOCKET_CONNECTION_NEED_TO_BE_BLOCKED
                       \<and> sr_code result \<noteq> SUCCESS
                    then Some (Inr (result, written, w))
                    else let written = written + size_of (sr_bytes result)
                      in if written = n then Some (Inr (result, written, w))
                         else write_loop send wait nap max_retries buffer n i written result (nap w)))
      else Some (Inr (result, written, w)))"

definition SocketClientImpl_write ::
  "'w os \<Rightarrow> 'w ssl_lib \<Rightarrow> client \<Rightarrow> byte list \<Rightarrow> size_t \<Rightarrow> 'w \<Rightarrow> (SocketResult \<times> 'w) result option"
  where
  "SocketClientImpl_write os lib c buffer n w =
     bindO (the_socket c) (\<lambda>s.
     bindO (SocketEventListener_open (client_descriptor s) WRITE) (\<lambda>l.
       case write_loop (client_write os lib s)
              (SocketEventListener_wait os l (cfg_write_timeout (cl_cfg c)))
              (os_sleep os (cfg_time_between_retries (cl_cfg c)))
              (unat (cfg_max_retries (cl_cfg c))) buffer n 0 0 (mkCode SUCCESS) w of
         None \<Rightarrow> None
       | Some (Inl e) \<Rightarrow> Some (Inl e)
       | Some (Inr (result, written, w)) \<Rightarrow>
           Some (Inr (mkResult (sr_code result) (i32 (uint written)), w))))"

declare connect_attempts.simps [simp del] read_loop.simps [simp del]

subsection \<open>Channels\<close>

context blocking_channel begin

text \<open>
  The write loop returns, and has sent exactly the first bytes it says it has; with
  \<open>SUCCESS\<close> all of them.
\<close>

lemma write_loop_sends:
  assumes "contract" and len: "length buffer = unat n" and small: "unat n < 2 ^ 31"
    and "written \<le> n" and "i < max_retries \<or> sr_code r0 \<noteq> SUCCESS"
  shows "\<exists>r written' w'. write_loop (\<lambda>buf w. Inr (send buf w)) wait nap max_retries buffer n i written r0 w
        = Some (Inr (r, written', w'))
      \<and> written \<le> written' \<and> written' \<le> n
      \<and> sent w' = sent w @ drop (unat written) (take (unat written') buffer)
      \<and> (sr_code r = SUCCESS \<longrightarrow> written' = n)"
  using assms(4,5)
proof (induction "(max_retries - i) + (unat n - unat written)" arbitrary: i written r0 w
    rule: less_induct)
  case less
  let ?loop = "write_loop (\<lambda>buf w. Inr (send buf w)) wait nap max_retries buffer n"
  have wn: "unat written \<le> unat n" using less.prems(1) by (simp add: word_le_nat_alt)
  show ?case
  proof (cases "i < max_retries")
    case False
    with less.prems show ?thesis by (subst write_loop.simps) auto
  next
    case i: True
    obtain rw w1 where wait: "wait w = (rw, w1)" by fastforce
    with \<open>contract\<close> have s1: "sent w1 = sent w" using wait_law [of w] by simp
    consider (timeout) "sr_code rw = SOCKET_TIMEOUT"
      | (fail) "sr_code rw \<noteq> SOCKET_TIMEOUT" "sr_code rw \<noteq> SUCCESS"
      | (ready) "sr_code rw = SUCCESS" by blast
    then show ?thesis
    proof cases
      case timeout
      with i wait have "?loop i written r0 w = ?loop (i + 1) written rw (nap w1)"
        by (subst write_loop.simps) simp
      with less.hyps [of "i + 1" written rw "nap w1"] i less.prems(1) timeout s1 \<open>contract\<close>
      show ?thesis by (simp add: nap_law)
    next
      case fail
      with i wait less.prems(1) s1 show ?thesis by (subst write_loop.simps) simp
    next
      case ready
      let ?chunk = "drop (unat written) buffer"
      note chunk = rest_chunk(1) [OF \<open>contract\<close> len small less.prems(1)]
      obtain rs w2 where send: "send ?chunk w1 = (rs, w2)" by fastforce
      note law = rest_chunk(2) [OF \<open>contract\<close> len small less.prems(1) send]
      have "length ?chunk < 2 ^ 31" using len small by simp
      from blocking_law [OF \<open>contract\<close> this, of w1] send
      have nb: "sr_code rs \<noteq> SOCKET_CONNECTION_NEED_TO_BE_BLOCKED" by simp
      show ?thesis
      proof (cases "sr_code rs = SUCCESS")
        case False
        with law nb have "?loop i written r0 w = Some (Inr (rs, written, w2))"
          using i wait ready chunk send by (subst write_loop.simps) simp
        with False law s1 less.prems(1) show ?thesis by simp
      next
        case True
        let ?wr = "written + size_of (sr_bytes rs)"
        have le: "written < ?wr" "written \<le> ?wr" "?wr \<le> n"
          and s2: "sent w2 = sent w @ drop (unat written) (take (unat ?wr) buffer)"
          using True law s1 by (auto intro: less_imp_le)
        show ?thesis
        proof (cases "?wr = n")
          case full: True
          have "?loop i written r0 w = Some (Inr (rs, ?wr, w2))"
            using i wait ready chunk send True full by (subst write_loop.simps) simp
          with le s2 full show ?thesis by simp
        next
          case more: False
          have eq: "?loop i written r0 w = ?loop i ?wr rs (nap w2)"
            using i wait ready chunk send True more by (subst write_loop.simps) simp
          have "(max_retries - i) + (unat n - unat ?wr) < (max_retries - i) + (unat n - unat written)"
            using le(1,3) by (simp add: word_less_nat_alt word_le_nat_alt)
          from less.hyps [OF this le(3)] i obtain r written' w' where
              loop: "?loop i ?wr rs (nap w2) = Some (Inr (r, written', w'))"
                "?wr \<le> written'" "written' \<le> n"
                "sent w' = sent (nap w2) @ drop (unat ?wr) (take (unat written') buffer)"
                "sr_code r = SUCCESS \<longrightarrow> written' = n" by blast
          have "drop (unat written) (take (unat ?wr) buffer)
                @ drop (unat ?wr) (take (unat written') buffer)
              = drop (unat written) (take (unat written') buffer)"
            using loop(2) le(2) by (simp add: word_le_nat_alt drop_take_append)
          with loop s2 le(2) \<open>contract\<close> show ?thesis by (simp add: eq nap_law)
        qed
      qed
    qed
  qed
qed

end

subsection \<open>The client's sockets as channels\<close>

text \<open>
  The kernel's or the library's write under the socket, and whether its failure means
  "try again later".
\<close>

fun raw_send ::
  "'w os \<Rightarrow> 'w ssl_lib \<Rightarrow> client_socket \<Rightarrow> byte list \<Rightarrow> 'w \<Rightarrow> int \<times> 'w" where
  "raw_send os lib (PlainSocket s) buf w = os_send os (bs_fd s) buf w"
| "raw_send os lib (TlsSocket s) buf w = lib_write lib (tls_ssl s) buf (int (length buf)) w"

fun would_block :: "'w os \<Rightarrow> 'w ssl_lib \<Rightarrow> client_socket \<Rightarrow> int \<Rightarrow> 'w \<Rightarrow> bool" where
  "would_block os lib (PlainSocket s) r w \<longleftrightarrow> os_errno os w = EWOULDBLOCK"
| "would_block os lib (TlsSocket s) r w \<longleftrightarrow>
     (let e = lib_get_error lib (tls_ssl s) r w
      in e = SSL_ERROR_WANT_READ \<or> e = SSL_ERROR_WANT_WRITE
         \<or> e = SSL_ERROR_SYSCALL \<and> os_errno os w = EWOULDBLOCK)"

text \<open>
  The documented behaviour of a blocking \<^verbatim>\<open>send\<close> or, on a session that is there, of
  \<^verbatim>\<open>SSL_write\<close>: it takes a prefix of its argument, whose length it returns, or fails; and,
  here, never asks to try again.
\<close>

definition blocking_sends ::
  "'w os \<Rightarrow> 'w ssl_lib \<Rightarrow> client_socket \<Rightarrow> ('w \<Rightarrow> byte list) \<Rightarrow> bool" where
  "blocking_sends os lib s sent \<longleftrightarrow> has_session lib s \<and> quiet os sent
     \<and> (\<forall>buf w. length buf < 2 ^ 31 \<longrightarrow>
          (case raw_send os lib s buf w of (r, w') \<Rightarrow>
             - 1 \<le> r \<and> r \<le> int (length buf) \<and> sent w' = sent w @ take (nat r) buf
             \<and> (r \<le> 0 \<longrightarrow> \<not> would_block os lib s r w')))"

lemma blocking_sendsD:
  assumes "blocking_sends os lib s sent" and "length buf < 2 ^ 31"
    and raw: "raw_send os lib s buf w = (r, w')"
  shows "- 1 \<le> r \<and> r \<le> int (length buf) \<and> sent w' = sent w @ take (nat r) buf
    \<and> (r \<le> 0 \<longrightarrow> \<not> would_block os lib s r w')"
  using assms(1) [unfolded blocking_sends_def, THEN conjunct2, THEN conjunct2, THEN spec, of buf, THEN spec, of w,
      THEN mp, OF assms(2)] by (simp add: raw)

lemma would_block_code:
  "sr_code (createResult err n) = SOCKET_CONNECTION_NEED_TO_BE_BLOCKED \<longleftrightarrow> n \<le> 0 \<and> err = EWOULDBLOCK"
  by (cases err) (simp_all add: createResult_code)

lemma client_write_result:
  assumes "raw_send os lib s buf w = (r, w')" and "length buf < 2 ^ 31"
    and "- 1 \<le> r" and "r \<le> int (length buf)" and "r \<le> 0 \<Longrightarrow> \<not> would_block os lib s r w'"
    and "has_session lib s"
  shows "\<exists>res. client_write os lib s buf w = Inr (res, w') \<and> sr_bytes res = r
    \<and> (sr_code res = SUCCESS \<longleftrightarrow> 0 < r)
    \<and> sr_code res \<noteq> SOCKET_TIMEOUT \<and> sr_code res \<noteq> SOCKET_CONNECTION_NEED_TO_BE_BLOCKED"
proof (cases s)
  case (PlainSocket b)
  have "i32 r = r" using assms(2-4) by (simp add: i32_small)
  then show ?thesis using assms PlainSocket
    by (auto simp: socket_send_def recv_result_def result_simps would_block_code)
next
  case (TlsSocket b)
  have "i32 (int (length buf)) = int (length buf)" using assms(2) by (simp add: i32_small)
  then have w: "client_write os lib s buf w
      = Inr (createTLSResult lib (os_errno os) (tls_ssl b) r w', w')"
    using assms TlsSocket by (simp add: TLSClientActiveSocket_write_def with_session_iff)
  have "sr_code (createTLSResult lib (os_errno os) (tls_ssl b) r w')
      \<noteq> SOCKET_CONNECTION_NEED_TO_BE_BLOCKED"
    using assms TlsSocket by (auto simp: createTLSResult_def Let_def would_block_code)
  with w show ?thesis by (simp add: result_simps)
qed

text \<open>The write of a socket whose session is there, which has no fault.\<close>

definition sure_write ::
  "'w os \<Rightarrow> 'w ssl_lib \<Rightarrow> client_socket \<Rightarrow> byte list \<Rightarrow> 'w \<Rightarrow> SocketResult \<times> 'w" where
  "sure_write os lib s buf w = (case client_write os lib s buf w of Inr y \<Rightarrow> y)"

lemma sure_write: "has_session lib s \<Longrightarrow> client_write os lib s = (\<lambda>buf w. Inr (sure_write os lib s buf w))"
proof (intro ext)
  fix buf w
  assume "has_session lib s"
  then obtain y where "client_write os lib s buf w = Inr y" using session_calls(3) [of lib s os buf w]
    by blast
  then show "client_write os lib s buf w = Inr (sure_write os lib s buf w)" by (simp add: sure_write_def)
qed

interpretation chan: blocking_channel "sure_write os lib s" "SocketEventListener_wait os l t"
  "os_sleep os ms" sent "blocking_sends os lib s sent" for os lib s l t ms sent
proof unfold_locales
  fix buf :: "byte list" and w r w'
  assume c: "blocking_sends os lib s sent" and len: "length buf < 2 ^ 31"
    and send: "sure_write os lib s buf w = (r, w')"
  then have there: "has_session lib s" by (simp add: blocking_sends_def)
  obtain n w1 where raw: "raw_send os lib s buf w = (n, w1)" by fastforce
  then have n: "- 1 \<le> n" "n \<le> int (length buf)" "sent w1 = sent w @ take (nat n) buf"
      "n \<le> 0 \<Longrightarrow> \<not> would_block os lib s n w1"
    using blocking_sendsD [OF c len raw] by simp_all
  from client_write_result [OF raw len n(1,2,4) there] send n sure_write [OF there, of os]
  show "sr_code r \<noteq> SOCKET_TIMEOUT
      \<and> (if sr_code r = SUCCESS
         then 0 < sr_bytes r \<and> sr_bytes r \<le> int (length buf)
            \<and> sent w' = sent w @ take (nat (sr_bytes r)) buf
         else sent w' = sent w)"
    by auto
next
  fix w
  assume "blocking_sends os lib s sent"
  then show "sent (snd (SocketEventListener_wait os l t w)) = sent w"
    by (simp add: blocking_sends_def wait_quiet)
next
  fix w
  assume "blocking_sends os lib s sent"
  then show "sent (os_sleep os ms w) = sent w" by (simp add: blocking_sends_def quiet_def)
next
  fix buf :: "byte list" and w
  assume c: "blocking_sends os lib s sent" and len: "length buf < 2 ^ 31"
  obtain n w1 where raw: "raw_send os lib s buf w = (n, w1)" by fastforce
  note n = blocking_sendsD [OF c len raw]
  have there: "has_session lib s" using c by (simp add: blocking_sends_def)
  show "sr_code (fst (sure_write os lib s buf w)) \<noteq> SOCKET_CONNECTION_NEED_TO_BE_BLOCKED"
    using client_write_result [OF raw len _ _ _ there] n sure_write [OF there, of os] by fastforce
qed

lemma client_write_sends:
  assumes "cl_socket c = Some s" and "blocking_sends os lib s sent"
    and "cfg_max_retries (cl_cfg c) \<noteq> 0" and "length buffer < 2 ^ 31"
  shows "\<exists>r w' k. SocketClientImpl_write os lib c buffer (of_nat (length buffer)) w = Some (Inr (r, w'))
      \<and> sr_bytes r = int k \<and> k \<le> length buffer \<and> sent w' = sent w @ take k buffer
      \<and> (sr_code r = SUCCESS \<longrightarrow> k = length buffer)"
proof -
  let ?cfg = "cl_cfg c" and ?n = "of_nat (length buffer) :: size_t"
  have n: "length buffer = unat ?n" "unat ?n < 2 ^ 31"
    using assms(4) by (simp_all add: unat_of_nat_size)
  have "0 < unat (cfg_max_retries ?cfg)" using assms(3) by (simp add: unat_gt_0)
  then obtain r written w' where
      loop: "write_loop (client_write os lib s)
          (SocketEventListener_wait os (client_descriptor s, POLLOUT) (cfg_write_timeout ?cfg))
          (os_sleep os (cfg_time_between_retries ?cfg)) (unat (cfg_max_retries ?cfg)) buffer ?n 0 0
          (mkCode SUCCESS) w = Some (Inr (r, written, w'))"
      "written \<le> ?n" "sent w' = sent w @ take (unat written) buffer"
      "sr_code r = SUCCESS \<longrightarrow> written = ?n"
    using sure_write [of lib s os] assms(2) chan.write_loop_sends [OF assms(2) n, of 0 0 "unat (cfg_max_retries ?cfg)" "mkCode SUCCESS"
        "(client_descriptor s, POLLOUT)" "cfg_write_timeout ?cfg" "cfg_time_between_retries ?cfg" w]
    by (auto simp: blocking_sends_def)
  have "unat written \<le> length buffer" using loop(2) n(1) by (simp add: word_le_nat_alt)
  moreover from this have "unat written < 2 ^ 31" using assms(4) by (rule le_less_trans)
  then have "i32 (uint written) = int (unat written)" by (rule i32_unat)
  ultimately have "SocketClientImpl_write os lib c buffer ?n w
      = Some (Inr (mkResult (sr_code r) (int (unat written)), w'))"
    using assms(1) loop(1) by (simp add: SocketClientImpl_write_def the_socket_def open_listener)
  moreover have "sr_code r = SUCCESS \<longrightarrow> unat written = length buffer" using loop(4) n(1) by metis
  ultimately show ?thesis using loop(3) \<open>unat written \<le> length buffer\<close>
    by (metis sr_bytes_mkResult sr_code_mkResult)
qed

subsection \<open>Properties of writing\<close>

text \<open>
  C11. Writing over a blocking socket or session always returns, and tells the truth: the
  count in the result is the number of bytes of the buffer, from its start and in order,
  that were sent, and \<open>SUCCESS\<close> means the whole buffer was.
\<close>

theorem client_write_complete:
  assumes "cl_socket c = Some s" and "blocking_sends os lib s sent"
    and "cfg_max_retries (cl_cfg c) \<noteq> 0" and "length buffer < 2 ^ 31"
  shows "\<exists>r w' k. SocketClientImpl_write os lib c buffer (of_nat (length buffer)) w = Some (Inr (r, w'))
      \<and> sr_bytes r = int k \<and> k \<le> length buffer \<and> sent w' = sent w @ take k buffer
      \<and> (sr_code r = SUCCESS \<longrightarrow> k = length buffer)"
  by (rule client_write_sends [OF assms])

text \<open>A kernel for the witnesses: always ready, a stream that takes two bytes at a time.\<close>

definition slow_os :: "byte list os" where
  "slow_os = null_os\<lparr>
     os_poll := (\<lambda>fds t w. ((1, map (\<lambda>p. snd p) fds), w)),
     os_send := (\<lambda>s buf w. (int (length (take 2 buf)), w @ take 2 buf))\<rparr>"

definition sample_client :: "client_socket \<Rightarrow> client" where
  "sample_client s =
     \<lparr>cl_socket = Some s,
      cl_cfg = \<lparr>cfg_ip = ''h'' @ [NUL], cfg_port = ''80'' @ [NUL], cfg_pdu_size = 512,
               cfg_max_retries = 3, cfg_read_timeout = 10, cfg_write_timeout = 10,
               cfg_time_between_retries = 1, cfg_is_unix_domain = False\<rparr>,
      cl_tls = SocketTLSClientConfiguration_new [] [] [] True True None False None None None\<rparr>"

definition sample_socket :: client_socket where
  "sample_socket = PlainSocket \<lparr>bs_result = mkCode SUCCESS, bs_fd = 5\<rparr>"

lemma sample_client_simps [simp]:
  "cl_socket (sample_client s) = Some s"
  "c_str (cfg_ip (cl_cfg (sample_client s))) = Inr ''h''"
  "c_str (cfg_port (cl_cfg (sample_client s))) = Inr ''80''"
  "cfg_max_retries (cl_cfg (sample_client s)) = 3"
  "cfg_is_unix_domain (cl_cfg (sample_client s)) = False"
  by (simp_all add: sample_client_def c_str_def NUL_def)

theorem client_write_complete_witness:
  "\<exists>r w' k. SocketClientImpl_write slow_os stub_ssl (sample_client sample_socket) [1, 2, 3] 3 []
      = Some (Inr (r, w')) \<and> sr_bytes r = int k \<and> w' = take k [1, 2, 3]
      \<and> (sr_code r = SUCCESS \<longrightarrow> k = 3)"
proof -
  have "blocking_sends slow_os stub_ssl sample_socket id"
    by (auto simp: blocking_sends_def quiet_def slow_os_def null_os_def sample_socket_def min_def)
  from client_write_complete [OF _ this, of "sample_client sample_socket" "[1, 2, 3]" "[]"]
  show ?thesis by (auto simp: sample_client_def)
qed

text \<open>
  C28. One write that would block, and the writer leaves its buffer: the code adds the
  result's \<open>-1\<close> to the unsigned count of written bytes, so when the socket is ready again
  the next write starts before the buffer and runs past its end.
\<close>

theorem client_write_overrun:
  assumes "cl_socket c = Some s" and "cfg_max_retries (cl_cfg c) \<noteq> 0" and "length buffer < 2 ^ 31"
    and "wait = SocketEventListener_wait os (client_descriptor s, POLLOUT) (cfg_write_timeout (cl_cfg c))"
    and "sr_code (fst (wait w)) = SUCCESS" and "snd (wait w) = w1"
    and "client_write os lib s buffer w1 = Inr (mkCode SOCKET_CONNECTION_NEED_TO_BE_BLOCKED, w2)"
    and "sr_code (fst (wait (os_sleep os (cfg_time_between_retries (cl_cfg c)) w2))) = SUCCESS"
  shows "SocketClientImpl_write os lib c buffer (of_nat (length buffer)) w = Some (Inl OutOfBounds)"
proof -
  let ?n = "of_nat (length buffer) :: size_t"
  let ?nap = "os_sleep os (cfg_time_between_retries (cl_cfg c))"
  let ?max = "unat (cfg_max_retries (cl_cfg c))"
  let ?loop = "write_loop (client_write os lib s) wait ?nap ?max buffer ?n 0"
  have n: "unat ?n = length buffer" using assms(3) by (simp add: unat_of_nat_size)
  have max: "0 < ?max" using assms(2) by (simp add: unat_gt_0)
  obtain r w3 where w: "wait w = (r, w1)" "sr_code r = SUCCESS"
    using assms(5,6) by (metis prod.collapse)
  obtain r' w3 where w': "wait (?nap w2) = (r', w3)" "sr_code r' = SUCCESS"
    using assms(8) by (metis prod.collapse)
  have chunk: "read_mem buffer 0 (?n - 0) = Inr buffer" using n by (simp add: read_mem_def)
  have "unat (- 1 :: size_t) = 18446744073709551615"
    by (simp add: unsigned_minus_1_eq_mask mask_eq_exp_minus_1)
  with n assms(3) have ne: "?n \<noteq> - 1" and out: "read_mem buffer (- 1) (?n - - 1) = Inl OutOfBounds"
    by (auto simp: read_mem_def)
  have "?loop 0 (mkCode SUCCESS) w
      = ?loop (- 1) (mkCode SOCKET_CONNECTION_NEED_TO_BE_BLOCKED) (?nap w2)"
    using max w chunk assms(7) ne by (subst write_loop.simps) (auto simp: size_of_neg_one)
  also have "\<dots> = Some (Inl OutOfBounds)"
    using max w' out by (subst write_loop.simps) auto
  finally show ?thesis
    using assms(1) by (simp add: SocketClientImpl_write_def the_socket_def open_listener assms(4) [symmetric])
qed

theorem client_write_overrun_witness:
  "SocketClientImpl_write
      (null_os\<lparr>os_poll := (\<lambda>fds t w. ((1, map snd fds), w)), os_errno := (\<lambda>w. EWOULDBLOCK)\<rparr>)
      stub_ssl (sample_client sample_socket) [1, 2, 3] 3 () = Some (Inl OutOfBounds)"
proof -
  let ?os = "null_os\<lparr>os_poll := (\<lambda>fds t w. ((1, map snd fds), w)), os_errno := (\<lambda>w. EWOULDBLOCK)\<rparr>
      :: unit os"
  have "SocketEventListener_wait ?os (5, POLLOUT) t () = (mkCode SUCCESS, ())" for t
    by (simp add: SocketEventListener_wait_def wait_with_def has_event_def poll_consts)
  then show ?thesis
    using client_write_overrun [of "sample_client sample_socket" sample_socket "[1, 2, 3]"
        "SocketEventListener_wait ?os (5, POLLOUT) 10" ?os "()" "()" stub_ssl "()"]
    by (simp add: sample_client_def sample_socket_def socket_send_def null_os_def recv_result_def
        i32_def createResult_def)
qed

subsection \<open>Properties of connecting\<close>

definition wait_codes :: "SocketCode set" where
  "wait_codes = {SUCCESS, SOCKET_TIMEOUT, SOCKET_CLOSED, SOCKET_EVENT_ERROR} \<union> os_codes"

lemma wait_code: "sr_code (fst (SocketEventListener_wait os l t w)) \<in> wait_codes"
  using createResultFromSocketError_range
  by (auto simp: SocketEventListener_wait_def wait_with_def wait_codes_def Let_def split: prod.split)

lemma client_connect_code: "sr_code (fst (client_connect os s a rt wt w)) \<in> wait_codes"
  using createResultFromSocketError_range
  by (auto simp: client_connect_def ClientActiveSocket_connect_def wait_codes_def Let_def
      createResult_code split: prod.split)

lemma connect_attempts_code:
  "sr_code r0 \<in> wait_codes \<Longrightarrow> sr_code (fst (connect_attempts os s cfg a l i r0 w)) \<in> wait_codes"
proof (induction os s cfg a l i r0 w rule: connect_attempts.induct)
  case (1 os s cfg a l i r0 w)
  obtain r1 w1 where c: "client_connect os s a (cfg_read_timeout cfg) (cfg_write_timeout cfg) w = (r1, w1)"
    by fastforce
  obtain r2 w2 where p: "SocketEventListener_wait os l (cfg_read_timeout cfg) w1 = (r2, w2)"
    by fastforce
  have "sr_code r1 \<in> wait_codes" "sr_code r2 \<in> wait_codes"
    using client_connect_code [of os s a "cfg_read_timeout cfg" "cfg_write_timeout cfg" w] c
      wait_code [of os l "cfg_read_timeout cfg" w1] p by simp_all
  with 1 c p show ?case by (subst connect_attempts.simps) (auto simp: Let_def)
qed

text \<open>The resolver's addresses fit the 512 bytes of storage (a \<^verbatim>\<open>sockaddr\<close> has at most 128).\<close>

definition resolver_ok :: "'w os \<Rightarrow> bool" where
  "resolver_ok os \<longleftrightarrow>
     (\<forall>ip port server w a. fst (os_getaddrinfo os ip port server w) = Inr a \<longrightarrow> length a \<le> 512)"

lemma null_resolver: "resolver_ok null_os"
  by (simp add: resolver_ok_def null_os_def)

lemma null_os_sleep: "os_sleep null_os ms w = w"
  by (simp add: null_os_def)

lemma address_total:
  assumes "resolver_ok os"
  shows "\<exists>a w'. SocketAddress_new os ip port server ux w = Inr (a, w')"
proof (cases ux)
  case True
  then show ?thesis by (simp add: SocketAddress_new_def write_zero_bytes length_sockaddr_un)
next
  case False
  obtain r w' where r: "os_getaddrinfo os (if server then None else Some ip) port server w = (r, w')"
    by fastforce
  have "r = Inr a \<Longrightarrow> length a \<le> 512" for a
    using assms r unfolding resolver_ok_def by (metis fst_conv)
  with False r show ?thesis
    by (cases r) (auto simp: SocketAddress_new_def write_zero_bytes split: gai_error.split)
qed

lemma plain_handshake:
  "handshake os lib (PlainSocket b) cfg l i r w =
     Some (Inr (if i < unat (cfg_max_retries cfg) then mkCode SUCCESS else r, w))"
  "probe os lib (PlainSocket b) cfg l i r w =
     Some (Inr (Inr (if i < unat (cfg_max_retries cfg) then mkCode SUCCESS else r), w))"
  by (subst handshake.simps probe.simps, simp add: ClientActiveSocket_reconnect_def)+

lemma plain_connect:
  assumes "cl_socket c = Some (PlainSocket b)" and "c_str (cfg_ip (cl_cfg c)) = Inr ip"
    and "c_str (cfg_port (cl_cfg c)) = Inr port"
    and "SocketAddress_new os ip port False (cfg_is_unix_domain (cl_cfg c)) w = Inr (a, w1)"
    and "connect_attempts os (PlainSocket b) (cl_cfg c) a (bs_fd b, POLLIN OR POLLOUT) 0
          (mkCode SUCCESS) w1 = (r, w2)"
  shows "SocketClientImpl_connect os lib c w = Some (Inr
      (if sr_code r = SUCCESS
       then (if cfg_max_retries (cl_cfg c) = 0 then r else mkCode SUCCESS, os_sleep os 100 w2)
       else (r, w2)))"
  using assms
  by (auto simp: SocketClientImpl_connect_def the_socket_def open_listener plain_handshake unat_gt_0)

text \<open>
  C21. Connecting a plain client always returns, with \<open>SUCCESS\<close>, a result of the wait or the
  classification of a system error. In particular the address error the resolver reports
  is never the result: the test after the address is built reads another variable, and the
  connection is attempted all the same.
\<close>

theorem plain_connect_outcome:
  assumes "cl_socket c = Some (PlainSocket b)" and "c_str (cfg_ip (cl_cfg c)) = Inr ip"
    and "c_str (cfg_port (cl_cfg c)) = Inr port" and "resolver_ok os"
  shows "\<exists>r w'. SocketClientImpl_connect os lib c w = Some (Inr (r, w'))
     \<and> sr_code r \<in> {SUCCESS, SOCKET_TIMEOUT, SOCKET_CLOSED, SOCKET_EVENT_ERROR} \<union> os_codes
     \<and> sr_code r \<noteq> ADDRESS_NOT_AVAILABLE"
proof -
  obtain a w1 where a: "SocketAddress_new os ip port False (cfg_is_unix_domain (cl_cfg c)) w = Inr (a, w1)"
    using address_total [OF assms(4)] by blast
  obtain r w2 where at: "connect_attempts os (PlainSocket b) (cl_cfg c) a (bs_fd b, POLLIN OR POLLOUT) 0
      (mkCode SUCCESS) w1 = (r, w2)" by fastforce
  have "sr_code r \<in> wait_codes"
    using connect_attempts_code [of "mkCode SUCCESS" os "PlainSocket b" "cl_cfg c" a
        "(bs_fd b, POLLIN OR POLLOUT)" 0 w1] at by (simp add: wait_codes_def)
  moreover have "SUCCESS \<in> wait_codes" by (simp add: wait_codes_def)
  moreover have "ADDRESS_NOT_AVAILABLE \<notin> wait_codes" by (simp add: wait_codes_def os_codes_def)
  ultimately show ?thesis
    using plain_connect [OF assms(1-3) a at] unfolding wait_codes_def by (auto simp: os_codes_def)
qed

theorem plain_connect_outcome_witness:
  "\<exists>r w'. SocketClientImpl_connect null_os stub_ssl (sample_client sample_socket) () = Some (Inr (r, w'))
     \<and> sr_code r \<noteq> ADDRESS_NOT_AVAILABLE"
proof -
  have "cl_socket (sample_client sample_socket)
      = Some (PlainSocket \<lparr>bs_result = mkCode SUCCESS, bs_fd = 5\<rparr>)" by (simp add: sample_socket_def)
  from plain_connect_outcome [OF this sample_client_simps(2,3) null_resolver, of stub_ssl "()"]
  show ?thesis by (elim exE conjE) (intro exI conjI)
qed

text \<open>
  With \<open>max_retries\<close> zero, connecting reports \<open>SUCCESS\<close> without a single attempt: only
  the address is resolved, and the final pause is made.
\<close>

theorem connect_without_retries:
  assumes "cl_socket c = Some (PlainSocket b)" and "c_str (cfg_ip (cl_cfg c)) = Inr ip"
    and "c_str (cfg_port (cl_cfg c)) = Inr port" and "cfg_max_retries (cl_cfg c) = 0"
    and "SocketAddress_new os ip port False (cfg_is_unix_domain (cl_cfg c)) w = Inr (a, w1)"
  shows "SocketClientImpl_connect os lib c w = Some (Inr (mkCode SUCCESS, os_sleep os 100 w1))"
proof -
  have "connect_attempts os (PlainSocket b) (cl_cfg c) a (bs_fd b, POLLIN OR POLLOUT) 0
      (mkCode SUCCESS) w1 = (mkCode SUCCESS, w1)"
    using assms(4) by (subst connect_attempts.simps) simp
  from plain_connect [OF assms(1-3,5) this] assms(4) show ?thesis by simp
qed

theorem connect_without_retries_witness:
  "SocketClientImpl_connect null_os stub_ssl
      (sample_client sample_socket
         \<lparr>cl_cfg := (cl_cfg (sample_client sample_socket))\<lparr>cfg_max_retries := 0\<rparr>\<rparr>) ()
    = Some (Inr (mkCode SUCCESS, ()))"
proof -
  let ?c = "sample_client sample_socket
         \<lparr>cl_cfg := (cl_cfg (sample_client sample_socket))\<lparr>cfg_max_retries := 0\<rparr>\<rparr>"
  obtain a u where "SocketAddress_new null_os ''h'' ''80'' False False () = Inr (a, u)"
    using address_total [OF null_resolver, of "''h''" "''80''" False False "()"] by auto
  then show ?thesis
    using connect_without_retries [of ?c _ "''h''" "''80''" null_os "()" a u stub_ssl]
    by (simp add: sample_socket_def null_os_sleep)
qed

text \<open>
  A network that never answers: every attempt is in progress, every wait times out.
  \<open>count\<close> counts the calls of \<^verbatim>\<open>connect\<close>; nothing else the client does changes it.
\<close>

definition stalled :: "'w os \<Rightarrow> ('w \<Rightarrow> nat) \<Rightarrow> bool" where
  "stalled os count \<longleftrightarrow> quiet os count
     \<and> (\<forall>s a w. fst (os_connect os s a w) = - 1 \<and> os_errno os (snd (os_connect os s a w)) = EINPROGRESS
          \<and> count (snd (os_connect os s a w)) = count w + 1)
     \<and> (\<forall>s f w. count (os_setfl os s f w) = count w)
     \<and> (\<forall>s opt w. count (os_setsockopt os s opt w) = count w)
     \<and> (\<forall>fds t w. fst (fst (os_poll os fds t w)) = 0)
     \<and> (\<forall>ip port server w. count (snd (os_getaddrinfo os ip port server w)) = count w)"

lemma stalled_connect:
  assumes "stalled os count"
  shows "\<exists>r w'. client_connect os s a rt wt w = (r, w') \<and> sr_code r = SOCKET_CONNECTION_IN_PROGRESS
    \<and> count w' = count w + 1"
proof -
  have setfl: "count (os_setfl os f x w) = count w" and opt: "count (os_setsockopt os f opt w) = count w"
    for f x opt w using assms by (simp_all add: stalled_def)
  let ?w = "setNonBlockingMode os (client_descriptor s) (setTimeout os (client_descriptor s) rt wt w)"
  obtain n w1 where c: "os_connect os (client_descriptor s) (sa_view a) ?w = (n, w1)" by fastforce
  then have "n = - 1" "os_errno os w1 = EINPROGRESS" "count w1 = count ?w + 1"
    using assms unfolding stalled_def by (metis fst_conv snd_conv)+
  with c show ?thesis
    by (simp add: client_connect_def ClientActiveSocket_connect_def setNonBlockingMode_def
        setBlockingMode_def setTimeout_def setfl opt createResult_code)
qed

lemma stalled_wait:
  assumes "stalled os count"
  shows "\<exists>w'. SocketEventListener_wait os l t w = (mkCode SOCKET_TIMEOUT, w') \<and> count w' = count w"
proof -
  obtain n revs w' where p: "os_poll os [l] t w = ((n, revs), w')" by (metis prod.exhaust)
  moreover have "n = 0" using assms p unfolding stalled_def by (metis fst_conv)
  moreover have "count w' = count w" using assms p unfolding stalled_def quiet_def by (metis snd_conv)
  ultimately show ?thesis by (simp add: SocketEventListener_wait_def wait_with_def)
qed

lemma attempts_stalled:
  assumes "stalled os count" and "sr_code r0 = SOCKET_TIMEOUT \<or> i < unat (cfg_max_retries cfg)"
  shows "\<exists>r w'. connect_attempts os s cfg a l i r0 w = (r, w') \<and> sr_code r = SOCKET_TIMEOUT
    \<and> count w' = count w + (unat (cfg_max_retries cfg) - i + 1) div 2"
  using assms(2)
proof (induction "unat (cfg_max_retries cfg) - i" arbitrary: i r0 w rule: less_induct)
  case less
  show ?case
  proof (cases "i < unat (cfg_max_retries cfg)")
    case False
    with less.prems show ?thesis by (subst connect_attempts.simps) simp
  next
    case True
    obtain r1 w1 where c: "client_connect os s a (cfg_read_timeout cfg) (cfg_write_timeout cfg) w = (r1, w1)"
        "sr_code r1 = SOCKET_CONNECTION_IN_PROGRESS" "count w1 = count w + 1"
      using stalled_connect [OF assms(1)] by blast
    obtain w2 where p: "SocketEventListener_wait os l (cfg_read_timeout cfg) w1
        = (mkCode SOCKET_TIMEOUT, w2)" "count w2 = count w1"
      using stalled_wait [OF assms(1)] by blast
    let ?w3 = "os_sleep os (cfg_time_between_retries cfg) w2"
    have w3: "count ?w3 = count w + 1" using c p assms(1) by (simp add: stalled_def quiet_def)
    have eq: "connect_attempts os s cfg a l i r0 w
        = connect_attempts os s cfg a l (i + 1 + 1) (mkCode SOCKET_TIMEOUT) ?w3"
      using True c p by (subst connect_attempts.simps) (simp add: in_progress_def)
    have less_diff: "unat (cfg_max_retries cfg) - (i + 1 + 1) < unat (cfg_max_retries cfg) - i"
      using True by simp
    obtain r w' where ih: "connect_attempts os s cfg a l (i + 1 + 1) (mkCode SOCKET_TIMEOUT) ?w3 = (r, w')"
        "sr_code r = SOCKET_TIMEOUT"
        "count w' = count ?w3 + (unat (cfg_max_retries cfg) - (i + 1 + 1) + 1) div 2"
      using less.hyps [OF _ disjI1, of "i + 1 + 1" "mkCode SOCKET_TIMEOUT" ?w3] less_diff by auto
    moreover have "(unat (cfg_max_retries cfg) - i + 1) div 2
        = 1 + (unat (cfg_max_retries cfg) - (i + 1 + 1) + 1) div 2" using True by arith
    ultimately show ?thesis using eq w3 by simp
  qed
qed

text \<open>
  C38. Against a host that never answers, only half of the configured attempts (rounded up)
  are made before the time-out is reported, because a wait that times out advances the
  counter a second time.
\<close>

theorem connect_timeout_attempts:
  assumes "stalled os count" and "resolver_ok os" and "cl_socket c = Some (PlainSocket b)"
    and "c_str (cfg_ip (cl_cfg c)) = Inr ip" and "c_str (cfg_port (cl_cfg c)) = Inr port"
    and "cfg_max_retries (cl_cfg c) \<noteq> 0"
  shows "\<exists>r w'. SocketClientImpl_connect os lib c w = Some (Inr (r, w'))
     \<and> sr_code r = SOCKET_TIMEOUT
     \<and> count w' = count w + (unat (cfg_max_retries (cl_cfg c)) + 1) div 2"
proof -
  obtain a w1 where a: "SocketAddress_new os ip port False (cfg_is_unix_domain (cl_cfg c)) w = Inr (a, w1)"
    using address_total [OF assms(2)] by blast
  have "count (snd (os_getaddrinfo os x y z w)) = count w" for x y z
    using assms(1) by (simp add: stalled_def)
  then have w1: "count w1 = count w"
    using a by (auto simp: SocketAddress_new_def bindR_Inr_iff split: prod.splits sum.splits if_splits)
      (metis snd_conv)+
  have "0 < unat (cfg_max_retries (cl_cfg c))" using assms(6) by (simp add: unat_gt_0)
  then obtain r w2 where at: "connect_attempts os (PlainSocket b) (cl_cfg c) a (bs_fd b, POLLIN OR POLLOUT) 0
      (mkCode SUCCESS) w1 = (r, w2)" "sr_code r = SOCKET_TIMEOUT"
      "count w2 = count w1 + (unat (cfg_max_retries (cl_cfg c)) - 0 + 1) div 2"
    using attempts_stalled [OF assms(1)] by blast
  from plain_connect [OF assms(3-5) a at(1)] at w1 show ?thesis by simp
qed

text \<open>The kernel of the witness: its world is the number of connection attempts.\<close>

definition stalled_os :: "nat os" where
  "stalled_os = null_os\<lparr>os_connect := (\<lambda>s a w. (- 1, w + 1)), os_errno := (\<lambda>w. EINPROGRESS),
     os_poll := (\<lambda>fds t w. ((0, map (\<lambda>_. 0) fds), w))\<rparr>"

theorem connect_timeout_attempts_witness:
  "\<exists>r. SocketClientImpl_connect stalled_os stub_ssl (sample_client sample_socket) 0 = Some (Inr (r, 2))
     \<and> sr_code r = SOCKET_TIMEOUT"
proof -
  have st: "stalled stalled_os id" and res: "resolver_ok stalled_os"
    by (simp_all add: stalled_def quiet_def resolver_ok_def stalled_os_def null_os_def)
  have s: "cl_socket (sample_client sample_socket)
      = Some (PlainSocket \<lparr>bs_result = mkCode SUCCESS, bs_fd = 5\<rparr>)" by (simp add: sample_socket_def)
  from connect_timeout_attempts [OF st res s sample_client_simps(2,3), of stub_ssl 0]
  show ?thesis by auto
qed

text \<open>
  A handshake that makes progress: there is a session, every call of the library that asks to
  be called again takes one of finitely many steps, measured by \<open>steps\<close>, and waiting takes
  none back.
\<close>

definition handshake_progress ::
  "'w os \<Rightarrow> 'w ssl_lib \<Rightarrow> client_socket \<Rightarrow> ('w \<Rightarrow> nat) \<Rightarrow> bool" where
  "handshake_progress os lib s steps \<longleftrightarrow> has_session lib s \<and> quiet os steps
     \<and> (\<forall>b w r w'. client_reconnect os lib s b w = Inr (r, w') \<longrightarrow> in_progress r \<longrightarrow> steps w' < steps w)"

lemma reconnect_step:
  assumes "handshake_progress os lib s steps" and "client_reconnect os lib s b w = Inr (r, w1)"
    and "in_progress r" and "SocketEventListener_wait os l t w1 = (r', w2)"
  shows "steps w2 < steps w"
proof -
  have "steps w1 < steps w"
    using assms(1-3) unfolding handshake_progress_def by blast
  moreover have "steps w2 = steps w1"
    using wait_quiet [of os steps l t w1] assms(1,4) by (simp add: handshake_progress_def)
  ultimately show ?thesis by simp
qed

lemma progress_call:
  assumes "handshake_progress os lib s steps"
  shows "\<exists>r w'. client_reconnect os lib s b w = Inr (r, w')"
  using assms session_calls(1) [of lib s os b w] by (auto simp: handshake_progress_def)

lemma handshake_returns:
  assumes "handshake_progress os lib s steps"
  shows "\<exists>y. handshake os lib s cfg l i r w = Some (Inr y)"
proof (induction "steps w" arbitrary: i r w rule: less_induct)
  case less
  obtain r1 w1 where c: "client_reconnect os lib s False w = Inr (r1, w1)"
    using progress_call [OF assms] by blast
  obtain r2 w2 where p: "SocketEventListener_wait os l (cfg_read_timeout cfg) w1 = (r2, w2)" by fastforce
  have "in_progress r1 \<Longrightarrow> \<exists>y. handshake os lib s cfg l j r2 w2 = Some (Inr y)" for j
    using less.hyps [of w2] reconnect_step [OF assms c _ p] by blast
  with c p show ?case by (subst handshake.simps) auto
qed

lemma probe_returns:
  assumes "handshake_progress os lib s steps"
  shows "\<exists>y. probe os lib s cfg l i r w = Some (Inr y)"
proof (induction "steps w" arbitrary: i r w rule: less_induct)
  case less
  obtain r1 w1 where c: "client_reconnect os lib s True w = Inr (r1, w1)"
    using progress_call [OF assms] by blast
  obtain r2 w2 where p: "SocketEventListener_wait os l (cfg_read_timeout cfg) w1 = (r2, w2)" by fastforce
  have "in_progress r1 \<Longrightarrow> \<exists>y. probe os lib s cfg l i r2 w2 = Some (Inr y)"
    using less.hyps [of w2] reconnect_step [OF assms c _ p] by blast
  with c p show ?case by (subst probe.simps) auto
qed

text \<open>
  C20. Connecting any client returns, without a fault, when the handshake makes progress: no
  number of retries bounds the loops of the handshake and of the probe, the steps of the
  library do.
\<close>

theorem connect_returns:
  assumes "cl_socket c = Some s" and "c_str (cfg_ip (cl_cfg c)) = Inr ip"
    and "c_str (cfg_port (cl_cfg c)) = Inr port" and "resolver_ok os"
    and "handshake_progress os lib s steps"
  shows "\<exists>r w'. SocketClientImpl_connect os lib c w = Some (Inr (r, w'))"
proof -
  obtain a w1 where a: "SocketAddress_new os ip port False (cfg_is_unix_domain (cl_cfg c)) w = Inr (a, w1)"
    using address_total [OF assms(4)] by blast
  let ?l = "(client_descriptor s, POLLIN OR POLLOUT)" and ?k = "(client_descriptor s, POLLIN)"
  obtain r w2 where at: "connect_attempts os s (cl_cfg c) a ?l 0 (mkCode SUCCESS) w1 = (r, w2)"
    by fastforce
  obtain r' w3 where hs: "handshake os lib s (cl_cfg c) ?l 0 r w2 = Some (Inr (r', w3))"
    using handshake_returns [OF assms(5)] by (metis prod.exhaust)
  obtain p w4 where pr: "probe os lib s (cl_cfg c) ?k 0 r' w3 = Some (Inr (p, w4))"
    using probe_returns [OF assms(5)] by (metis prod.exhaust)
  show ?thesis using assms(1-3) a at hs pr
    by (cases p) (auto simp: SocketClientImpl_connect_def the_socket_def open_listener Let_def)
qed

text \<open>The library of the witness asks twice for more before it completes; its world counts down.\<close>

definition counting_lib :: "nat ssl_lib" where
  "counting_lib = stub_ssl\<lparr>
     lib_set_fd := (\<lambda>ssl f w. (1, w)),
     lib_connect := (\<lambda>ssl w. if w = 0 then (1, w) else (- 1, w - 1)),
     lib_get_error := (\<lambda>ssl r w. SSL_ERROR_WANT_READ),
     lib_null_ok := False\<rparr>"

definition sample_tls_socket :: client_socket where
  "sample_tls_socket = TlsSocket \<lparr>bs_result = mkCode SUCCESS, bs_fd = 5, tls_context = Some 1,
     tls_ssl = Some 2, tls_hostname = None\<rparr>"

theorem connect_returns_witness:
  "\<exists>r w'. SocketClientImpl_connect null_os counting_lib (sample_client sample_tls_socket) 2
     = Some (Inr (r, w'))"
proof -
  have "handshake_progress null_os counting_lib sample_tls_socket id"
    by (auto simp: handshake_progress_def quiet_def null_os_def counting_lib_def sample_tls_socket_def
        TLSClientActiveSocket_reconnect_def stub_ssl_def in_progress_def createTLSResult_def tls_consts)
  from connect_returns [OF sample_client_simps(1-3) null_resolver this, of 2] show ?thesis by simp
qed

text \<open>
  C39. Without that progress the handshake never returns: a library that keeps asking for
  more on a descriptor that stays ready is called again and again, with no pause and no
  count of the retries.
\<close>

theorem handshake_spins:
  assumes busy: "\<And>w. \<exists>r w'. client_reconnect os lib s False w = Inr (r, w') \<and> in_progress r"
    and ready: "\<And>w. sr_code (fst (SocketEventListener_wait os l (cfg_read_timeout cfg) w)) = SUCCESS"
    and "i < unat (cfg_max_retries cfg)"
  shows "handshake os lib s cfg l i r w = None"
proof (rule ccontr)
  let ?P = "\<lambda>os' lib' s' cfg' l' i' (r' :: SocketResult) w' (y :: (SocketResult \<times> 'a) result).
      \<not> (os' = os \<and> lib' = lib \<and> s' = s \<and> cfg' = cfg \<and> l' = l \<and> i' = i)"
  assume "handshake os lib s cfg l i r w \<noteq> None"
  then obtain y where y: "handshake os lib s cfg l i r w = Some y" by blast
  have "?P os lib s cfg l i r w y"
  proof (rule handshake.raw_induct [of ?P, OF _ y], goal_cases)
    case (1 rec os' lib' s' cfg' l' i' r' w' y)
    obtain r1 w1 where c: "client_reconnect os lib s False w' = Inr (r1, w1)" and "in_progress r1"
      using busy [of w'] by blast
    obtain r2 w2 where p: "SocketEventListener_wait os l (cfg_read_timeout cfg) w1 = (r2, w2)"
      by fastforce
    have "sr_code r2 = SUCCESS" using ready [of w1] p by simp
    have "sr_code r1 \<noteq> SUCCESS" using \<open>in_progress r1\<close> by (auto simp: in_progress_def)
    show ?case
    proof
      assume eq: "os' = os \<and> lib' = lib \<and> s' = s \<and> cfg' = cfg \<and> l' = l \<and> i' = i"
      with 1(2) c p \<open>in_progress r1\<close> \<open>sr_code r1 \<noteq> SUCCESS\<close> \<open>sr_code r2 = SUCCESS\<close> assms(3)
      have "rec os lib s cfg l i r2 w2 = Some y" by simp
      from 1(1) [OF this] show False by simp
    qed
  qed
  then show False by simp
qed

theorem handshake_spins_witness:
  "handshake (null_os\<lparr>os_poll := (\<lambda>fds t w. ((1, map snd fds), w))\<rparr>)
     (counting_lib\<lparr>lib_connect := (\<lambda>ssl w. (- 1, w))\<rparr>) sample_tls_socket
     (cl_cfg (sample_client sample_tls_socket)) (5, POLLIN OR POLLOUT) 0 (mkCode SUCCESS) 0 = None"
  by (rule handshake_spins)
    (simp_all add: sample_tls_socket_def TLSClientActiveSocket_reconnect_def counting_lib_def
      stub_ssl_def in_progress_def createTLSResult_def tls_consts SocketEventListener_wait_def
      wait_with_def has_event_def poll_consts null_os_def)

subsection \<open>Properties of reading\<close>

fun raw_recv ::
  "'w os \<Rightarrow> 'w ssl_lib \<Rightarrow> client_socket \<Rightarrow> size_t \<Rightarrow> 'w \<Rightarrow> (int \<times> byte list) \<times> 'w" where
  "raw_recv os lib (PlainSocket s) n w = os_recv os (bs_fd s) n w"
| "raw_recv os lib (TlsSocket s) n w = lib_read lib (tls_ssl s) (int (unat n)) w"

text \<open>
  The documented behaviour of \<^verbatim>\<open>recv\<close> and, on a session that is there, of \<^verbatim>\<open>SSL_read\<close>: as many bytes as the result says,
  at most as many as asked for, are taken from the incoming stream; \<open>received\<close> is what has
  been taken so far.
\<close>

definition stream_reads ::
  "'w os \<Rightarrow> 'w ssl_lib \<Rightarrow> client_socket \<Rightarrow> ('w \<Rightarrow> byte list) \<Rightarrow> bool" where
  "stream_reads os lib s received \<longleftrightarrow> has_session lib s \<and> quiet os received
     \<and> (\<forall>n w. unat n < 2 ^ 31 \<longrightarrow>
          (case raw_recv os lib s n w of ((r, data), w') \<Rightarrow>
             - 1 \<le> r \<and> r \<le> int (unat n) \<and> length data = nat r \<and> received w' = received w @ data))"

lemma client_read_result:
  assumes "stream_reads os lib s received" and n: "unat n < 2 ^ 31"
  shows "\<exists>r data w'. client_read os lib s n w = Inr ((r, data), w') \<and> length data = nat (sr_bytes r)
    \<and> length data \<le> unat n \<and> received w' = received w @ data
    \<and> (sr_code r = SUCCESS \<longleftrightarrow> 0 < sr_bytes r) \<and> sr_code r \<noteq> SOCKET_TIMEOUT"
proof -
  obtain k data w' where raw: "raw_recv os lib s n w = ((k, data), w')" by (metis prod.exhaust)
  have there: "has_session lib s" using assms(1) by (simp add: stream_reads_def)
  from assms(1) [unfolded stream_reads_def, THEN conjunct2, THEN conjunct2, THEN spec, of n, THEN spec, of w,
      THEN mp, OF n] raw
  have k: "- 1 \<le> k" "k \<le> int (unat n)" "length data = nat k" "received w' = received w @ data"
    by simp_all
  have i32n: "i32 (uint n) = int (unat n)" by (rule i32_unat [OF n])
  then have as_len: "as_len n = n" by (simp add: as_len_def size_of_def)
  have "int (unat n) < 2 ^ 31" using n by (metis of_nat_less_iff of_nat_numeral of_nat_power)
  then have ik: "i32 k = k" using k(1,2) by (intro i32_small) linarith+
  have le: "length data \<le> unat n" using k(2,3) by linarith
  show ?thesis
  proof (cases s)
    case (PlainSocket b)
    with raw as_len ik have "client_read os lib s n w = Inr ((recv_result (os_errno os w') k, data), w')"
      by (simp add: socket_recv_def)
    with k le show ?thesis by (auto simp: recv_result_def result_simps)
  next
    case (TlsSocket b)
    with raw i32n there have "client_read os lib s n w
        = Inr ((createTLSResult lib (os_errno os) (tls_ssl b) k w', data), w')"
      by (simp add: TLSClientActiveSocket_read_def with_session_iff)
    with k le show ?thesis by (simp add: result_simps)
  qed
qed

lemma write_mem_front:
  "length xs \<le> length buf \<Longrightarrow> write_mem buf 0 xs = Inr (xs @ drop (length xs) buf)"
  by (simp add: write_mem_def)

lemma read_loop_delivers:
  assumes reads: "stream_reads os lib s received" and n: "unat n < 2 ^ 31" "unat n \<le> length buffer"
    and "i < unat (cfg_max_retries cfg) \<or> sr_code r0 \<noteq> SUCCESS"
  shows "\<exists>r data w'. read_loop os lib s cfg l n i r0 buffer w
        = Inr (r, data @ drop (length data) buffer, w')
      \<and> received w' = received w @ data \<and> length data \<le> unat n
      \<and> (if sr_code r = SUCCESS then sr_bytes r = int (length data) \<and> data \<noteq> [] else data = [])"
  using assms(4)
proof (induction "unat (cfg_max_retries cfg) - i" arbitrary: i r0 w rule: less_induct)
  case less
  have q: "received (os_sleep os ms w) = received w"
    "received (snd (SocketEventListener_wait os l t w)) = received w" for ms t w
    using reads wait_quiet [of os received] by (simp_all add: stream_reads_def quiet_def)
  show ?case
  proof (cases "i < unat (cfg_max_retries cfg)")
    case False
    with less.prems show ?thesis
      by (subst read_loop.simps) (auto intro!: exI [of _ "[]"])
  next
    case i: True
    obtain rw w1 where wait: "SocketEventListener_wait os l (cfg_read_timeout cfg) w = (rw, w1)"
      by fastforce
    then have w1: "received w1 = received w" using q(2) by (metis snd_conv)
    have again: "\<exists>r data w'. read_loop os lib s cfg l n (i + 1) rr buffer (os_sleep os ms w2)
          = Inr (r, data @ drop (length data) buffer, w')
        \<and> received w' = received w @ data \<and> length data \<le> unat n
        \<and> (if sr_code r = SUCCESS then sr_bytes r = int (length data) \<and> data \<noteq> [] else data = [])"
      if "sr_code rr \<noteq> SUCCESS" "received w2 = received w" for rr ms w2
      using less.hyps [of "i + 1" rr "os_sleep os ms w2"] i that by (simp add: q)
    obtain r data w2 where rd: "client_read os lib s n w1 = Inr ((r, data), w2)"
        "length data = nat (sr_bytes r)" "length data \<le> unat n" "received w2 = received w1 @ data"
        "sr_code r = SUCCESS \<longleftrightarrow> 0 < sr_bytes r" "sr_code r \<noteq> SOCKET_TIMEOUT"
      using client_read_result [OF reads n(1)] by blast
    then have wm: "write_mem buffer 0 data = Inr (data @ drop (length data) buffer)"
      using n(2) by (intro write_mem_front) simp
    consider (timeout) "sr_code rw = SOCKET_TIMEOUT"
      | (fail) "sr_code rw \<noteq> SOCKET_TIMEOUT" "sr_code rw \<noteq> SUCCESS"
      | (ready) "sr_code rw = SUCCESS" by blast
    then show ?thesis
    proof cases
      case timeout
      with i wait again [of rw w1] w1 show ?thesis by (subst read_loop.simps) simp
    next
      case fail
      with i wait w1 show ?thesis by (subst read_loop.simps) (auto intro!: exI [of _ "[]"])
    next
      case ready
      show ?thesis
      proof (cases "sr_code r = SUCCESS")
        case True
        with i wait ready rd wm w1 show ?thesis
          by (subst read_loop.simps) (auto intro!: exI [of _ data])
      next
        case False
        with rd have "data = []" by simp
        with False i wait ready rd wm w1 again [of r w2] show ?thesis
          by (subst read_loop.simps) (auto intro!: exI [of _ "[]"])
      qed
    qed
  qed
qed

text \<open>
  C19. Reading never faults and loses nothing: with \<open>SUCCESS\<close> the bytes taken from the
  stream are exactly the announced number of bytes at the start of the caller's buffer, at
  least one and at most as many as asked for, and the rest of the buffer is untouched; on
  any other result nothing was taken and the buffer is as it was.
\<close>

theorem client_read_delivers:
  assumes "cl_socket c = Some s" and "stream_reads os lib s received"
    and "unat n < 2 ^ 31" and "unat n \<le> length buffer" and "cfg_max_retries (cl_cfg c) \<noteq> 0"
  shows "\<exists>r data w'. SocketClientImpl_read os lib c buffer n w
        = Inr (r, data @ drop (length data) buffer, w')
      \<and> received w' = received w @ data \<and> length data \<le> unat n
      \<and> (if sr_code r = SUCCESS then sr_bytes r = int (length data) \<and> data \<noteq> [] else data = [])"
proof -
  have "0 < unat (cfg_max_retries (cl_cfg c))" using assms(5) by (simp add: unat_gt_0)
  then show ?thesis
    using read_loop_delivers [OF assms(2-4), of 0 "cl_cfg c" "mkCode SUCCESS"
        "(client_descriptor s, POLLIN)" w] assms(1)
    by (simp add: SocketClientImpl_read_def the_socket_def open_listener)
qed

text \<open>The kernel of the witness delivers one byte, the number of reads made before.\<close>

definition byte_os :: "byte list os" where
  "byte_os = null_os\<lparr>os_poll := (\<lambda>fds t w. ((1, map snd fds), w)),
     os_recv := (\<lambda>s n w. if n = 0 then ((0, []), w)
                  else ((1, [of_nat (length w)]), w @ [of_nat (length w)]))\<rparr>"

theorem client_read_delivers_witness:
  "\<exists>r data w'. SocketClientImpl_read byte_os stub_ssl (sample_client sample_socket) [9, 9, 9] 2 []
      = Inr (r, data @ drop (length data) [9, 9, 9], w')
    \<and> w' = data \<and> length data \<le> 2 \<and> (sr_code r = SUCCESS \<longrightarrow> data \<noteq> [])"
proof -
  have "stream_reads byte_os stub_ssl sample_socket id"
    by (auto simp: stream_reads_def quiet_def byte_os_def null_os_def sample_socket_def
        word_nonzero_uint)
  from client_read_delivers [OF sample_client_simps(1) this, of 2 "[9, 9, 9]" "[]"]
  show ?thesis by (fastforce split: if_splits)
qed

end
