(* ===== verification/Client_Sessions.thy ===== *)
theory Client_Sessions
  imports Client
begin

text \<open>
  The life of a client: sequences of calls of the public class, and the descriptors, TLS
  contexts and TLS sessions they hold. Whatever is acquired is released once by \<^verbatim>\<open>close\<close>.
\<close>

subsection \<open>Resources\<close>

datatype resource = Descriptor fd | Context nat | Session nat

text \<open>What a call that acquires and one that releases does to the resources held.\<close>

definition acquires :: "('w \<Rightarrow> resource set) \<Rightarrow> 'w \<Rightarrow> resource option \<Rightarrow> 'w \<Rightarrow> bool" where
  "acquires held w r w' \<longleftrightarrow>
     (case r of None \<Rightarrow> held w' = held w
      | Some x \<Rightarrow> x \<notin> held w \<and> held w' = insert x (held w))"

text \<open>Every other call of the kernel and of the library leaves an observation of the world alone.\<close>

definition still :: "'w os \<Rightarrow> 'w ssl_lib \<Rightarrow> ('w \<Rightarrow> 'a) \<Rightarrow> bool" where
  "still os lib obs \<longleftrightarrow> quiet os obs
     \<and> (\<forall>s f w. obs (os_setfl os s f w) = obs w)
     \<and> (\<forall>s opt w. obs (os_setsockopt os s opt w) = obs w)
     \<and> (\<forall>s a w. obs (snd (os_connect os s a w)) = obs w)
     \<and> (\<forall>s w. obs (os_shutdown os s w) = obs w)
     \<and> (\<forall>s buf w. obs (snd (os_send os s buf w)) = obs w)
     \<and> (\<forall>s n w. obs (snd (os_recv os s n w)) = obs w)
     \<and> (\<forall>s n w. obs (snd (os_peek os s n w)) = obs w)
     \<and> (\<forall>ip port sv w. obs (snd (os_getaddrinfo os ip port sv w)) = obs w)
     \<and> (\<forall>p s w. obs (lib_ctx_set lib p s w) = obs w)
     \<and> (\<forall>p s w. obs (lib_set lib p s w) = obs w)
     \<and> (\<forall>p s w. obs (snd (lib_set_fd lib p s w)) = obs w)
     \<and> (\<forall>p w. obs (snd (lib_connect lib p w)) = obs w)
     \<and> (\<forall>p w. obs (lib_shutdown lib p w) = obs w)
     \<and> (\<forall>p buf n w. obs (snd (lib_write lib p buf n w)) = obs w)
     \<and> (\<forall>p n w. obs (snd (lib_read lib p n w)) = obs w)
     \<and> (\<forall>p n w. obs (snd (lib_peek lib p n w)) = obs w)
     \<and> (\<forall>w. obs (lib_clear_error lib w) = obs w)"

definition resource_env :: "'w os \<Rightarrow> 'w ssl_lib \<Rightarrow> ('w \<Rightarrow> resource set) \<Rightarrow> bool" where
  "resource_env os lib held \<longleftrightarrow> still os lib held
     \<and> (\<forall>u w r w'. os_socket os u w = (r, w') \<longrightarrow> - 1 \<le> r \<and> r < 2 ^ 31
          \<and> acquires held w (if 0 \<le> r then Some (Descriptor r) else None) w')
     \<and> (\<forall>w p w'. lib_ctx_new lib w = (p, w') \<longrightarrow> acquires held w (map_option Context p) w')
     \<and> (\<forall>c w p w'. lib_new lib c w = (p, w') \<longrightarrow> acquires held w (map_option Session p) w')
     \<and> (\<forall>s w. held (os_close os s w) = held w - {Descriptor s})
     \<and> (\<forall>p w. held (lib_ctx_free lib p w) = held w - Context ` set_option p)
     \<and> (\<forall>p w. held (lib_free lib p w) = held w - Session ` set_option p)
     \<and> (\<forall>s w. Descriptor s \<in> held w \<longrightarrow> 0 \<le> s)"

subsection \<open>The calls that acquire nothing\<close>

lemma stillD:
  assumes "still os lib obs"
  shows "quiet os obs" and "obs (os_setfl os s f w) = obs w" and "obs (os_setsockopt os s opt w) = obs w"
    and "os_connect os s a w = (i, w') \<Longrightarrow> obs w' = obs w" and "obs (os_shutdown os s w) = obs w"
    and "os_send os s buf w = (i, w') \<Longrightarrow> obs w' = obs w"
    and "os_recv os s n w = (d, w') \<Longrightarrow> obs w' = obs w"
    and "os_peek os s n w = (i, w') \<Longrightarrow> obs w' = obs w"
    and "os_getaddrinfo os ip port sv w = (g, w') \<Longrightarrow> obs w' = obs w"
    and "obs (lib_ctx_set lib p cs w) = obs w" and "obs (lib_set lib p ss w) = obs w"
    and "lib_set_fd lib p s w = (i, w') \<Longrightarrow> obs w' = obs w"
    and "lib_connect lib p w = (i, w') \<Longrightarrow> obs w' = obs w"
    and "obs (lib_shutdown lib p w) = obs w"
    and "lib_write lib p buf j w = (i, w') \<Longrightarrow> obs w' = obs w"
    and "lib_read lib p j w = (d, w') \<Longrightarrow> obs w' = obs w"
    and "lib_peek lib p j w = (i, w') \<Longrightarrow> obs w' = obs w"
    and "obs (lib_clear_error lib w) = obs w"
  using assms unfolding still_def by (simp_all, (metis snd_conv)+)

lemma still_modes:
  assumes "still os lib obs"
  shows "obs (setNonBlockingMode os s w) = obs w" "obs (setBlockingMode os s w) = obs w"
    "obs (setTimeout os s rt wt w) = obs w"
  by (simp_all add: setNonBlockingMode_def setBlockingMode_def setTimeout_def stillD(2,3) [OF assms] Let_def)

lemma still_wait:
  "still os lib obs \<Longrightarrow> SocketEventListener_wait os l t w = (r, w') \<Longrightarrow> obs w' = obs w"
  using wait_quiet [of os obs l t w] by (simp add: stillD(1))

lemma still_connect:
  assumes "still os lib obs" and "client_connect os s a rt wt w = (r, w')"
  shows "obs w' = obs w"
  using assms(2)
  by (auto simp: client_connect_def ClientActiveSocket_connect_def Let_def still_modes [OF assms(1)]
      split: prod.splits dest!: stillD(4) [OF assms(1)])

lemma still_probe:
  assumes "still os lib obs" and "postHandshakeProbe os lib s w = (r, w')"
  shows "obs w' = obs w"
  using assms(2)
  by (auto simp: postHandshakeProbe_def Let_def still_modes [OF assms(1)] stillD(18) [OF assms(1)]
      split: prod.splits if_splits dest!: stillD(17) [OF assms(1)])

lemma still_reconnect:
  assumes "still os lib obs" and "client_reconnect os lib s b w = Inr (r, w')"
  shows "obs w' = obs w"
proof (cases s)
  case (PlainSocket p)
  with assms(2) show ?thesis by (simp add: ClientActiveSocket_reconnect_def)
next
  case (TlsSocket t)
  with assms(2) show ?thesis
    by (auto simp: TLSClientActiveSocket_reconnect_def with_session_iff Let_def stillD(11) [OF assms(1)]
        split: prod.splits if_splits option.splits
        dest!: stillD(12,13) [OF assms(1)] dest: still_probe [OF assms(1)])
qed

lemma still_attempts:
  assumes "still os lib obs"
  shows "obs (snd (connect_attempts os s cfg a l i r w)) = obs w"
proof -
  have sleep: "obs (os_sleep os t v) = obs v" for t v
    using stillD(1) [OF assms] by (simp add: quiet_def)
  show ?thesis
    using assms sleep
  proof (induction os s cfg a l i r w rule: connect_attempts.induct)
    case (1 os s cfg a l i r w)
    obtain r1 w1 where c: "client_connect os s a (cfg_read_timeout cfg) (cfg_write_timeout cfg) w = (r1, w1)"
      by fastforce
    obtain r2 w2 where p: "SocketEventListener_wait os l (cfg_read_timeout cfg) w1 = (r2, w2)"
      by fastforce
    have "obs w1 = obs w" "obs w2 = obs w"
      using still_connect [OF 1(3) c] still_wait [OF 1(3) p] by simp_all
    with 1 c p show ?case by (subst connect_attempts.simps) (auto simp: Let_def)
  qed
qed

text \<open>The faults of a call on an open client: a buffer overrun, or a session that is not there.\<close>

definition call_fault :: "'w ssl_lib \<Rightarrow> client_socket \<Rightarrow> fault \<Rightarrow> bool" where
  "call_fault lib s e \<longleftrightarrow> e = OutOfBounds \<or> e = NullDeref \<and> \<not> has_session lib s"

lemma still_handshake:
  assumes "handshake os lib s cfg l i r w = Some y" and "still os lib obs"
  shows "case y of Inl e \<Rightarrow> call_fault lib s e | Inr q \<Rightarrow> obs (snd q) = obs w"
proof -
  let ?Q = "\<lambda>lib s w y. case y of Inl e \<Rightarrow> call_fault lib s e | Inr q \<Rightarrow> obs (snd q) = obs w"
  let ?P = "\<lambda>os lib (s :: client_socket) (cfg :: SocketConfiguration) (l :: event_listener) (i :: nat)
      (r :: SocketResult) (w :: 'a) (y :: (SocketResult \<times> 'a) result). still os lib obs \<longrightarrow> ?Q lib s w y"
  have "?P os lib s cfg l i r w y"
  proof (rule handshake.raw_induct [of ?P, OF _ assms(1)], goal_cases)
    case (1 f os lib s cfg l i r w y)
    show ?case
    proof
      assume st: "still os lib obs"
      show "?Q lib s w y"
      proof (cases "client_reconnect os lib s False w")
        case (Inl e)
        with session_faults(1) [OF Inl] have "call_fault lib s e" by (simp add: call_fault_def)
        moreover have "i < unat (cfg_max_retries cfg) \<Longrightarrow> y = Inl e" using Inl 1(2) by simp
        moreover have "\<not> i < unat (cfg_max_retries cfg) \<Longrightarrow> y = Inr (r, w)" using 1(2) by simp
        ultimately show ?thesis by (cases "i < unat (cfg_max_retries cfg)") simp_all
      next
        case (Inr q)
        then obtain r1 w1 where c: "client_reconnect os lib s False w = Inr (r1, w1)" by (cases q) simp
        obtain r2 w2 where p: "SocketEventListener_wait os l (cfg_read_timeout cfg) w1 = (r2, w2)"
          by fastforce
        have o: "obs w1 = obs w" "obs w2 = obs w"
          using still_reconnect [OF st c] still_wait [OF st p] by simp_all
        have "f os lib s cfg l j r2 w2 = Some y \<Longrightarrow> ?Q lib s w2 y" for j using 1(1) st by blast
        with 1(2) c p o show ?thesis by (cases y) (auto split: if_splits)
      qed
    qed
  qed
  with assms(2) show ?thesis by blast
qed

lemma still_probe_loop:
  assumes "probe os lib s cfg l i r w = Some y" and "still os lib obs"
  shows "case y of Inl e \<Rightarrow> call_fault lib s e | Inr q \<Rightarrow> obs (snd q) = obs w"
proof -
  let ?Q = "\<lambda>lib s w y. case y of Inl e \<Rightarrow> call_fault lib s e | Inr q \<Rightarrow> obs (snd q) = obs w"
  let ?P = "\<lambda>os lib (s :: client_socket) (cfg :: SocketConfiguration) (l :: event_listener) (i :: nat)
      (r :: SocketResult) (w :: 'a) (y :: ((SocketResult + SocketResult) \<times> 'a) result).
      still os lib obs \<longrightarrow> ?Q lib s w y"
  have "?P os lib s cfg l i r w y"
  proof (rule probe.raw_induct [of ?P, OF _ assms(1)], goal_cases)
    case (1 f os lib s cfg l i r w y)
    show ?case
    proof
      assume st: "still os lib obs"
      show "?Q lib s w y"
      proof (cases "client_reconnect os lib s True w")
        case (Inl e)
        with session_faults(1) [OF Inl] have "call_fault lib s e" by (simp add: call_fault_def)
        moreover have "i < unat (cfg_max_retries cfg) \<Longrightarrow> y = Inl e" using Inl 1(2) by simp
        moreover have "\<not> i < unat (cfg_max_retries cfg) \<Longrightarrow> y = Inr (Inr r, w)" using 1(2) by simp
        ultimately show ?thesis by (cases "i < unat (cfg_max_retries cfg)") simp_all
      next
        case (Inr q)
        then obtain r1 w1 where c: "client_reconnect os lib s True w = Inr (r1, w1)" by (cases q) simp
        obtain r2 w2 where p: "SocketEventListener_wait os l (cfg_read_timeout cfg) w1 = (r2, w2)"
          by fastforce
        have o: "obs w1 = obs w" "obs w2 = obs w"
          using still_reconnect [OF st c] still_wait [OF st p] by simp_all
        have "f os lib s cfg l j r2 w2 = Some y \<Longrightarrow> ?Q lib s w2 y" for j using 1(1) st by blast
        with 1(2) c p o show ?thesis by (cases y) (auto split: if_splits)
      qed
    qed
  qed
  with assms(2) show ?thesis by blast
qed

lemma still_client_connect:
  assumes st: "still os lib obs" and conn: "SocketClientImpl_connect os lib c w = Some (Inr (r, w'))"
  shows "obs w' = obs w"
proof -
  let ?cfg = "cl_cfg c"
  have sleep: "obs (os_sleep os t v) = obs v" for t v
    using stillD(1) [OF st] by (simp add: quiet_def)
  obtain ip where ip: "c_str (cfg_ip ?cfg) = Inr ip"
    using conn by (cases "c_str (cfg_ip ?cfg)") (auto simp: SocketClientImpl_connect_def)
  obtain port where port: "c_str (cfg_port ?cfg) = Inr port"
    using conn ip by (cases "c_str (cfg_port ?cfg)") (auto simp: SocketClientImpl_connect_def)
  obtain a w1 where a: "SocketAddress_new os ip port False (cfg_is_unix_domain ?cfg) w = Inr (a, w1)"
    using conn ip port by (cases "SocketAddress_new os ip port False (cfg_is_unix_domain ?cfg) w")
      (auto simp: SocketClientImpl_connect_def)
  obtain s where s: "cl_socket c = Some s"
    using conn ip port a by (cases "cl_socket c") (auto simp: SocketClientImpl_connect_def the_socket_def)
  let ?l = "(client_descriptor s, POLLIN OR POLLOUT)" and ?k = "(client_descriptor s, POLLIN)"
  obtain r2 w2 where at: "connect_attempts os s ?cfg a ?l 0 (mkCode SUCCESS) w1 = (r2, w2)" by fastforce
  have "obs w1 = obs w"
    using a by (auto simp: SocketAddress_new_def bindR_Inr_iff split: prod.splits sum.splits if_splits
        dest!: stillD(9) [OF st])
  with still_attempts [OF st, of s ?cfg a ?l 0 "mkCode SUCCESS" w1] at have o: "obs w2 = obs w" by simp
  have hs: "handshake os lib s ?cfg ?l 0 r2 w2 = Some (Inr (r3, w3)) \<Longrightarrow> obs w3 = obs w" for r3 w3
    using still_handshake [OF _ st, of s ?cfg ?l 0 r2 w2 "Inr (r3, w3)"] o by simp
  have pr: "probe os lib s ?cfg ?k 0 r3 w3 = Some (Inr (p, w4)) \<Longrightarrow> obs w4 = obs w3" for r3 w3 p w4
    using still_probe_loop [OF _ st, of s ?cfg ?k 0 r3 w3 "Inr (p, w4)"] by simp
  from conn ip port a s at o show ?thesis
    by (auto simp: SocketClientImpl_connect_def the_socket_def open_listener sleep Let_def
        split: if_splits option.splits sum.splits dest!: hs pr)
qed

lemma still_send:
  assumes "still os lib obs" and "client_write os lib s buffer w = Inr (r, w')"
  shows "obs w' = obs w"
  using assms(2)
  by (cases s) (auto simp: socket_send_def TLSClientActiveSocket_write_def with_session_iff Let_def
      split: prod.splits dest!: stillD(6,15) [OF assms(1)])

lemma still_recv:
  assumes "still os lib obs" and "client_read os lib s n w = Inr (d, w')"
  shows "obs w' = obs w"
  using assms(2)
  by (cases s) (auto simp: socket_recv_def TLSClientActiveSocket_read_def with_session_iff Let_def
      split: prod.splits dest!: stillD(7,16) [OF assms(1)])

lemma still_read_loop:
  assumes st: "still os lib obs"
  shows "case read_loop os lib s cfg l n i r buffer w of Inl e \<Rightarrow> call_fault lib s e
    | Inr (r', buffer', w') \<Rightarrow> obs w' = obs w"
proof (induction "unat (cfg_max_retries cfg) - i" arbitrary: i r buffer w)
  case 0
  then show ?case by (subst read_loop.simps) simp
next
  case (Suc k)
  then have i: "i < unat (cfg_max_retries cfg)" "k = unat (cfg_max_retries cfg) - (i + 1)" by simp_all
  let ?nap = "os_sleep os (cfg_time_between_retries cfg)"
  have sleep: "obs (?nap v) = obs v" for v
    using stillD(1) [OF st] by (simp add: quiet_def)
  obtain r1 w1 where p: "SocketEventListener_wait os l (cfg_read_timeout cfg) w = (r1, w1)" by fastforce
  have o: "obs (?nap w1) = obs w" "obs w1 = obs w" using still_wait [OF st p] sleep by simp_all
  have IH: "case read_loop os lib s cfg l n (i + 1) rr b v of Inl e \<Rightarrow> call_fault lib s e
      | Inr (r', buffer', w') \<Rightarrow> obs w' = obs v" for rr b v
    by (rule Suc.hyps(1) [OF i(2)])
  note IH1 = IH [where rr = r1 and b = buffer and v = "?nap w1", unfolded o]
  show ?case
  proof (cases "sr_code r1 = SUCCESS")
    case False
    with i p o(2) IH1 show ?thesis by (subst read_loop.simps) (simp add: Let_def)
  next
    case True
    show ?thesis
    proof (cases "client_read os lib s n w1")
      case (Inl e)
      with True i p session_faults(2) [OF Inl] show ?thesis
        by (subst read_loop.simps) (simp add: call_fault_def)
    next
      case (Inr q)
      then obtain r2 data w2 where d: "client_read os lib s n w1 = Inr ((r2, data), w2)"
        by (metis prod.exhaust)
      have o2: "obs (?nap w2) = obs w" "obs w2 = obs w" using still_recv [OF st d] o sleep by simp_all
      show ?thesis
      proof (cases "write_mem buffer 0 data")
        case (Inl e)
        with True i p d show ?thesis
          by (subst read_loop.simps) (auto simp: call_fault_def dest: write_mem_Inl)
      next
        case (Inr buffer')
        with p d True i o2 IH [where v = "?nap w2", unfolded o2] show ?thesis
          by (subst read_loop.simps) (simp add: Let_def)
      qed
    qed
  qed
qed

lemma write_loop_outcome:
  assumes "write_loop send wait nap m buffer n i written r w = Some y"
    and "\<And>w. obs (snd (wait w)) = obs w" 
    and "\<And>chunk w. case send chunk w of Inl e \<Rightarrow> bad e | Inr (r, w') \<Rightarrow> obs w' = obs w"
    and "\<And>w. obs (nap w) = obs w"
  shows "case y of Inl e \<Rightarrow> e = OutOfBounds \<or> bad e | Inr (r', written', w') \<Rightarrow> obs w' = obs w"
proof -
  let ?Q = "\<lambda>w y. case y of Inl e \<Rightarrow> e = OutOfBounds \<or> bad e | Inr (r', written', w') \<Rightarrow> obs w' = obs w"
  let ?S = "\<lambda>(send :: byte list \<Rightarrow> 'a \<Rightarrow> (SocketResult \<times> 'a) result) chunk w. case send chunk w of Inl e \<Rightarrow> bad e | Inr (r, w') \<Rightarrow> obs w' = obs w"
  let ?P = "\<lambda>(send :: byte list \<Rightarrow> 'a \<Rightarrow> (SocketResult \<times> 'a) result) (wait :: 'a \<Rightarrow> SocketResult \<times> 'a)
      (nap :: 'a \<Rightarrow> 'a) (m :: nat) (buffer :: byte list) (n :: size_t) (i :: nat) (written :: size_t)
      (r :: SocketResult) w (y :: (SocketResult \<times> size_t \<times> 'a) result).
      (\<forall>w. obs (snd (wait w)) = obs w) \<longrightarrow> (\<forall>chunk w. ?S send chunk w)
      \<longrightarrow> (\<forall>w. obs (nap w) = obs w) \<longrightarrow> ?Q w y"
  have "?P send wait nap m buffer n i written r w y"
  proof (rule write_loop.raw_induct [of ?P, OF _ assms(1)], goal_cases)
    case (1 f send wait nap m buffer n i written r w y)
    show ?case
    proof (intro impI)
      assume a: "\<forall>w. obs (snd (wait w)) = obs w" "\<forall>chunk w. ?S send chunk w"
        "\<forall>w. obs (nap w) = obs w"
      have IH: "f send wait nap m buffer n j wr v u = Some y \<Longrightarrow> ?Q u y" for j wr v u
        using 1(1) a by blast
      obtain r1 w1 where w1: "wait w = (r1, w1)" by fastforce
      have o1: "obs w1 = obs w" using a(1) w1 by (metis snd_conv)
      show "?Q w y"
      proof (cases "sr_code r1 = SUCCESS \<and> i < m")
        case False
        with 1(2) w1 o1 a(3) show ?thesis by (auto split: if_splits sum.splits dest!: IH)
      next
        case True
        show ?thesis
        proof (cases "read_mem buffer written (n - written)")
          case (Inl e)
          with 1(2) w1 True show ?thesis by (auto simp: read_mem_def split: if_splits)
        next
          case (Inr chunk)
          note chunk = Inr and a2 = a(2) [rule_format, of w1 chunk]
          show ?thesis
          proof (cases "send chunk w1")
            case (Inl e)
            with 1(2) w1 True chunk a2 show ?thesis by auto
          next
            case (Inr q)
            then obtain r2 w2 where w2: "send chunk w1 = Inr (r2, w2)" by (cases q) simp
            with a2 o1 have "obs w2 = obs w" by simp
            with 1(2) w1 True chunk w2 a(3) show ?thesis
              by (auto simp: Let_def split: if_splits sum.splits dest!: IH)
          qed
        qed
      qed
    qed
  qed
  with assms(2-) show ?thesis by blast
qed

lemma still_client_write:
  assumes st: "still os lib obs" and "SocketClientImpl_write os lib c buffer n w = Some y"
    and s: "cl_socket c = Some s"
  shows "case y of Inl e \<Rightarrow> call_fault lib s e | Inr (r, w') \<Rightarrow> obs w' = obs w"
proof -
  let ?cfg = "cl_cfg c"
  have sleep: "obs (os_sleep os t v) = obs v" for t v
    using stillD(1) [OF st] by (simp add: quiet_def)
  have wait: "obs (snd (SocketEventListener_wait os l t v)) = obs v" for l t v
    using still_wait [OF st] by (metis prod.collapse)
  have send: "case client_write os lib s chunk v of Inl e \<Rightarrow> e = NullDeref \<and> \<not> has_session lib s
      | Inr (r, w') \<Rightarrow> obs w' = obs v" for chunk v
    by (cases "client_write os lib s chunk v") (auto dest: session_faults(3) still_send [OF st])
  obtain z where z: "write_loop (client_write os lib s)
      (SocketEventListener_wait os (client_descriptor s, POLLOUT) (cfg_write_timeout ?cfg))
      (os_sleep os (cfg_time_between_retries ?cfg)) (unat (cfg_max_retries ?cfg)) buffer n 0 0
      (mkCode SUCCESS) w = Some z"
    using assms(2) s by (auto simp: SocketClientImpl_write_def the_socket_def open_listener
        split: option.splits)
  note out = write_loop_outcome [where obs = obs, OF z wait send sleep, folded call_fault_def]
  show ?thesis
  proof (cases z)
    case (Inl e)
    with assms(2) s z out show ?thesis
      by (auto simp: SocketClientImpl_write_def the_socket_def open_listener call_fault_def)
  next
    case (Inr q)
    then obtain r wr w' where "z = Inr (r, wr, w')" by (cases q) auto
    with assms(2) s z out show ?thesis
      by (auto simp: SocketClientImpl_write_def the_socket_def open_listener)
  qed
qed

lemma still_client_read:
  assumes "still os lib obs" and "cl_socket c = Some s"
  shows "case SocketClientImpl_read os lib c buffer n w of Inl e \<Rightarrow> call_fault lib s e
    | Inr (r, buffer', w') \<Rightarrow> obs w' = obs w"
  using still_read_loop [OF assms(1)] assms(2)
  by (simp add: SocketClientImpl_read_def the_socket_def open_listener)

lemma still_isConnected:
  assumes "still os lib obs" and "cl_socket c = Some s"
  shows "\<exists>r w'. SocketClientImpl_isConnected os c w = Inr (r, w') \<and> obs w' = obs w"
  using assms(2)
  by (auto simp: SocketClientImpl_isConnected_def the_socket_def client_isConnected_def
      ClientActiveSocket_isConnected_def split: prod.splits dest!: stillD(8) [OF assms(1)])

lemma connect_fault:
  assumes "SocketClientImpl_connect os lib c w = Some (Inl e)" and "cl_socket c = Some s"
    and st: "still os lib obs"
  shows "call_fault lib s e"
proof -
  have hs: "handshake os lib s cfg l i r v = Some (Inl e) \<Longrightarrow> call_fault lib s e" for cfg l i r v
    using still_handshake [OF _ st, of s cfg l i r v "Inl e"] by simp
  have pr: "probe os lib s cfg l i r v = Some (Inl e) \<Longrightarrow> call_fault lib s e" for cfg l i r v
    using still_probe_loop [OF _ st, of s cfg l i r v "Inl e"] by simp
  have addr: "SocketAddress_new os ip port server ux v = Inl e \<Longrightarrow> call_fault lib s e" for ip port server ux v
    by (auto simp: call_fault_def SocketAddress_new_def bindR_Inl_iff split: if_splits prod.splits sum.splits
        dest: write_mem_Inl)
  have str: "c_str arr = Inl e \<Longrightarrow> call_fault lib s e" for arr
    by (simp add: call_fault_def c_str_def split: if_splits)
  obtain i where ip: "c_str (cfg_ip (cl_cfg c)) = i" by simp
  obtain p where port: "c_str (cfg_port (cl_cfg c)) = p" by simp
  show ?thesis
  proof (cases i; cases p)
    fix a b assume "i = Inr a" "p = Inr b"
    with ip port assms(1,2) addr show ?thesis
      by (cases "SocketAddress_new os a b False (cfg_is_unix_domain (cl_cfg c)) w")
        (auto simp: SocketClientImpl_connect_def the_socket_def open_listener Let_def
          split: prod.splits if_splits option.splits sum.splits dest: hs pr)
  qed (use ip port assms(1,2) str in \<open>auto simp: SocketClientImpl_connect_def\<close>)
qed

subsection \<open>What a client holds\<close>

definition fd_held :: "fd \<Rightarrow> resource set" where
  "fd_held f = (if 0 \<le> f then {Descriptor f} else {})"

fun socket_holds :: "client_socket \<Rightarrow> resource set" where
  "socket_holds (PlainSocket s) = fd_held (bs_fd s)"
| "socket_holds (TlsSocket s) =
     fd_held (bs_fd s) \<union> Context ` set_option (tls_context s) \<union> Session ` set_option (tls_ssl s)"

definition holds :: "client \<Rightarrow> resource set" where
  "holds c = (case cl_socket c of None \<Rightarrow> {} | Some s \<Rightarrow> socket_holds s)"

definition owns :: "('w \<Rightarrow> resource set) \<Rightarrow> resource set \<Rightarrow> client \<Rightarrow> 'w \<Rightarrow> bool" where
  "owns held base c w \<longleftrightarrow> held w = base \<union> holds c \<and> base \<inter> holds c = {}"

lemma owns_still: "owns held base c w \<Longrightarrow> held w' = held w \<Longrightarrow> owns held base c w'"
  by (simp add: owns_def)

lemma resource_envD:
  assumes "resource_env os lib held"
  shows "still os lib held"
    and "os_socket os u w = (r, w') \<Longrightarrow> - 1 \<le> r \<and> r < 2 ^ 31
          \<and> acquires held w (if 0 \<le> r then Some (Descriptor r) else None) w'"
    and "lib_ctx_new lib w = (p, w') \<Longrightarrow> acquires held w (map_option Context p) w'"
    and "lib_new lib c w = (p, w') \<Longrightarrow> acquires held w (map_option Session p) w'"
    and "held (os_close os s w) = held w - {Descriptor s}"
    and "held (lib_ctx_free lib p w) = held w - Context ` set_option p"
    and "held (lib_free lib p w) = held w - Session ` set_option p"
    and "Descriptor s \<in> held w \<Longrightarrow> 0 \<le> s"
proof -
  note env = assms [unfolded resource_env_def, THEN conjunct2]
  show "still os lib held" by (rule assms [unfolded resource_env_def, THEN conjunct1])
  show "os_socket os u w = (r, w') \<Longrightarrow> - 1 \<le> r \<and> r < 2 ^ 31
      \<and> acquires held w (if 0 \<le> r then Some (Descriptor r) else None) w'"
    by (rule env [THEN conjunct1, rule_format])
  note env = env [THEN conjunct2]
  show "lib_ctx_new lib w = (p, w') \<Longrightarrow> acquires held w (map_option Context p) w'"
    by (rule env [THEN conjunct1, rule_format])
  note env = env [THEN conjunct2]
  show "lib_new lib c w = (p, w') \<Longrightarrow> acquires held w (map_option Session p) w'"
    by (rule env [THEN conjunct1, rule_format])
  note env = env [THEN conjunct2]
  show "held (os_close os s w) = held w - {Descriptor s}" by (rule env [THEN conjunct1, rule_format])
  show "held (lib_ctx_free lib p w) = held w - Context ` set_option p"
    and "held (lib_free lib p w) = held w - Session ` set_option p"
    and "Descriptor s \<in> held w \<Longrightarrow> 0 \<le> s"
    by (rule env [THEN conjunct2, THEN conjunct1, rule_format],
        rule env [THEN conjunct2, THEN conjunct2, THEN conjunct1, rule_format],
        rule env [THEN conjunct2, THEN conjunct2, THEN conjunct2, rule_format])
qed

lemma open_socket_owns:
  assumes env: "resource_env os lib held" and "open_stream_socket os u w = (s, w')"
  shows "held w' = held w \<union> fd_held (bs_fd s) \<and> held w \<inter> fd_held (bs_fd s) = {}"
proof -
  obtain r w1 where r: "os_socket os u w = (r, w1)" by fastforce
  note a = resource_envD(2) [OF env r]
  then have i32: "i32 r = r" by (intro i32_small) simp_all
  show ?thesis
  proof (cases "0 \<le> r")
    case True
    with r i32 assms(2) have "s = \<lparr>bs_result = mkCode SUCCESS, bs_fd = r\<rparr>" "w' = w1"
      by (simp_all add: open_stream_socket_def)
    with a True show ?thesis by (simp add: acquires_def fd_held_def)
  next
    case False
    with r i32 assms(2) have "bs_fd s = r" "w' = w1"
      by (auto simp: open_stream_socket_def)
    with a False show ?thesis by (simp add: acquires_def fd_held_def)
  qed
qed

lemma settings_still:
  "still os lib held \<Longrightarrow> held (foldl (\<lambda>w st. lib_ctx_set lib ctx st w) w settings) = held w"
  by (induction settings arbitrary: w) (simp_all add: stillD(10))

lemma tls_new_owns:
  assumes env: "resource_env os lib held"
    and new: "TLSClientActiveSocket_new os lib u tls hostname w = Inr (s, w')"
  shows "held w' = held w \<union> socket_holds (TlsSocket s) \<and> held w \<inter> socket_holds (TlsSocket s) = {}"
proof -
  note st = resource_envD(1) [OF env]
  obtain b w1 where b: "open_stream_socket os u w = (b, w1)" by fastforce
  note base = open_socket_owns [OF env b]
  obtain ctx w2 where ctx: "lib_ctx_new lib w1 = (ctx, w2)" by fastforce
  note c = resource_envD(3) [OF env ctx]
  consider (failed) "sr_code (bs_result b) \<noteq> SUCCESS" | (no_ctx) "sr_code (bs_result b) = SUCCESS" "ctx = None"
    | (ctx) p where "sr_code (bs_result b) = SUCCESS" "ctx = Some p"
    by (cases ctx) auto
  then show ?thesis
  proof cases
    case failed
    with new b base show ?thesis by (auto simp: TLSClientActiveSocket_new_def ClientActiveSocket_new_def)
  next
    case no_ctx
    with new b base c ctx show ?thesis
      by (auto simp: TLSClientActiveSocket_new_def ClientActiveSocket_new_def acquires_def)
  next
    case (ctx p)
    with c have c': "Context p \<notin> held w1" "held w2 = insert (Context p) (held w1)"
      by (simp_all add: acquires_def)
    obtain sets where sets: "client_settings tls = Inr sets"
      using new b ctx \<open>lib_ctx_new lib w1 = (ctx, w2)\<close>
      by (cases "client_settings tls") (auto simp: TLSClientActiveSocket_new_def ClientActiveSocket_new_def)
    let ?w3 = "foldl (\<lambda>w st. lib_ctx_set lib (Some p) st w) w2 sets"
    obtain ssl w4 where ssl: "lib_new lib (Some p) ?w3 = (ssl, w4)" by fastforce
    note q = resource_envD(4) [OF env ssl, unfolded acquires_def settings_still [OF st]]
    show ?thesis
    proof (cases ssl)
      case None
      then have "bs_fd s = bs_fd b \<and> tls_context s = None \<and> tls_ssl s = None
          \<and> w' = lib_ctx_free lib (Some p) w4"
        using new b ctx \<open>lib_ctx_new lib w1 = (ctx, w2)\<close> sets ssl
        by (auto simp: TLSClientActiveSocket_new_def ClientActiveSocket_new_def Let_def)
      moreover have "held w4 = held w2" using q None by simp
      ultimately have "socket_holds (TlsSocket s) = fd_held (bs_fd b)" "held w' = held w1"
        using c' resource_envD(6) [OF env, of "Some p" w4] by simp_all
      then show ?thesis using base by simp
    next
      case (Some k)
      with q have k: "Session k \<notin> held w2" "held w4 = insert (Session k) (held w2)"
        by simp_all
      have "bs_fd s = bs_fd b \<and> tls_context s = Some p \<and> tls_ssl s = Some k \<and> held w' = held w4"
        using Some new b ctx \<open>lib_ctx_new lib w1 = (ctx, w2)\<close> sets ssl
        by (cases "tc_on_tls_event tls") (auto simp: TLSClientActiveSocket_new_def
            ClientActiveSocket_new_def Let_def stillD(10,11) [OF st])
      then have "socket_holds (TlsSocket s) = insert (Context p) (insert (Session k) (fd_held (bs_fd b)))"
        and "held w' = insert (Session k) (insert (Context p) (held w \<union> fd_held (bs_fd b)))"
        using k c' base by auto
      then show ?thesis using k(1) c' base by auto
    qed
  qed
qed

lemma open_owns:
  assumes env: "resource_env os lib held" and "owns held base c w" and "holds c = {}"
    and op: "SocketClientImpl_open os lib c w = Inr (r, c', w')"
  shows "owns held base c' w'"
proof -
  let ?tls = "cl_tls c"
  obtain h s where new: "ClientActiveSocketContainer_new os lib (tc_valid ?tls)
      (cfg_is_unix_domain (cl_cfg c)) ?tls (Some h) w = Inr (s, w')" and c': "c' = c\<lparr>cl_socket := Some s\<rparr>"
    using op by (auto simp: SocketClientImpl_open_def Let_def bindR_Inr_iff)
  have "held w' = held w \<union> socket_holds s \<and> held w \<inter> socket_holds s = {}"
  proof (cases "tc_valid ?tls")
    case True
    with new obtain t where "TLSClientActiveSocket_new os lib (cfg_is_unix_domain (cl_cfg c)) ?tls (Some h) w
        = Inr (t, w')" "s = TlsSocket t"
      by (auto simp: ClientActiveSocketContainer_new_def bindR_Inr_iff)
    with tls_new_owns [OF env] show ?thesis by blast
  next
    case False
    with new obtain b where "open_stream_socket os (cfg_is_unix_domain (cl_cfg c)) w = (b, w')"
        "s = PlainSocket b"
      by (auto simp: ClientActiveSocketContainer_new_def ClientActiveSocket_new_def split: prod.splits)
    with open_socket_owns [OF env] show ?thesis by simp
  qed
  with assms(2,3) c' show ?thesis by (simp add: owns_def holds_def)
qed

lemma close_owns:
  assumes env: "resource_env os lib held" and own: "owns held base c w"
    and cl: "SocketClientImpl_close os lib c w = Inr (c', w')"
  shows "owns held base c' w'" and "holds c' = {}"
proof -
  note st = resource_envD(1) [OF env]
  obtain s where s: "cl_socket c = Some s"
    using cl by (cases "cl_socket c") (auto simp: SocketClientImpl_close_def the_socket_def)
  have b: "base \<inter> socket_holds s = {}" "held w = base \<union> socket_holds s"
    using own s by (simp_all add: owns_def holds_def)
  then have d: "Descriptor f \<in> base \<Longrightarrow> 0 \<le> f" for f
    using resource_envD(8) [OF env, of f w] by simp
  obtain s1 w1 where dis: "client_disconnect os lib s w = (s1, w1)" by fastforce
  obtain s2 w2 where close: "client_close os lib s1 w1 = (s2, w2)" by fastforce
  have c': "c' = c\<lparr>cl_socket := Some s2\<rparr>" "w' = w2"
    using cl s dis close by (simp_all add: SocketClientImpl_close_def the_socket_def)
  have "socket_holds s2 = {} \<and> held w2 = held w - insert (Descriptor (client_descriptor s)) (socket_holds s)"
  proof (cases s)
    case (PlainSocket p)
    with dis close show ?thesis
      by (auto simp: ClientActiveSocket_disconnect_def ClientActiveSocket_close_def fd_held_def
          resource_envD(5) [OF env] stillD(5) [OF st] split: if_splits)
  next
    case (TlsSocket t)
    with dis close show ?thesis
      by (cases "tls_ssl t"; cases "tls_context t")
        (auto simp: TLSClientActiveSocket_disconnect_def TLSClientActiveSocket_close_def Let_def
          ClientActiveSocket_disconnect_def ClientActiveSocket_close_def fd_held_def
          resource_envD(5,6,7) [OF env] stillD(5,14) [OF st] split: if_splits)
  qed
  moreover have "insert (Descriptor (client_descriptor s)) (socket_holds s) \<inter> base = {}"
    using b(1) d [of "client_descriptor s"] by (cases s) (auto simp: fd_held_def split: if_splits)
  ultimately have "held w' = base \<and> holds c' = {}" using b(2) c' by (auto simp: holds_def)
  then show "owns held base c' w'" and "holds c' = {}" by (simp_all add: owns_def)
qed

subsection \<open>Calls\<close>

text \<open>
  The members of the public class \<^verbatim>\<open>SocketClient\<close>, each of which forwards to the object in its
  container; the destructor is the close of that object. What the application does with the
  results is its own affair.
\<close>

datatype client_call =
    Open | Connect | Read "byte list" size_t | Write "byte list" size_t | IsConnected | Close

fun client_do ::
  "'w os \<Rightarrow> 'w ssl_lib \<Rightarrow> client_call \<Rightarrow> client \<Rightarrow> 'w \<Rightarrow> (client \<times> 'w) result option" where
  "client_do os lib Open c w = Some (bindR (SocketClientImpl_open os lib c w) (\<lambda>(r, c, w). Inr (c, w)))"
| "client_do os lib Connect c w =
     map_option (\<lambda>y. bindR y (\<lambda>(r, w). Inr (c, w))) (SocketClientImpl_connect os lib c w)"
| "client_do os lib (Read buffer n) c w =
     Some (bindR (SocketClientImpl_read os lib c buffer n w) (\<lambda>(r, buffer, w). Inr (c, w)))"
| "client_do os lib (Write buffer n) c w =
     map_option (\<lambda>y. bindR y (\<lambda>(r, w). Inr (c, w))) (SocketClientImpl_write os lib c buffer n w)"
| "client_do os lib IsConnected c w =
     Some (bindR (SocketClientImpl_isConnected os c w) (\<lambda>(r, w). Inr (c, w)))"
| "client_do os lib Close c w = Some (SocketClientImpl_close os lib c w)"

fun client_calls ::
  "'w os \<Rightarrow> 'w ssl_lib \<Rightarrow> client_call list \<Rightarrow> client \<Rightarrow> 'w \<Rightarrow> (client \<times> 'w) result option" where
  "client_calls os lib [] c w = Some (Inr (c, w))"
| "client_calls os lib (x # xs) c w =
     (case client_do os lib x c w of None \<Rightarrow> None
      | Some (Inl e) \<Rightarrow> Some (Inl e)
      | Some (Inr (c, w)) \<Rightarrow> client_calls os lib xs c w)"

text \<open>
  The calls that reach the TLS library, and a client whose TLS socket has no session: its
  construction failed before or at \<^verbatim>\<open>SSL_new\<close>, or it has been closed.
\<close>

fun needs_session :: "client_call \<Rightarrow> bool" where
  "needs_session Connect = True"
| "needs_session (Read buffer n) = True"
| "needs_session (Write buffer n) = True"
| "needs_session Open = False"
| "needs_session IsConnected = False"
| "needs_session Close = False"

definition sessionless :: "client \<Rightarrow> bool" where
  "sessionless c = (case cl_socket c of Some (TlsSocket t) \<Rightarrow> tls_ssl t = None | _ \<Rightarrow> False)"

lemma sessionless: "cl_socket c = Some s \<Longrightarrow> has_session lib s \<longleftrightarrow> \<not> sessionless c \<or> lib_null_ok lib"
  by (cases s) (simp_all add: sessionless_def)

text \<open>A client is opened only when it holds nothing: at first, and after a close.\<close>

fun opens_closed :: "bool \<Rightarrow> client_call list \<Rightarrow> bool" where
  "opens_closed closed [] = True"
| "opens_closed closed (Open # xs) = (closed \<and> opens_closed False xs)"
| "opens_closed closed (Close # xs) = opens_closed True xs"
| "opens_closed closed (x # xs) = opens_closed closed xs"

lemma close_total: "cl_socket c \<noteq> None \<Longrightarrow> \<exists>c' w'. SocketClientImpl_close os lib c w = Inr (c', w')"
  by (auto simp: SocketClientImpl_close_def the_socket_def split: prod.splits)

lemma close_keeps_socket: "SocketClientImpl_close os lib c w = Inr (c', w') \<Longrightarrow> cl_socket c' \<noteq> None"
  by (auto simp: SocketClientImpl_close_def bindR_Inr_iff split_def Let_def)

lemma client_do_still:
  assumes st: "still os lib obs" and "x \<notin> {Open, Close}" and s: "cl_socket c = Some s"
    and res: "client_do os lib x c w = Some y"
  shows "case y of Inl e \<Rightarrow> call_fault lib s e \<and> needs_session x
    | Inr (c', w') \<Rightarrow> c' = c \<and> obs w' = obs w"
proof (cases x)
  case Connect
  with res obtain z where z: "SocketClientImpl_connect os lib c w = Some z"
      "y = bindR z (\<lambda>(r, w). Inr (c, w))" by auto
  show ?thesis
  proof (cases z)
    case (Inl e)
    with connect_fault [OF _ s st, of w e] z Connect show ?thesis by simp
  next
    case (Inr q)
    then obtain r w' where "z = Inr (r, w')" by (cases q) auto
    with still_client_connect [OF st, of c w r w'] z show ?thesis by simp
  qed
next
  case (Read buffer n)
  with still_client_read [OF st s, where buffer = buffer and n = n and w = w] res show ?thesis
    by (cases "SocketClientImpl_read os lib c buffer n w") auto
next
  case (Write buffer n)
  with res obtain z where z: "SocketClientImpl_write os lib c buffer n w = Some z"
      "y = bindR z (\<lambda>(r, w). Inr (c, w))" by auto
  with still_client_write [OF st z(1) s] Write show ?thesis by (cases z) auto
next
  case IsConnected
  with still_isConnected [OF st s, of w] res show ?thesis by auto
qed (use assms(2) in simp_all)

lemma bindO_Inr_iff: "bindO m f = Some (Inr y) \<longleftrightarrow> (\<exists>x. m = Inr x \<and> f x = Some (Inr y))"
  by (cases m) auto

lemma no_socket_faults:
  assumes "cl_socket c = None" and "x \<noteq> Open"
  shows "client_do os lib x c w \<noteq> Some (Inr y)"
proof -
  have "SocketClientImpl_connect os lib c w \<noteq> Some (Inr z)" for z
    using assms(1) by (auto simp: SocketClientImpl_connect_def the_socket_def bindO_Inr_iff Let_def)
  with assms show ?thesis
    by (cases x) (auto simp: SocketClientImpl_read_def SocketClientImpl_write_def SocketClientImpl_close_def
        SocketClientImpl_isConnected_def the_socket_def bindR_Inr_iff)
qed

lemma client_do_owns:
  assumes env: "resource_env os lib held" and own: "owns held base c w"
    and op: "x = Open \<Longrightarrow> holds c = {}"
    and res: "client_do os lib x c w = Some (Inr (c', w'))"
  shows "owns held base c' w' \<and> cl_socket c' \<noteq> None
    \<and> (x = Close \<or> x \<noteq> Open \<and> holds c = {} \<longrightarrow> holds c' = {})"
proof (cases "x = Open \<or> x = Close")
  case False
  then obtain s where s: "cl_socket c = Some s"
    using no_socket_faults [of c x os lib w "(c', w')"] res by (cases "cl_socket c") auto
  from client_do_still [OF resource_envD(1) [OF env] _ s res] False have "c' = c" "held w' = held w" by auto
  with own s False show ?thesis by (auto simp: owns_still)
next
  case True
  then show ?thesis
  proof
    assume x: "x = Open"
    with res obtain r where r: "SocketClientImpl_open os lib c w = Inr (r, c', w')"
      by (auto simp: bindR_Inr_iff)
    then have "cl_socket c' \<noteq> None" by (auto simp: SocketClientImpl_open_def Let_def bindR_Inr_iff)
    with open_owns [OF env own op [OF x] r] x show ?thesis by simp
  next
    assume x: "x = Close"
    with res have r: "SocketClientImpl_close os lib c w = Inr (c', w')" by simp
    with close_owns [OF env own r] close_keeps_socket [OF r] show ?thesis by simp
  qed
qed

lemma client_calls_owns:
  assumes env: "resource_env os lib held"
  shows "owns held base c w \<Longrightarrow> (closed \<Longrightarrow> holds c = {}) \<Longrightarrow> opens_closed closed xs \<Longrightarrow>
    client_calls os lib xs c w = Some (Inr (c', w')) \<Longrightarrow>
    owns held base c' w' \<and> (xs \<noteq> [] \<and> last xs = Close \<longrightarrow> holds c' = {})"
proof (induction xs arbitrary: c w closed)
  case (Cons x xs)
  then obtain c1 w1 where x: "client_do os lib x c w = Some (Inr (c1, w1))"
      and xs: "client_calls os lib xs c1 w1 = Some (Inr (c', w'))"
    by (auto split: option.splits sum.splits)
  have op: "x = Open \<Longrightarrow> holds c = {}" using Cons.prems(2,3) by auto
  note own = client_do_owns [OF env Cons.prems(1) op x]
  let ?closed = "(if x = Open then False else x = Close \<or> closed)"
  have "opens_closed ?closed xs" using Cons.prems(3) by (cases x) auto
  moreover have "?closed \<Longrightarrow> holds c1 = {}" using own Cons.prems(2) by (auto split: if_splits)
  ultimately have "owns held base c' w' \<and> (xs \<noteq> [] \<and> last xs = Close \<longrightarrow> holds c' = {})"
    using Cons.IH [OF _ _ _ xs] own by blast
  with own xs show ?case by (cases xs) auto
qed simp

subsection \<open>Faults\<close>

lemma append_suites_fault: "append_suites table bm off d = Inl e \<Longrightarrow> e = OutOfBounds"
  by (induction table bm off d rule: append_suites.induct)
    (auto simp: appendCipherString_def Let_def bindR_Inl_iff split: if_splits dest: write_mem_Inl)

lemma c_str_fault: "c_str arr = Inl e \<Longrightarrow> e = OutOfBounds"
  by (simp add: c_str_def split: if_splits)

lemma settings_fault: "client_settings tls = Inl e \<Longrightarrow> e = OutOfBounds"
  by (auto simp: client_settings_def cipher_settings_def verify_settings_def certificate_settings_def
      generateTLS12CipherSuites_def generateTLS13CipherSuites_def generateSuites_def bindR_Inl_iff
      split: if_splits dest: c_str_fault append_suites_fault write_mem_Inl)

lemma tls_new_fault: "TLSClientActiveSocket_new os lib u tls h w = Inl e \<Longrightarrow> e = OutOfBounds"
  by (cases "client_settings tls")
    (auto simp: TLSClientActiveSocket_new_def Let_def split_def dest: settings_fault split: if_splits)

lemma open_fault: "SocketClientImpl_open os lib c w = Inl e \<Longrightarrow> e = OutOfBounds"
  by (auto simp: SocketClientImpl_open_def ClientActiveSocketContainer_new_def
      Let_def bindR_Inl_iff split_def split: if_splits dest: c_str_fault tls_new_fault)

lemma client_do_fault:
  assumes st: "still os lib obs" and "cl_socket c \<noteq> None \<or> x = Open"
    and res: "client_do os lib x c w = Some (Inl e)"
  shows "e = OutOfBounds \<or> e = NullDeref \<and> \<not> lib_null_ok lib \<and> needs_session x \<and> sessionless c"
proof (cases "x = Open \<or> x = Close")
  case False
  with assms(2) obtain s where "cl_socket c = Some s" by auto
  with client_do_still [OF st _ this res] sessionless [OF this, of lib] False show ?thesis
    by (auto simp: call_fault_def)
next
  case True
  then show ?thesis
  proof
    assume "x = Open"
    with res open_fault [of os lib c w e] show ?thesis by (auto simp: bindR_Inl_iff)
  next
    assume "x = Close"
    with res assms(2) close_total [of c os lib w] show ?thesis by auto
  qed
qed

text \<open>Some call of the sequence reaches the library with no session.\<close>

definition null_session_call ::
  "'w os \<Rightarrow> 'w ssl_lib \<Rightarrow> client_call list \<Rightarrow> client \<Rightarrow> 'w \<Rightarrow> bool" where
  "null_session_call os lib xs c w \<longleftrightarrow> (\<exists>i < length xs. needs_session (xs ! i)
     \<and> (case client_calls os lib (take i xs) c w of
          Some (Inr (c', w')) \<Rightarrow> sessionless c' | _ \<Rightarrow> False))"

lemma null_session_call_Cons:
  "null_session_call os lib (x # xs) c w \<longleftrightarrow> needs_session x \<and> sessionless c
     \<or> (case client_do os lib x c w of Some (Inr (c, w)) \<Rightarrow> null_session_call os lib xs c w | _ \<Rightarrow> False)"
  unfolding null_session_call_def
  by (subst length_Cons, subst Ex_less_Suc2) (auto split: option.splits sum.splits)

lemma client_calls_fault:
  assumes env: "resource_env os lib held"
  shows "owns held base c w \<Longrightarrow> (closed \<Longrightarrow> holds c = {}) \<Longrightarrow> opens_closed closed xs \<Longrightarrow>
    cl_socket c \<noteq> None \<or> xs = [] \<or> hd xs = Open \<Longrightarrow>
    client_calls os lib xs c w = Some (Inl e) \<Longrightarrow>
    e = OutOfBounds \<or> e = NullDeref \<and> \<not> lib_null_ok lib \<and> null_session_call os lib xs c w"
proof (induction xs arbitrary: c w closed)
  case (Cons x xs)
  have op: "x = Open \<Longrightarrow> holds c = {}" using Cons.prems(2,3) by auto
  show ?case
  proof (cases "client_do os lib x c w")
    case None
    with Cons.prems(5) show ?thesis by simp
  next
    case (Some y)
    show ?thesis
    proof (cases y)
      case (Inl e')
      with client_do_fault [OF resource_envD(1) [OF env], of c x w e'] Cons.prems(4,5) Some
      show ?thesis by (auto simp: null_session_call_Cons)
    next
      case (Inr q)
      then obtain c1 w1 where y: "client_do os lib x c w = Some (Inr (c1, w1))" using Some by (cases q) auto
      let ?closed = "(if x = Open then False else x = Close \<or> closed)"
      note own = client_do_owns [OF env Cons.prems(1) op y]
      have "opens_closed ?closed xs" using Cons.prems(3) by (cases x) auto
      moreover have "?closed \<Longrightarrow> holds c1 = {}" using own Cons.prems(2) by (auto split: if_splits)
      moreover have "client_calls os lib xs c1 w1 = Some (Inl e)" using y Cons.prems(5) by simp
      ultimately have "e = OutOfBounds
          \<or> e = NullDeref \<and> \<not> lib_null_ok lib \<and> null_session_call os lib xs c1 w1"
        using Cons.IH [of c1 w1 ?closed] own by blast
      with y show ?thesis by (auto simp: null_session_call_Cons)
    qed
  qed
qed simp

subsection \<open>Property\<close>

text \<open>
  C22. A client keeps account of what it acquires: for every sequence of calls in which a client
  is opened first and opened again only after a close, whatever the calls in between do or
  return, the descriptors, TLS contexts and TLS sessions open in the process are those it had
  before and the ones the client refers to, each acquired by it; after a close they are those
  it had before. The only faults are overruns of a buffer and, where the TLS library does not
  accept a null session, a connect, read or write of a TLS client that has none: its opening
  failed, or it is closed.
\<close>

theorem client_resources:
  assumes "resource_env os lib held" and "opens_closed True xs" and "xs \<noteq> [] \<Longrightarrow> hd xs = Open"
  shows "case client_calls os lib xs (SocketClientImpl_new cfg tls) w of
      None \<Rightarrow> True
    | Some (Inl e) \<Rightarrow> e = OutOfBounds \<or> e = NullDeref \<and> \<not> lib_null_ok lib
        \<and> null_session_call os lib xs (SocketClientImpl_new cfg tls) w
    | Some (Inr (c, w')) \<Rightarrow> held w' = held w \<union> holds c \<and> held w \<inter> holds c = {}
        \<and> (xs \<noteq> [] \<and> last xs = Close \<longrightarrow> held w' = held w)"
proof -
  let ?c = "SocketClientImpl_new cfg tls"
  have "holds ?c = {}" by (simp add: holds_def SocketClientImpl_new_def)
  then have own: "owns held (held w) ?c w" and closed: "True \<Longrightarrow> holds ?c = {}"
    by (simp_all add: owns_def)
  show ?thesis
  proof (cases "client_calls os lib xs ?c w")
    case (Some y)
    show ?thesis
    proof (cases y)
      case (Inl e)
      with client_calls_fault [OF assms(1) own closed assms(2), of e] assms(3) Some show ?thesis by auto
    next
      case (Inr q)
      obtain c w' where q: "q = (c, w')" by (cases q)
      from client_calls_owns [OF assms(1) own closed assms(2), of c w'] Some Inr q
      show ?thesis by (auto simp: owns_def)
    qed
  qed simp
qed

text \<open>The environment of the witness: descriptor 5, context 1, session 2, each given out once.\<close>

definition scarce :: "resource \<Rightarrow> 'a option \<Rightarrow> resource set \<Rightarrow> 'a option \<times> resource set" where
  "scarce r x S = (if r \<in> S then (None, S) else (x, insert r S))"

definition scarce_os :: "resource set os" where
  "scarce_os = null_os\<lparr>
     os_socket := (\<lambda>u S. if Descriptor 5 \<in> S then (- 1, S) else (5, insert (Descriptor 5) S)),
     os_close := (\<lambda>s S. S - {Descriptor s})\<rparr>"

definition scarce_lib :: "resource set ssl_lib" where
  "scarce_lib = stub_ssl\<lparr>
     lib_ctx_new := scarce (Context 1) (Some 1), lib_new := (\<lambda>c. scarce (Session 2) (Some 2)),
     lib_ctx_free := (\<lambda>p S. S - Context ` set_option p), lib_free := (\<lambda>p S. S - Session ` set_option p),
     lib_null_ok := False\<rparr>"

definition nonnegative :: "resource set \<Rightarrow> resource set" where
  "nonnegative S = {r \<in> S. case r of Descriptor f \<Rightarrow> 0 \<le> f | _ \<Rightarrow> True}"

lemma scarce_env: "resource_env scarce_os scarce_lib nonnegative"
  by (auto simp: resource_env_def still_def quiet_def acquires_def scarce_os_def scarce_lib_def
      null_os_def stub_ssl_def scarce_def nonnegative_def split: if_splits)

theorem client_resources_witness:
  "\<exists>c S. client_calls scarce_os scarce_lib [Open, IsConnected, Close, Open]
      (SocketClientImpl_new (cl_cfg (sample_client sample_socket))
        (SocketTLSClientConfiguration_new [TLS1_3] [] [] True False None False None None None)) {}
      = Some (Inr (c, S))
    \<and> S = {Descriptor 5, Context 1, Session 2} \<and> nonnegative S = holds c"
proof -
  let ?tls = "SocketTLSClientConfiguration_new [TLS1_3] [] [] True False None False None None None"
  let ?c = "SocketClientImpl_new (cl_cfg (sample_client sample_socket)) ?tls"
  have "tc_valid ?tls" "\<not> tc_verify_hostname ?tls" "tc_on_tls_event ?tls = None"
    by (simp_all add: tc_valid_def SocketTLSClientConfiguration_new_def or_bits_def)
  moreover obtain st where "client_settings ?tls = Inr st"
    using client_settings_total [of ?tls None None None None]
    by (auto simp: SocketTLSClientConfiguration_new_def)
  moreover have "foldl (\<lambda>w st. w) S ss = (S :: resource set)" for S and ss :: "ctx_setting list"
    by (induction ss) simp_all
  moreover have "{Session 2, Context (Suc 0), Descriptor 5} = {Descriptor 5, Context (Suc 0), Session 2}"
    "{Descriptor 5, Context (Suc 0), Session 2} - {Session 2} - {Context (Suc 0)} \<subseteq> {Descriptor 5}"
    "insert (Session 2) (insert (Context (Suc 0)) (insert (Descriptor 5)
       ({Descriptor 5, Context (Suc 0), Session 2} - {Session 2} - {Context (Suc 0)})))
      = {Descriptor 5, Context (Suc 0), Session 2}"
    by auto
  ultimately obtain c where c: "client_calls scarce_os scarce_lib [Open, IsConnected, Close, Open] ?c {}
      = Some (Inr (c, {Descriptor 5, Context 1, Session 2}))"
    by (simp add: SocketClientImpl_open_def SocketClientImpl_new_def ClientActiveSocketContainer_new_def
        TLSClientActiveSocket_new_def ClientActiveSocket_new_def open_stream_socket_def scarce_os_def
        scarce_lib_def scarce_def null_os_def stub_ssl_def i32_small the_socket_def
        SocketClientImpl_isConnected_def client_isConnected_def ClientActiveSocket_isConnected_def
        SocketClientImpl_close_def TLSClientActiveSocket_disconnect_def TLSClientActiveSocket_close_def
        ClientActiveSocket_disconnect_def ClientActiveSocket_close_def Let_def)
  from client_resources [OF scarce_env, where xs = "[Open, IsConnected, Close, Open]" and tls = ?tls
      and cfg = "cl_cfg (sample_client sample_socket)" and w = "{}"] c
  show ?thesis by (auto simp: nonnegative_def)
qed

text \<open>
  Such a fault happens: when the constructor has failed at \<^verbatim>\<open>SSL_new\<close> the client keeps its
  descriptor, and a connect that reaches the peer hands the null session to the library.
\<close>

theorem null_session_connect:
  assumes "cl_socket c = Some (TlsSocket t)" and "tls_ssl t = None" and "\<not> lib_null_ok lib"
    and "c_str (cfg_ip (cl_cfg c)) = Inr ip" and "c_str (cfg_port (cl_cfg c)) = Inr port"
    and "resolver_ok os" and "cfg_max_retries (cl_cfg c) \<noteq> 0"
    and "\<And>a rt wt v. sr_code (fst (client_connect os (TlsSocket t) a rt wt v)) = SUCCESS"
  shows "SocketClientImpl_connect os lib c w = Some (Inl NullDeref)"
proof -
  obtain a w1 where a: "SocketAddress_new os ip port False (cfg_is_unix_domain (cl_cfg c)) w = Inr (a, w1)"
    using address_total [OF assms(6)] by blast
  let ?l = "(bs_fd t, POLLIN OR POLLOUT)"
  have i: "0 < unat (cfg_max_retries (cl_cfg c))" using assms(7) by (simp add: unat_gt_0)
  obtain r w2 where at: "client_connect os (TlsSocket t) a (cfg_read_timeout (cl_cfg c))
      (cfg_write_timeout (cl_cfg c)) w1 = (r, w2)" by fastforce
  then have "sr_code r = SUCCESS" using assms(8) by (metis fst_conv)
  moreover from this have "connect_attempts os (TlsSocket t) (cl_cfg c) a ?l 0 (mkCode SUCCESS) w1 = (r, w2)"
    using i at by (subst connect_attempts.simps) simp
  moreover have "handshake os lib (TlsSocket t) (cl_cfg c) ?l 0 r w2 = Some (Inl NullDeref)"
    using i assms(2,3) by (subst handshake.simps) (simp add: TLSClientActiveSocket_reconnect_def with_session_def)
  ultimately show ?thesis using assms(1,4,5) a
    by (simp add: SocketClientImpl_connect_def the_socket_def open_listener Let_def)
qed

theorem null_session_connect_witness:
  "SocketClientImpl_connect (null_os\<lparr>os_connect := (\<lambda>s a w. (0, w))\<rparr>) (stub_ssl\<lparr>lib_null_ok := False\<rparr>)
     (sample_client (TlsSocket \<lparr>bs_result = mkCode TLS_INITIALIZATION_FAIL, bs_fd = 5,
        tls_context = None, tls_ssl = None, tls_hostname = None\<rparr>)) ()
   = Some (Inl NullDeref)"
  by (rule null_session_connect [OF sample_client_simps(1)])
    (auto simp: sample_client_simps client_connect_def ClientActiveSocket_connect_def null_os_def resolver_ok_def)

end
