(* ===== verification/Connection.thy ===== *)
theory Connection
  imports Event_Listener
begin

text \<open>
  \<^verbatim>\<open>SocketConnection\<close>: one accepted client of the request server. It assembles a request
  from a header of fixed size and a payload whose size the header gives, hands it to the
  application's handler and writes the response back, a bounded step per poll event.
\<close>

subsection \<open>Handler\<close>

datatype SocketRequestMode = FAST | SLOW | READ_STREAM | WRITE_STREAM

text \<open>
  \<^verbatim>\<open>SocketRequestHandler\<close> is the application's: a parameter. \<open>h_processed\<close> is given the
  header, the payload buffer and the payload's size, and answers with the bytes it stores
  at the output pointer and the size it stores at \<^verbatim>\<open>output_size\<close>.
\<close>

record 'w handler =
  h_header_size :: size_t
  h_payload_size :: "byte list \<Rightarrow> 'w \<Rightarrow> size_t \<times> 'w"
  h_mode :: "byte list \<Rightarrow> 'w \<Rightarrow> SocketRequestMode \<times> 'w"
  h_connected :: "string \<Rightarrow> nat \<Rightarrow> 'w \<Rightarrow> 'w"
  h_disconnected :: "string \<Rightarrow> nat \<Rightarrow> 'w \<Rightarrow> 'w"
  h_processed :: "byte list \<Rightarrow> byte list \<Rightarrow> size_t \<Rightarrow> 'w \<Rightarrow> (byte list \<times> size_t) \<times> 'w"
  h_processed_without_response :: "byte list \<Rightarrow> byte list \<Rightarrow> size_t \<Rightarrow> 'w \<Rightarrow> 'w"

subsection \<open>State\<close>

datatype ProcessState = READING_HEADER | READING_PAYLOAD | WRITING_RESPONSE | FINISH_PROCESS

record connection =
  conn_ctx :: event_context
  conn_socket :: server_socket
  conn_state :: ProcessState
  conn_header_read :: size_t
  conn_header :: "byte list"
  conn_payload_size :: size_t
  conn_payload_read :: size_t
  conn_payload :: "byte list"
  conn_mode :: SocketRequestMode
  conn_response_size :: size_t
  conn_written :: size_t
  conn_output :: "byte list"

definition SocketConnection_new :: "server_socket \<Rightarrow> 'w handler \<Rightarrow> size_t \<Rightarrow> connection" where
  "SocketConnection_new socket h pdu_size =
     \<lparr>conn_ctx = \<lparr>ec_fd = bs_fd socket, ec_type = UNDEFINED\<rparr>,
      conn_socket = socket,
      conn_state = READING_HEADER,
      conn_header_read = 0,
      conn_header = replicate (unat (h_header_size h)) 0,
      conn_payload_size = 0,
      conn_payload_read = 0,
      conn_payload = replicate (unat pdu_size) 0,
      conn_mode = FAST,
      conn_response_size = 0,
      conn_written = 0,
      conn_output = replicate (unat pdu_size) 0\<rparr>"

subsection \<open>Operations\<close>

definition connectClient :: "'w handler \<Rightarrow> connection \<Rightarrow> 'w \<Rightarrow> 'w" where
  "connectClient h c w = h_connected h (ss_ip (conn_socket c)) (ss_port (conn_socket c)) w"

definition disconnectClient ::
  "'w os \<Rightarrow> 'w handler \<Rightarrow> connection \<Rightarrow> 'w \<Rightarrow> connection \<times> 'w" where
  "disconnectClient os h c w =
     (let w = h_disconnected h (ss_ip (conn_socket c)) (ss_port (conn_socket c)) w;
          (s, w) = ServerActiveSocket_close os (conn_socket c) w
      in (c\<lparr>conn_socket := s\<rparr>, w))"

definition process ::
  "'w handler \<Rightarrow> size_t \<Rightarrow> connection \<Rightarrow> 'w \<Rightarrow> (ProcessState \<times> connection \<times> 'w) result" where
  "process h payload_size c w =
     (let ((out, n), w) = h_processed h (conn_header c) (conn_payload c) payload_size w
      in bindR (write_mem (conn_output c) 0 out) (\<lambda>output.
           Inr (WRITING_RESPONSE, c\<lparr>conn_output := output, conn_response_size := n\<rparr>, w)))"

fun runTask ::
  "'w handler \<Rightarrow> SocketRequestMode \<Rightarrow> size_t \<Rightarrow> connection \<Rightarrow> 'w
   \<Rightarrow> (ProcessState \<times> connection \<times> 'w) result" where
  "runTask h FAST payload_size c w = process h payload_size c w"
| "runTask h SLOW payload_size c w = Inr (WRITING_RESPONSE, c, w)"
| "runTask h READ_STREAM payload_size c w = process h payload_size c w"
| "runTask h WRITE_STREAM payload_size c w =
     Inr (FINISH_PROCESS, c,
          h_processed_without_response h (conn_header c) (conn_payload c) payload_size w)"

definition readHeader ::
  "'w os \<Rightarrow> 'w handler \<Rightarrow> connection \<Rightarrow> 'w \<Rightarrow> (ProcessState \<times> connection \<times> 'w) result" where
  "readHeader os h c w =
     (let size = of_nat (length (conn_header c));
          off = conn_header_read c;
          ((result, data), w) = ServerActiveSocket_read os (conn_socket c) (size - off) w
      in bindR (write_mem (conn_header c) off data) (\<lambda>header.
           let c = c\<lparr>conn_header := header\<rparr> in
           if sr_bytes result < 0 then Inr (READING_HEADER, c, w) else
           let c = c\<lparr>conn_header_read := off + size_of (sr_bytes result)\<rparr> in
           if conn_header_read c = size then
             (let (n, w) = h_payload_size h header w;
                  (mode, w) = h_mode h header w;
                  c = c\<lparr>conn_payload_size := n, conn_mode := mode\<rparr>
              in if n = 0 then runTask h mode n c w else Inr (READING_PAYLOAD, c, w))
           else Inr (READING_HEADER, c, w)))"

definition readPayload ::
  "'w os \<Rightarrow> 'w handler \<Rightarrow> connection \<Rightarrow> 'w \<Rightarrow> (ProcessState \<times> connection \<times> 'w) result" where
  "readPayload os h c w =
     (let off = conn_payload_read c;
          ((result, data), w) =
            ServerActiveSocket_read os (conn_socket c) (conn_payload_size c - off) w
      in bindR (write_mem (conn_payload c) off data) (\<lambda>payload.
           let c = c\<lparr>conn_payload := payload\<rparr> in
           if sr_bytes result < 0 then Inr (READING_PAYLOAD, c, w) else
           let c = c\<lparr>conn_payload_read := off + size_of (sr_bytes result)\<rparr> in
           if conn_payload_read c = conn_payload_size c
           then runTask h (conn_mode c) (conn_payload_size c) c w
           else Inr (READING_PAYLOAD, c, w)))"

definition writeResponse ::
  "'w os \<Rightarrow> connection \<Rightarrow> 'w \<Rightarrow> (ProcessState \<times> connection \<times> 'w) result" where
  "writeResponse os c w =
     (let off = conn_written c in
      bindR (read_mem (conn_output c) off (conn_response_size c - off)) (\<lambda>buf.
        let (result, w) = ServerActiveSocket_write os (conn_socket c) buf w in
        if sr_bytes result < 0 then Inr (WRITING_RESPONSE, c, w) else
        let c = c\<lparr>conn_written := off + size_of (sr_bytes result)\<rparr> in
        Inr (if conn_written c = conn_response_size c then FINISH_PROCESS else WRITING_RESPONSE, c, w)))"

definition flush :: "connection \<Rightarrow> connection" where
  "flush c = c\<lparr>conn_header := replicate (length (conn_header c)) 0,
               conn_payload := replicate (length (conn_payload c)) 0,
               conn_output := replicate (length (conn_output c)) 0,
               conn_state := READING_HEADER,
               conn_header_read := 0,
               conn_payload_size := 0,
               conn_payload_read := 0,
               conn_response_size := 0,
               conn_written := 0\<rparr>"

subsection \<open>The server's use of a connection\<close>

text \<open>
  The cases \<^verbatim>\<open>READ\<close> and \<^verbatim>\<open>WRITE\<close> of \<^verbatim>\<open>SocketRequestServerImpl::run\<close>, up to the change of
  the registration, which is the second result.
\<close>

definition after_read ::
  "(ProcessState \<times> connection \<times> 'w) \<Rightarrow> connection \<times> SocketEventType option \<times> 'w" where
  "after_read r =
     (case r of (st, c, w) \<Rightarrow>
        let c = c\<lparr>conn_state := st\<rparr> in
        if conn_state c = WRITING_RESPONSE then (c, Some WRITE, w)
        else if conn_state c = FINISH_PROCESS
        then ((flush c)\<lparr>conn_state := READING_HEADER\<rparr>, None, w)
        else (c, None, w))"

definition connection_read_event ::
  "'w os \<Rightarrow> 'w handler \<Rightarrow> connection \<Rightarrow> 'w \<Rightarrow> (connection \<times> SocketEventType option \<times> 'w) result"
  where
  "connection_read_event os h c w =
     (case conn_state c of
        READING_HEADER \<Rightarrow> bindR (readHeader os h c w) (\<lambda>r. Inr (after_read r))
      | READING_PAYLOAD \<Rightarrow> bindR (readPayload os h c w) (\<lambda>r. Inr (after_read r))
      | _ \<Rightarrow> Inr (c, None, w))"

definition connection_write_event ::
  "'w os \<Rightarrow> connection \<Rightarrow> 'w \<Rightarrow> (connection \<times> SocketEventType option \<times> 'w) result" where
  "connection_write_event os c w =
     (case conn_state c of
        WRITING_RESPONSE \<Rightarrow>
          bindR (writeResponse os c w) (\<lambda>(st, c, w).
            let c = c\<lparr>conn_state := st\<rparr> in
            if conn_state c = FINISH_PROCESS
            then Inr ((flush c)\<lparr>conn_state := READING_HEADER\<rparr>, Some READ, w)
            else Inr (c, None, w))
      | _ \<Rightarrow> Inr (c, None, w))"

subsection \<open>Worker\<close>

text \<open>
  The worker thread a connection carries (no code starts it): a flag, a queue of tasks and
  the body of the thread's loop. A step is what the thread does each time its wait is over;
  \<open>None\<close> means it waits, \<open>Inl\<close> that the thread ends. The flag is read twice outside the
  lock, before the task is run and at the end of the loop: \<open>seen\<close> and \<open>again\<close> are the
  values read.
\<close>

record 'w worker =
  wk_running :: bool
  wk_tasks :: "('w \<Rightarrow> 'w) list"

definition startWorker :: "'w worker \<Rightarrow> 'w worker" where
  "startWorker k = k\<lparr>wk_running := True\<rparr>"

definition stopWorker :: "'w worker \<Rightarrow> 'w worker" where
  "stopWorker k = k\<lparr>wk_running := False\<rparr>"

definition addTask :: "('w \<Rightarrow> 'w) \<Rightarrow> 'w worker \<Rightarrow> 'w worker" where
  "addTask t k = k\<lparr>wk_tasks := wk_tasks k @ [t]\<rparr>"

definition routine_step ::
  "bool \<Rightarrow> bool \<Rightarrow> 'w worker \<Rightarrow> 'w \<Rightarrow> (('w worker \<times> 'w) + ('w worker \<times> 'w)) option" where
  "routine_step seen again k w =
     (if wk_running k \<and> wk_tasks k = [] then None
      else case wk_tasks k of
             [] \<Rightarrow> Some (Inl (k, w))
           | t # ts \<Rightarrow>
               (let k = k\<lparr>wk_tasks := ts\<rparr>;
                    w = (if seen then t w else w)
                in Some (if again then Inr (k, w) else Inl (k, w))))"

subsection \<open>Byte streams\<close>

text \<open>
  What a connection relies on: reading takes bytes off the incoming stream, writing puts a
  prefix of its argument on the outgoing one, and neither touches the other. \<open>received\<close> and
  \<open>sent\<close> are the streams so far, \<open>contract\<close> the condition on the environment.
\<close>

locale byte_stream =
  fixes take_in :: "size_t \<Rightarrow> 'w \<Rightarrow> (SocketResult \<times> byte list) \<times> 'w"
    and put_out :: "byte list \<Rightarrow> 'w \<Rightarrow> SocketResult \<times> 'w"
    and received :: "'w \<Rightarrow> byte list"
    and sent :: "'w \<Rightarrow> byte list"
    and contract :: bool
  assumes read_law: "contract \<Longrightarrow> unat n < 2 ^ 31 \<Longrightarrow> take_in n w = ((r, data), w') \<Longrightarrow>
      - 1 \<le> sr_bytes r \<and> length data = nat (sr_bytes r) \<and> length data \<le> unat n
      \<and> received w' = received w @ data \<and> sent w' = sent w"
    and write_law: "contract \<Longrightarrow> length buf < 2 ^ 31 \<Longrightarrow> put_out buf w = (r, w') \<Longrightarrow>
      - 1 \<le> sr_bytes r \<and> nat (sr_bytes r) \<le> length buf
      \<and> sent w' = sent w @ take (nat (sr_bytes r)) buf \<and> received w' = received w"
begin

text \<open>Filling a buffer from \<open>off\<close> on up to \<open>lim\<close>.\<close>

lemma fill:
  assumes "contract" and "off \<le> lim" and "unat lim \<le> length buffer" and "unat lim < 2 ^ 31"
    and "take_in (lim - off) w = ((r, data), w')"
  shows "\<exists>buffer'. write_mem buffer off data = Inr buffer' \<and> length buffer' = length buffer
    \<and> take (unat off + length data) buffer' = take (unat off) buffer @ data
    \<and> received w' = received w @ data \<and> sent w' = sent w
    \<and> (if sr_bytes r < 0 then data = []
       else unat (off + size_of (sr_bytes r)) = unat off + length data \<and> off + size_of (sr_bytes r) \<le> lim)"
proof -
  have off: "unat off \<le> unat lim" using assms(2) by (simp add: word_le_nat_alt)
  have n: "unat (lim - off) = unat lim - unat off" using assms(2) by (rule unat_sub_size)
  then have "unat (lim - off) < 2 ^ 31" using assms(4) by simp
  note law = read_law [OF assms(1) this assms(5)]
  then have fits: "unat off + length data \<le> unat lim" using n off by linarith
  then obtain buffer' where buf: "write_mem buffer off data = Inr buffer'"
    using assms(3) by (auto simp: write_mem_def)
  have adv: "unat (off + size_of (sr_bytes r)) = unat off + length data
      \<and> off + size_of (sr_bytes r) \<le> lim" if "0 \<le> sr_bytes r"
  proof -
    have "nat (sr_bytes r) < 2 ^ 31" using law fits assms(4) by linarith
    then have "unat (size_of (sr_bytes r)) = length data"
      using that law by (simp add: unat_size_of)
    moreover from this have "unat (off + size_of (sr_bytes r)) = unat off + length data"
      using fits assms(4) by (simp add: unat_add_size)
    ultimately show ?thesis using fits by (simp add: word_le_nat_alt)
  qed
  show ?thesis using buf law adv length_write_mem [OF buf] take_write_mem [OF buf] by auto
qed

text \<open>Sending the first \<open>lim\<close> bytes of a buffer, from \<open>off\<close> on.\<close>

lemma drain:
  assumes "contract" and "off \<le> lim" and "unat lim \<le> length buffer" and "unat lim < 2 ^ 31"
  shows "\<exists>chunk. read_mem buffer off (lim - off) = Inr chunk
    \<and> (\<forall>r w'. put_out chunk w = (r, w') \<longrightarrow> received w' = received w
        \<and> (if sr_bytes r < 0 then sent w' = sent w
           else off + size_of (sr_bytes r) \<le> lim
              \<and> sent w' @ drop (unat (off + size_of (sr_bytes r))) (take (unat lim) buffer)
                = sent w @ drop (unat off) (take (unat lim) buffer)))"
proof -
  let ?chunk = "drop (unat off) (take (unat lim) buffer)"
  have off: "unat off \<le> unat lim" using assms(2) by (simp add: word_le_nat_alt)
  have n: "unat (lim - off) = unat lim - unat off" using assms(2) by (rule unat_sub_size)
  then have chunk: "read_mem buffer off (lim - off) = Inr ?chunk"
    using off assms(3) by (simp add: read_mem_def drop_take)
  have len: "length ?chunk = unat lim - unat off" using assms(3) by simp
  have "received w' = received w
        \<and> (if sr_bytes r < 0 then sent w' = sent w
           else off + size_of (sr_bytes r) \<le> lim
              \<and> sent w' @ drop (unat (off + size_of (sr_bytes r))) (take (unat lim) buffer)
                = sent w @ ?chunk)" if "put_out ?chunk w = (r, w')" for r w'
  proof -
    have "length ?chunk < 2 ^ 31" using len assms(4) by simp
    note law = write_law [OF assms(1) this that]
    show ?thesis
    proof (cases "sr_bytes r < 0")
      case True
      with law show ?thesis by simp
    next
      case False
      have k: "nat (sr_bytes r) \<le> unat lim - unat off" using law len by simp
      then have "nat (sr_bytes r) < 2 ^ 31" using assms(4) by linarith
      then have "unat (size_of (sr_bytes r)) = nat (sr_bytes r)" using False by (simp add: unat_size_of)
      then have adv: "unat (off + size_of (sr_bytes r)) = unat off + nat (sr_bytes r)"
        using k off assms(4) by (simp add: unat_add_size)
      have rest: "take (nat (sr_bytes r)) ?chunk
          @ drop (unat off + nat (sr_bytes r)) (take (unat lim) buffer) = ?chunk"
        using append_take_drop_id [of "nat (sr_bytes r)" ?chunk] by (simp add: add.commute)
      have "unat off + nat (sr_bytes r) \<le> unat lim" using k off by linarith
      then have "off + size_of (sr_bytes r) \<le> lim" by (simp add: word_le_nat_alt adv)
      moreover have "sent w' @ drop (unat off + nat (sr_bytes r)) (take (unat lim) buffer)
          = sent w @ ?chunk" using law rest by (metis append.assoc)
      ultimately show ?thesis using law False by (simp only: adv if_False simp_thms)
    qed
  qed
  with chunk show ?thesis by blast
qed

end

subsection \<open>The connection's socket as a byte stream\<close>

text \<open>
  What an execution is observed by: the bytes taken from and put on the wire, the requests
  the handler was given and the replies it produced, all since the connection began.
\<close>

record 'w trace =
  tr_received :: "'w \<Rightarrow> byte list"
  tr_sent :: "'w \<Rightarrow> byte list"
  tr_requests :: "'w \<Rightarrow> (byte list \<times> byte list) list"
  tr_replies :: "'w \<Rightarrow> byte list list"

definition same_talk :: "'w trace \<Rightarrow> 'w \<Rightarrow> 'w \<Rightarrow> bool" where
  "same_talk tr w w' \<longleftrightarrow> tr_requests tr w' = tr_requests tr w \<and> tr_replies tr w' = tr_replies tr w"

definition same_wire :: "'w trace \<Rightarrow> 'w \<Rightarrow> 'w \<Rightarrow> bool" where
  "same_wire tr w w' \<longleftrightarrow> tr_received tr w' = tr_received tr w \<and> tr_sent tr w' = tr_sent tr w"

text \<open>The documented behaviour of \<^verbatim>\<open>recv\<close> and \<^verbatim>\<open>send\<close> on one descriptor.\<close>

definition wire_ok :: "'w os \<Rightarrow> fd \<Rightarrow> 'w trace \<Rightarrow> bool" where
  "wire_ok os f tr \<longleftrightarrow>
     (\<forall>n w. unat n < 2 ^ 31 \<longrightarrow> (case os_recv os f n w of ((r, data), w') \<Rightarrow>
        - 1 \<le> r \<and> r \<le> int (unat n) \<and> length data = nat r
        \<and> tr_received tr w' = tr_received tr w @ data \<and> tr_sent tr w' = tr_sent tr w
        \<and> same_talk tr w w'))
     \<and> (\<forall>buf w. length buf < 2 ^ 31 \<longrightarrow> (case os_send os f buf w of (r, w') \<Rightarrow>
        - 1 \<le> r \<and> r \<le> int (length buf)
        \<and> tr_sent tr w' = tr_sent tr w @ take (nat r) buf \<and> tr_received tr w' = tr_received tr w
        \<and> same_talk tr w w'))"

lemma recv_result_bytes [simp]: "sr_bytes (recv_result err r) = r"
  by (simp add: recv_result_def)

lemma as_len_small: "unat n < 2 ^ 31 \<Longrightarrow> as_len n = n"
  using i32_unat [of n] by (simp add: as_len_def size_of_def)

lemma socket_read_wire:
  assumes "wire_ok os (bs_fd s) tr" and n: "unat n < 2 ^ 31"
    and "ServerActiveSocket_read os s n w = ((r, data), w')"
  shows "- 1 \<le> sr_bytes r \<and> length data = nat (sr_bytes r) \<and> length data \<le> unat n
    \<and> tr_received tr w' = tr_received tr w @ data \<and> tr_sent tr w' = tr_sent tr w
    \<and> same_talk tr w w'"
proof -
  obtain k d w1 where raw: "os_recv os (bs_fd s) n w = ((k, d), w1)" by (metis prod.exhaust)
  from assms(1) [unfolded wire_ok_def, THEN conjunct1, THEN spec, of n, THEN spec, of w,
      THEN mp, OF n] raw
  have k: "- 1 \<le> k" "k \<le> int (unat n)" "length d = nat k"
      "tr_received tr w1 = tr_received tr w @ d" "tr_sent tr w1 = tr_sent tr w" "same_talk tr w w1"
    by simp_all
  have "int (unat n) < 2 ^ 31" using n by (metis of_nat_less_iff of_nat_numeral of_nat_power)
  then have "i32 k = k" using k(1,2) by (intro i32_small) linarith+
  with assms(3) raw n have "sr_bytes r = k" "data = d" "w' = w1"
    by (auto simp: ServerActiveSocket_read_def socket_recv_def as_len_small)
  moreover have "nat k \<le> unat n" using k(2) by linarith
  ultimately show ?thesis using k by simp
qed

lemma socket_write_wire:
  assumes "wire_ok os (bs_fd s) tr" and n: "length buf < 2 ^ 31"
    and "ServerActiveSocket_write os s buf w = (r, w')"
  shows "- 1 \<le> sr_bytes r \<and> nat (sr_bytes r) \<le> length buf
    \<and> tr_sent tr w' = tr_sent tr w @ take (nat (sr_bytes r)) buf
    \<and> tr_received tr w' = tr_received tr w \<and> same_talk tr w w'"
proof -
  obtain k w1 where raw: "os_send os (bs_fd s) buf w = (k, w1)" by fastforce
  from assms(1) [unfolded wire_ok_def, THEN conjunct2, THEN spec, of buf, THEN spec, of w,
      THEN mp, OF n] raw
  have k: "- 1 \<le> k" "k \<le> int (length buf)" "tr_sent tr w1 = tr_sent tr w @ take (nat k) buf"
      "tr_received tr w1 = tr_received tr w" "same_talk tr w w1"
    by simp_all
  have "int (length buf) < 2 ^ 31" using n by (metis of_nat_less_iff of_nat_numeral of_nat_power)
  then have "i32 k = k" using k(1,2) by (intro i32_small) linarith+
  with assms(3) raw have "sr_bytes r = k" "w' = w1"
    by (auto simp: ServerActiveSocket_write_def socket_send_def)
  moreover have "nat k \<le> length buf" using k(2) by linarith
  ultimately show ?thesis using k by simp
qed

interpretation wire: byte_stream "ServerActiveSocket_read os s" "ServerActiveSocket_write os s"
  "tr_received tr" "tr_sent tr" "wire_ok os (bs_fd s) tr" for os s tr
  by unfold_locales ((drule (2) socket_read_wire, simp), (drule (2) socket_write_wire, simp))

subsection \<open>Handlers\<close>

text \<open>
  What the connection needs of a handler: payload sizes and replies that fit the buffers,
  a payload size that depends on the header alone, no request classified \<open>SLOW\<close>; the
  requests it is given and the replies it writes are recorded by the trace.
\<close>

definition handler_ok ::
  "'w handler \<Rightarrow> size_t \<Rightarrow> (byte list \<Rightarrow> size_t) \<Rightarrow> 'w trace \<Rightarrow> bool" where
  "handler_ok h pdu payload_of tr \<longleftrightarrow>
     0 < h_header_size h \<and> unat (h_header_size h) < 2 ^ 31 \<and> unat pdu < 2 ^ 31
     \<and> (\<forall>hdr. payload_of hdr \<le> pdu)
     \<and> (\<forall>hdr w. case h_payload_size h hdr w of (n, w') \<Rightarrow>
          n = payload_of hdr \<and> same_wire tr w w' \<and> same_talk tr w w')
     \<and> (\<forall>hdr w. case h_mode h hdr w of (m, w') \<Rightarrow>
          m \<noteq> SLOW \<and> same_wire tr w w' \<and> same_talk tr w w')
     \<and> (\<forall>hdr p n w. case h_processed h hdr p n w of ((out, k), w') \<Rightarrow>
          unat k = length out \<and> k \<le> pdu \<and> same_wire tr w w'
          \<and> tr_requests tr w' = tr_requests tr w @ [(hdr, take (unat n) p)]
          \<and> tr_replies tr w' = tr_replies tr w @ [out])
     \<and> (\<forall>hdr p n w. let w' = h_processed_without_response h hdr p n w in
          same_wire tr w w' \<and> tr_requests tr w' = tr_requests tr w @ [(hdr, take (unat n) p)]
          \<and> tr_replies tr w' = tr_replies tr w)"

lemma handler_payload_size:
  "handler_ok h pdu payload_of tr \<Longrightarrow> h_payload_size h hdr w = (n, w') \<Longrightarrow>
   n = payload_of hdr \<and> same_wire tr w w' \<and> same_talk tr w w'"
  unfolding handler_ok_def by (metis (mono_tags, lifting) case_prod_conv)

lemma handler_mode:
  "handler_ok h pdu payload_of tr \<Longrightarrow> h_mode h hdr w = (m, w') \<Longrightarrow>
   m \<noteq> SLOW \<and> same_wire tr w w' \<and> same_talk tr w w'"
  unfolding handler_ok_def by (metis (mono_tags, lifting) case_prod_conv)

lemma handler_processed:
  assumes "handler_ok h pdu payload_of tr" and "h_processed h hdr p n w = ((out, k), w')"
  shows "unat k = length out \<and> k \<le> pdu \<and> same_wire tr w w'
    \<and> tr_requests tr w' = tr_requests tr w @ [(hdr, take (unat n) p)]
    \<and> tr_replies tr w' = tr_replies tr w @ [out]"
proof -
  have "\<forall>hdr p n w. case h_processed h hdr p n w of ((out, k), w') \<Rightarrow>
          unat k = length out \<and> k \<le> pdu \<and> same_wire tr w w'
          \<and> tr_requests tr w' = tr_requests tr w @ [(hdr, take (unat n) p)]
          \<and> tr_replies tr w' = tr_replies tr w @ [out]"
    using assms(1) by (simp add: handler_ok_def)
  from this [THEN spec, of hdr, THEN spec, of p, THEN spec, of n, THEN spec, of w] assms(2)
  show ?thesis by simp
qed

lemma handler_processed_without:
  "handler_ok h pdu payload_of tr \<Longrightarrow> w' = h_processed_without_response h hdr p n w \<Longrightarrow>
   same_wire tr w w' \<and> tr_requests tr w' = tr_requests tr w @ [(hdr, take (unat n) p)]
   \<and> tr_replies tr w' = tr_replies tr w"
  by (simp add: handler_ok_def Let_def)

lemma handler_sizes:
  "handler_ok h pdu payload_of tr \<Longrightarrow> 0 < h_header_size h \<and> unat (h_header_size h) < 2 ^ 31
     \<and> unat pdu < 2 ^ 31 \<and> payload_of hdr \<le> pdu"
  by (simp add: handler_ok_def)

subsection \<open>Invariant\<close>

text \<open>
  The bytes of the completed requests, and the invariant: what has been received is the
  requests handed to the handler, in order, followed by the part of the next one the
  connection holds; what has been sent, followed by the rest of the response in the output
  buffer, is the replies in order.
\<close>

definition frames :: "(byte list \<times> byte list) list \<Rightarrow> byte list" where
  "frames rs = concat (map (\<lambda>(hdr, p). hdr @ p) rs)"

lemma frames_simps [simp]: "frames [] = []" "frames (rs @ [(hdr, p)]) = frames rs @ hdr @ p"
  by (simp_all add: frames_def)

definition pending :: "connection \<Rightarrow> byte list" where
  "pending c =
     (case conn_state c of
        READING_HEADER \<Rightarrow> take (unat (conn_header_read c)) (conn_header c)
      | READING_PAYLOAD \<Rightarrow> conn_header c @ take (unat (conn_payload_read c)) (conn_payload c)
      | _ \<Rightarrow> [])"

definition unsent :: "connection \<Rightarrow> byte list" where
  "unsent c =
     (case conn_state c of
        WRITING_RESPONSE \<Rightarrow>
          drop (unat (conn_written c)) (take (unat (conn_response_size c)) (conn_output c))
      | _ \<Rightarrow> [])"

definition conn_sizes :: "'w handler \<Rightarrow> size_t \<Rightarrow> connection \<Rightarrow> bool" where
  "conn_sizes h pdu c \<longleftrightarrow> length (conn_header c) = unat (h_header_size h)
     \<and> length (conn_payload c) = unat pdu \<and> length (conn_output c) = unat pdu"

definition requests_ok :: "'w handler \<Rightarrow> (byte list \<Rightarrow> size_t) \<Rightarrow> 'w trace \<Rightarrow> 'w \<Rightarrow> bool" where
  "requests_ok h payload_of tr w \<longleftrightarrow> (\<forall>(hdr, p) \<in> set (tr_requests tr w).
     length hdr = unat (h_header_size h) \<and> length p = unat (payload_of hdr))"

definition conn_counters ::
  "'w handler \<Rightarrow> size_t \<Rightarrow> (byte list \<Rightarrow> size_t) \<Rightarrow> connection \<Rightarrow> bool" where
  "conn_counters h pdu payload_of c \<longleftrightarrow>
     (case conn_state c of
        READING_HEADER \<Rightarrow> conn_header_read c < h_header_size h \<and> conn_payload_read c = 0
          \<and> conn_written c = 0
      | READING_PAYLOAD \<Rightarrow> conn_payload_size c = payload_of (conn_header c)
          \<and> conn_payload_read c < conn_payload_size c \<and> conn_written c = 0 \<and> conn_mode c \<noteq> SLOW
      | WRITING_RESPONSE \<Rightarrow> conn_response_size c \<le> pdu \<and> conn_written c \<le> conn_response_size c
      | FINISH_PROCESS \<Rightarrow> False)"

definition conn_inv ::
  "'w handler \<Rightarrow> size_t \<Rightarrow> (byte list \<Rightarrow> size_t) \<Rightarrow> 'w trace \<Rightarrow> connection \<Rightarrow> 'w \<Rightarrow> bool" where
  "conn_inv h pdu payload_of tr c w \<longleftrightarrow> conn_sizes h pdu c \<and> requests_ok h payload_of tr w
     \<and> conn_counters h pdu payload_of c
     \<and> tr_received tr w = frames (tr_requests tr w) @ pending c
     \<and> tr_sent tr w @ unsent c = concat (tr_replies tr w)"

text \<open>A connection whose request is complete, before its task is run.\<close>

definition request_complete ::
  "'w handler \<Rightarrow> size_t \<Rightarrow> (byte list \<Rightarrow> size_t) \<Rightarrow> 'w trace \<Rightarrow> size_t \<Rightarrow> connection \<Rightarrow> 'w \<Rightarrow> bool"
  where
  "request_complete h pdu payload_of tr n c w \<longleftrightarrow> conn_sizes h pdu c \<and> requests_ok h payload_of tr w
     \<and> n = payload_of (conn_header c) \<and> conn_written c = 0
     \<and> tr_received tr w = frames (tr_requests tr w) @ conn_header c @ take (unat n) (conn_payload c)
     \<and> tr_sent tr w = concat (tr_replies tr w)"

lemmas conn_defs = conn_inv_def conn_sizes_def requests_ok_def conn_counters_def pending_def
  unsent_def request_complete_def same_wire_def same_talk_def

lemma flush_inv:
  assumes "handler_ok h pdu payload_of tr" and "conn_sizes h pdu c" and "requests_ok h payload_of tr w"
    and "tr_received tr w = frames (tr_requests tr w)" and "tr_sent tr w = concat (tr_replies tr w)"
  shows "conn_inv h pdu payload_of tr ((flush c)\<lparr>conn_state := READING_HEADER\<rparr>) w"
  using assms(2-) handler_sizes [OF assms(1)] by (simp add: conn_defs flush_def)

lemma runTask_inv:
  assumes h: "handler_ok h pdu payload_of tr" and c: "request_complete h pdu payload_of tr n c w"
    and "mode \<noteq> SLOW"
  shows "\<exists>r c' want w'. runTask h mode n c w = Inr r \<and> after_read r = (c', want, w')
    \<and> conn_inv h pdu payload_of tr c' w' \<and> conn_socket c' = conn_socket c \<and> conn_ctx c' = conn_ctx c
    \<and> want = (if conn_state c' = WRITING_RESPONSE then Some WRITE else None)"
proof -
  have n: "unat n \<le> unat pdu" using c handler_sizes [OF h] by (simp add: conn_defs word_le_nat_alt)
  have "mode = WRITE_STREAM \<or> runTask h mode n c w = process h n c w" using assms(3) by (cases mode) auto
  then show ?thesis
  proof
    assume m: "mode = WRITE_STREAM"
    let ?w = "h_processed_without_response h (conn_header c) (conn_payload c) n w"
    have "conn_inv h pdu payload_of tr
        ((flush (c\<lparr>conn_state := FINISH_PROCESS\<rparr>))\<lparr>conn_state := READING_HEADER\<rparr>) ?w"
      using c handler_processed_without [OF h, of ?w "conn_header c" "conn_payload c" n w] n
      by (intro flush_inv [OF h]) (auto simp: conn_defs)
    with m show ?thesis by (simp add: after_read_def flush_def)
  next
    assume p: "runTask h mode n c w = process h n c w"
    obtain out k w' where pr: "h_processed h (conn_header c) (conn_payload c) n w = ((out, k), w')"
      by (metis prod.exhaust)
    note hp = handler_processed [OF h pr]
    have len: "length out \<le> length (conn_output c)"
      using hp c by (simp add: conn_defs word_le_nat_alt)
    then have "process h n c w = Inr (WRITING_RESPONSE,
        c\<lparr>conn_output := out @ drop (length out) (conn_output c), conn_response_size := k\<rparr>, w')"
      using pr by (simp add: process_def write_mem_def)
    moreover have "conn_inv h pdu payload_of tr
        (c\<lparr>conn_output := out @ drop (length out) (conn_output c), conn_response_size := k,
           conn_state := WRITING_RESPONSE\<rparr>) w'"
      using c hp n len by (auto simp: conn_defs)
    ultimately show ?thesis using p by (simp add: after_read_def)
  qed
qed

lemma same_wire_trans: "same_wire tr a b \<Longrightarrow> same_wire tr b c \<Longrightarrow> same_wire tr a c"
  by (simp add: same_wire_def)

lemma same_talk_trans: "same_talk tr a b \<Longrightarrow> same_talk tr b c \<Longrightarrow> same_talk tr a c"
  by (simp add: same_talk_def)

definition event_keeps ::
  "'w handler \<Rightarrow> size_t \<Rightarrow> (byte list \<Rightarrow> size_t) \<Rightarrow> 'w trace \<Rightarrow> connection
   \<Rightarrow> (connection \<times> SocketEventType option \<times> 'w) \<Rightarrow> bool" where
  "event_keeps h pdu payload_of tr c r \<longleftrightarrow>
     (case r of (c', want, w') \<Rightarrow> conn_inv h pdu payload_of tr c' w'
        \<and> conn_socket c' = conn_socket c \<and> conn_ctx c' = conn_ctx c
        \<and> want = (if (conn_state c' = WRITING_RESPONSE) = (conn_state c = WRITING_RESPONSE) then None
                  else if conn_state c' = WRITING_RESPONSE then Some WRITE else Some READ))"

lemma readHeader_inv:
  assumes h: "handler_ok h pdu payload_of tr" and wire: "wire_ok os (bs_fd (conn_socket c)) tr"
    and inv: "conn_inv h pdu payload_of tr c w" and st: "conn_state c = READING_HEADER"
  shows "\<exists>r. connection_read_event os h c w = Inr r \<and> event_keeps h pdu payload_of tr c r"
proof -
  let ?n = "of_nat (length (conn_header c)) :: size_t" and ?off = "conn_header_read c"
  note hs = handler_sizes [OF h]
  have len: "length (conn_header c) = unat (h_header_size h)" and n: "?n = h_header_size h"
    using inv by (simp_all add: conn_defs)
  have off: "?off \<le> ?n" and zero: "conn_payload_read c = 0" "conn_written c = 0"
    using inv st n by (auto simp: conn_defs)
  obtain res data w1 where rd: "ServerActiveSocket_read os (conn_socket c) (?n - ?off) w = ((res, data), w1)"
    by (metis prod.exhaust)
  have un: "unat ?n \<le> length (conn_header c)" "unat ?n < 2 ^ 31" using len n hs by simp_all
  from wire.fill [OF wire off un rd] obtain hdr where hdr:
      "write_mem (conn_header c) ?off data = Inr hdr" "length hdr = length (conn_header c)"
      "take (unat ?off + length data) hdr = take (unat ?off) (conn_header c) @ data"
      "tr_received tr w1 = tr_received tr w @ data" "tr_sent tr w1 = tr_sent tr w"
      "if sr_bytes res < 0 then data = [] else unat (?off + size_of (sr_bytes res)) = unat ?off + length data
         \<and> ?off + size_of (sr_bytes res) \<le> ?n" by blast
  have "unat (?n - ?off) < 2 ^ 31" using un(2) off by (simp add: unat_sub_size)
  from socket_read_wire [OF wire this rd] have talk: "same_talk tr w w1" by simp
  let ?c1 = "c\<lparr>conn_header := hdr\<rparr>" and ?off' = "?off + size_of (sr_bytes res)"
  let ?c2 = "?c1\<lparr>conn_header_read := ?off'\<rparr>"
  show ?thesis
  proof (cases "sr_bytes res < 0")
    case True
    then have "connection_read_event os h c w = Inr (?c1\<lparr>conn_state := READING_HEADER\<rparr>, None, w1)"
      using st rd hdr(1) by (simp add: connection_read_event_def readHeader_def after_read_def)
    moreover have "conn_inv h pdu payload_of tr (?c1\<lparr>conn_state := READING_HEADER\<rparr>) w1"
      using True hdr(2-6) inv st talk by (simp add: conn_defs)
    ultimately show ?thesis using st by (simp add: event_keeps_def)
  next
    case False
    with hdr(6) have adv: "unat ?off' = unat ?off + length data" "?off' \<le> ?n" by simp_all
    show ?thesis
    proof (cases "?off' = ?n")
      case more: False
      then have "connection_read_event os h c w = Inr (?c2\<lparr>conn_state := READING_HEADER\<rparr>, None, w1)"
        using st rd hdr(1) False by (simp add: connection_read_event_def readHeader_def after_read_def Let_def)
      moreover have "?off' < h_header_size h" using more adv(2) n by simp
      then have "conn_inv h pdu payload_of tr (?c2\<lparr>conn_state := READING_HEADER\<rparr>) w1"
        using hdr(2-5) inv st talk adv zero by (simp add: conn_defs)
      ultimately show ?thesis using st by (simp add: event_keeps_def)
    next
      case full: True
      have whole: "hdr = take (unat ?off) (conn_header c) @ data"
        using hdr(2,3) adv(1) full un(1) len n by simp
      obtain m w2 where ps: "h_payload_size h hdr w1 = (m, w2)" by fastforce
      obtain mode w3 where md: "h_mode h hdr w2 = (mode, w3)" by fastforce
      have m: "m = payload_of hdr" "mode \<noteq> SLOW" and w3: "same_wire tr w1 w3" "same_talk tr w w3"
        using handler_payload_size [OF h ps] handler_mode [OF h md] talk
        by (auto intro: same_wire_trans same_talk_trans)
      let ?c3 = "?c2\<lparr>conn_payload_size := m, conn_mode := mode\<rparr>"
      have eq: "connection_read_event os h c w =
          (if m = 0 then bindR (runTask h mode m ?c3 w3) (\<lambda>r. Inr (after_read r))
           else Inr (after_read (READING_PAYLOAD, ?c3, w3)))"
        using st rd hdr(1) False full ps md
        by (simp add: connection_read_event_def readHeader_def Let_def)
      show ?thesis
      proof (cases "m = 0")
        case True
        have "request_complete h pdu payload_of tr m ?c3 w3"
          using inv st hdr(2,4,5) w3 zero whole m True by (simp add: conn_defs)
        from runTask_inv [OF h this m(2)] obtain r c' want w' where
            "runTask h mode m ?c3 w3 = Inr r" "after_read r = (c', want, w')"
            "conn_inv h pdu payload_of tr c' w'" "conn_socket c' = conn_socket ?c3" "conn_ctx c' = conn_ctx ?c3"
            "want = (if conn_state c' = WRITING_RESPONSE then Some WRITE else None)"
          by blast
        with eq True st show ?thesis by (simp add: event_keeps_def)
      next
        case False
        then have "conn_inv h pdu payload_of tr (?c3\<lparr>conn_state := READING_PAYLOAD\<rparr>) w3"
          using inv st hdr(2,4,5) w3 zero whole m by (simp add: conn_defs word_neq_0_conv)
        with eq False st show ?thesis by (simp add: event_keeps_def after_read_def)
      qed
    qed
  qed
qed

lemma readPayload_inv:
  assumes h: "handler_ok h pdu payload_of tr" and wire: "wire_ok os (bs_fd (conn_socket c)) tr"
    and inv: "conn_inv h pdu payload_of tr c w" and st: "conn_state c = READING_PAYLOAD"
  shows "\<exists>r. connection_read_event os h c w = Inr r \<and> event_keeps h pdu payload_of tr c r"
proof -
  let ?n = "conn_payload_size c" and ?off = "conn_payload_read c"
  note hs = handler_sizes [OF h, of "conn_header c"]
  have n: "?n = payload_of (conn_header c)" "unat ?n \<le> length (conn_payload c)" "unat ?n < 2 ^ 31"
    using inv st hs by (auto simp: conn_defs word_le_nat_alt)
  have off: "?off \<le> ?n" and rest: "conn_mode c \<noteq> SLOW" "conn_written c = 0"
    using inv st by (auto simp: conn_defs)
  obtain res data w1 where rd: "ServerActiveSocket_read os (conn_socket c) (?n - ?off) w = ((res, data), w1)"
    by (metis prod.exhaust)
  from wire.fill [OF wire off n(2,3) rd] obtain buf where buf:
      "write_mem (conn_payload c) ?off data = Inr buf" "length buf = length (conn_payload c)"
      "take (unat ?off + length data) buf = take (unat ?off) (conn_payload c) @ data"
      "tr_received tr w1 = tr_received tr w @ data" "tr_sent tr w1 = tr_sent tr w"
      "if sr_bytes res < 0 then data = [] else unat (?off + size_of (sr_bytes res)) = unat ?off + length data
         \<and> ?off + size_of (sr_bytes res) \<le> ?n" by blast
  have "unat (?n - ?off) < 2 ^ 31" using n(3) off by (simp add: unat_sub_size)
  from socket_read_wire [OF wire this rd] have talk: "same_talk tr w w1" by simp
  let ?c1 = "c\<lparr>conn_payload := buf\<rparr>" and ?off' = "?off + size_of (sr_bytes res)"
  let ?c2 = "?c1\<lparr>conn_payload_read := ?off'\<rparr>"
  show ?thesis
  proof (cases "sr_bytes res < 0")
    case True
    then have "connection_read_event os h c w = Inr (?c1\<lparr>conn_state := READING_PAYLOAD\<rparr>, None, w1)"
      using st rd buf(1) by (simp add: connection_read_event_def readPayload_def after_read_def)
    moreover have "conn_inv h pdu payload_of tr (?c1\<lparr>conn_state := READING_PAYLOAD\<rparr>) w1"
      using True buf(2-6) inv st talk by (auto simp: conn_defs)
    ultimately show ?thesis using st by (simp add: event_keeps_def)
  next
    case False
    with buf(6) have adv: "unat ?off' = unat ?off + length data" "?off' \<le> ?n" by simp_all
    show ?thesis
    proof (cases "?off' = ?n")
      case more: False
      then have "connection_read_event os h c w = Inr (?c2\<lparr>conn_state := READING_PAYLOAD\<rparr>, None, w1)"
        using st rd buf(1) False
        by (simp add: connection_read_event_def readPayload_def after_read_def Let_def)
      moreover have "?off' < ?n" using more adv(2) by simp
      then have "conn_inv h pdu payload_of tr (?c2\<lparr>conn_state := READING_PAYLOAD\<rparr>) w1"
        using buf(2-5) inv st talk adv rest by (simp add: conn_defs)
      ultimately show ?thesis using st by (simp add: event_keeps_def)
    next
      case full: True
      then have eq: "connection_read_event os h c w =
          bindR (runTask h (conn_mode c) ?n ?c2 w1) (\<lambda>r. Inr (after_read r))"
        using st rd buf(1) False by (simp add: connection_read_event_def readPayload_def Let_def)
      have "take (unat ?n) buf = take (unat ?off) (conn_payload c) @ data" using buf(3) adv(1) full by simp
      then have "request_complete h pdu payload_of tr ?n ?c2 w1"
        using inv st buf(2,4,5) talk n(1) rest by (simp add: conn_defs)
      from runTask_inv [OF h this rest(1)] obtain r c' want w' where
          "runTask h (conn_mode c) ?n ?c2 w1 = Inr r" "after_read r = (c', want, w')"
          "conn_inv h pdu payload_of tr c' w'" "conn_socket c' = conn_socket ?c2" "conn_ctx c' = conn_ctx ?c2"
          "want = (if conn_state c' = WRITING_RESPONSE then Some WRITE else None)"
        by blast
      with eq st show ?thesis by (simp add: event_keeps_def)
    qed
  qed
qed

lemma write_event_inv:
  assumes h: "handler_ok h pdu payload_of tr" and wire: "wire_ok os (bs_fd (conn_socket c)) tr"
    and inv: "conn_inv h pdu payload_of tr c w"
  shows "\<exists>r. connection_write_event os c w = Inr r \<and> event_keeps h pdu payload_of tr c r"
proof (cases "conn_state c = WRITING_RESPONSE")
  case False
  then have "connection_write_event os c w = Inr (c, None, w)"
    by (simp add: connection_write_event_def split: ProcessState.splits)
  with inv show ?thesis by (simp add: event_keeps_def)
next
  case st: True
  let ?n = "conn_response_size c" and ?off = "conn_written c"
  have off: "?off \<le> ?n" and n: "unat ?n \<le> length (conn_output c)" "unat ?n < 2 ^ 31"
    using inv st handler_sizes [OF h, of "[]"] by (auto simp: conn_defs word_le_nat_alt)
  from wire.drain [OF wire off n] obtain chunk where
      chunk: "read_mem (conn_output c) ?off (?n - ?off) = Inr chunk" and
      sends: "\<And>r w'. ServerActiveSocket_write os (conn_socket c) chunk w = (r, w') \<Longrightarrow>
        tr_received tr w' = tr_received tr w
        \<and> (if sr_bytes r < 0 then tr_sent tr w' = tr_sent tr w
           else ?off + size_of (sr_bytes r) \<le> ?n
              \<and> tr_sent tr w' @ drop (unat (?off + size_of (sr_bytes r))) (take (unat ?n) (conn_output c))
                = tr_sent tr w @ drop (unat ?off) (take (unat ?n) (conn_output c)))"
    by meson
  obtain r w1 where wr: "ServerActiveSocket_write os (conn_socket c) chunk w = (r, w1)" by fastforce
  have "length chunk < 2 ^ 31" using chunk n off by (auto simp: read_mem_def unat_sub_size split: if_splits)
  from socket_write_wire [OF wire this wr] have talk: "same_talk tr w w1" by simp
  let ?off' = "?off + size_of (sr_bytes r)"
  show ?thesis
  proof (cases "sr_bytes r < 0")
    case True
    then have "connection_write_event os c w = Inr (c\<lparr>conn_state := WRITING_RESPONSE\<rparr>, None, w1)"
      using st chunk wr by (simp add: connection_write_event_def writeResponse_def)
    moreover have "conn_inv h pdu payload_of tr (c\<lparr>conn_state := WRITING_RESPONSE\<rparr>) w1"
      using True inv st talk sends [OF wr] by (simp add: conn_defs)
    ultimately show ?thesis using st by (simp add: event_keeps_def)
  next
    case pos: False
    let ?c = "c\<lparr>conn_written := ?off'\<rparr>"
    show ?thesis
    proof (cases "?off' = ?n")
      case False
      then have "connection_write_event os c w = Inr (?c\<lparr>conn_state := WRITING_RESPONSE\<rparr>, None, w1)"
        using st chunk wr pos by (simp add: connection_write_event_def writeResponse_def Let_def)
      moreover have "conn_inv h pdu payload_of tr (?c\<lparr>conn_state := WRITING_RESPONSE\<rparr>) w1"
        using pos inv st talk sends [OF wr] by (simp add: conn_defs)
      ultimately show ?thesis using st by (simp add: event_keeps_def)
    next
      case True
      let ?d = "(flush (?c\<lparr>conn_state := FINISH_PROCESS\<rparr>))\<lparr>conn_state := READING_HEADER\<rparr>"
      have "connection_write_event os c w = Inr (?d, Some READ, w1)"
        using st chunk wr pos True by (simp add: connection_write_event_def writeResponse_def Let_def)
      moreover have "conn_inv h pdu payload_of tr ?d w1"
        using pos inv st talk sends [OF wr] True
        by (intro flush_inv [OF h]) (auto simp: conn_defs)
      ultimately show ?thesis using st by (simp add: event_keeps_def flush_def)
    qed
  qed
qed

lemma read_event_inv:
  assumes "handler_ok h pdu payload_of tr" and "wire_ok os (bs_fd (conn_socket c)) tr"
    and inv: "conn_inv h pdu payload_of tr c w"
  shows "\<exists>r. connection_read_event os h c w = Inr r \<and> event_keeps h pdu payload_of tr c r"
proof (cases "conn_state c")
  case WRITING_RESPONSE
  with inv show ?thesis by (simp add: connection_read_event_def event_keeps_def)
next
  case FINISH_PROCESS
  with inv show ?thesis by (simp add: conn_defs)
qed (use readHeader_inv [OF assms] readPayload_inv [OF assms] in auto)

text \<open>Any sequence of poll events, as the server hands them to the connection.\<close>

datatype conn_event = Readable | Writable

fun connection_event ::
  "'w os \<Rightarrow> 'w handler \<Rightarrow> conn_event \<Rightarrow> connection \<Rightarrow> 'w
   \<Rightarrow> (connection \<times> SocketEventType option \<times> 'w) result" where
  "connection_event os h Readable c w = connection_read_event os h c w"
| "connection_event os h Writable c w = connection_write_event os c w"

fun connection_events ::
  "'w os \<Rightarrow> 'w handler \<Rightarrow> conn_event list \<Rightarrow> connection \<Rightarrow> 'w \<Rightarrow> (connection \<times> 'w) result" where
  "connection_events os h [] c w = Inr (c, w)"
| "connection_events os h (e # es) c w =
     bindR (connection_event os h e c w) (\<lambda>(c, want, w). connection_events os h es c w)"

lemma new_inv:
  assumes "handler_ok h pdu payload_of tr" and "tr_received tr w = []" and "tr_sent tr w = []"
    and "tr_requests tr w = []" and "tr_replies tr w = []"
  shows "conn_inv h pdu payload_of tr (SocketConnection_new s h pdu) w"
  using assms(2-) handler_sizes [OF assms(1)] by (simp add: SocketConnection_new_def conn_defs)

lemma connection_event_inv:
  assumes "handler_ok h pdu payload_of tr" and "wire_ok os (bs_fd (conn_socket c)) tr"
    and "conn_inv h pdu payload_of tr c w"
  shows "\<exists>r. connection_event os h e c w = Inr r \<and> event_keeps h pdu payload_of tr c r"
  using read_event_inv [OF assms] write_event_inv [OF assms] by (cases e) simp_all

lemma connection_events_inv:
  assumes "handler_ok h pdu payload_of tr"
  shows "wire_ok os (bs_fd (conn_socket c)) tr \<Longrightarrow> conn_inv h pdu payload_of tr c w \<Longrightarrow>
    \<exists>c' w'. connection_events os h es c w = Inr (c', w') \<and> conn_inv h pdu payload_of tr c' w'"
proof (induction es arbitrary: c w)
  case Nil
  then show ?case by simp
next
  case (Cons e es)
  obtain c1 want w1 where "connection_event os h e c w = Inr (c1, want, w1)"
      "conn_inv h pdu payload_of tr c1 w1" "conn_socket c1 = conn_socket c"
    using connection_event_inv [OF assms Cons.prems, of e] by (auto simp: event_keeps_def)
  with Cons.IH [of c1 w1] Cons.prems show ?case by simp
qed

subsection \<open>A payload larger than its buffer\<close>

text \<open>
  A peer that has the stream \<open>S\<close> to send and a \<^verbatim>\<open>recv\<close> that, as documented, delivers at least one
  byte of it when some are left; \<open>got\<close> is what has been delivered.
\<close>

definition streaming :: "'w os \<Rightarrow> fd \<Rightarrow> ('w \<Rightarrow> byte list) \<Rightarrow> byte list \<Rightarrow> bool" where
  "streaming os f got S \<longleftrightarrow> (\<forall>n w rest. 0 < n \<longrightarrow> S = got w @ rest \<longrightarrow> rest \<noteq> [] \<longrightarrow>
     (\<exists>data w' rest'. os_recv os f n w = ((int (length data), data), w') \<and> data \<noteq> []
        \<and> length data \<le> unat n \<and> got w' = got w @ data \<and> S = got w' @ rest'))"

text \<open>The handler announces \<open>N\<close> bytes of payload for this header and takes nothing from the peer.\<close>

definition announces :: "'w handler \<Rightarrow> ('w \<Rightarrow> byte list) \<Rightarrow> byte list \<Rightarrow> size_t \<Rightarrow> bool" where
  "announces h got hdr N \<longleftrightarrow>
     (\<forall>w. fst (h_payload_size h hdr w) = N \<and> got (snd (h_payload_size h hdr w)) = got w
        \<and> got (snd (h_mode h hdr w)) = got w)"

definition in_header :: "fd \<Rightarrow> ('w \<Rightarrow> byte list) \<Rightarrow> nat \<Rightarrow> nat \<Rightarrow> connection \<Rightarrow> 'w \<Rightarrow> bool" where
  "in_header f got H P c w \<longleftrightarrow> conn_state c = READING_HEADER \<and> bs_fd (conn_socket c) = f
     \<and> length (conn_header c) = H \<and> H < 2 ^ 31 \<and> unat (conn_header_read c) = length (got w)
     \<and> take (length (got w)) (conn_header c) = got w \<and> length (got w) < H
     \<and> conn_payload_read c = 0 \<and> length (conn_payload c) = P"

definition in_payload :: "fd \<Rightarrow> ('w \<Rightarrow> byte list) \<Rightarrow> nat \<Rightarrow> nat \<Rightarrow> size_t \<Rightarrow> connection \<Rightarrow> 'w \<Rightarrow> bool" where
  "in_payload f got H P N c w \<longleftrightarrow> conn_state c = READING_PAYLOAD \<and> bs_fd (conn_socket c) = f
     \<and> length (conn_payload c) = P \<and> P < unat N \<and> unat N < 2 ^ 31 \<and> conn_payload_size c = N
     \<and> unat (conn_payload_read c) \<le> P \<and> length (got w) = H + unat (conn_payload_read c)"

lemma small_count: "length data < 2 ^ 31 \<Longrightarrow> i32 (int (length data)) = int (length data)"
  "length data < 2 ^ 31 \<Longrightarrow> unat (size_of (int (length data))) = length data"
  by (simp_all add: i32_small unat_size_of)

lemma streamingD:
  assumes "streaming os f got S" and "0 < n" and "unat n < 2 ^ 31" and "S = got w @ rest" and "rest \<noteq> []"
  obtains data w' rest' where "socket_recv os f n w
      = ((recv_result (os_errno os w') (int (length data)), data), w')"
    and "data \<noteq> []" and "length data \<le> unat n" and "got w' = got w @ data" and "S = got w' @ rest'"
proof -
  obtain data w' rest' where d: "os_recv os f n w = ((int (length data), data), w')" "data \<noteq> []"
      "length data \<le> unat n" "got w' = got w @ data" "S = got w' @ rest'"
    using assms unfolding streaming_def by blast
  then have "i32 (int (length data)) = int (length data)" using assms(3) by (intro small_count) simp
  with that d assms(3) show ?thesis by (simp add: socket_recv_def as_len_small)
qed

lemma payload_read_event:
  assumes st: "streaming os f got S" and c: "in_payload f got H P N c w"
    and S: "S = got w @ rest" "H + P < length S"
  shows "connection_event os h Readable c w = Inl OutOfBounds
    \<or> (\<exists>c1 w1 rest1. connection_event os h Readable c w = Inr (c1, None, w1)
        \<and> in_payload f got H P N c1 w1 \<and> S = got w1 @ rest1
        \<and> unat (conn_payload_read c) < unat (conn_payload_read c1))"
proof -
  let ?n = "N - conn_payload_read c"
  note inv = c [unfolded in_payload_def]
  have le: "conn_payload_read c < N" using inv by (simp add: word_less_nat_alt)
  then have n: "unat ?n = unat N - unat (conn_payload_read c)" by (simp add: unat_sub_size)
  have "0 < ?n" using n inv by (simp add: word_less_nat_alt)
  moreover have small: "unat ?n < 2 ^ 31" using n inv by linarith
  moreover have "rest \<noteq> []" using S inv by auto
  ultimately obtain data w1 rest1 where d: "socket_recv os f ?n w
      = ((recv_result (os_errno os w1) (int (length data)), data), w1)"
      "data \<noteq> []" "length data \<le> unat ?n" "got w1 = got w @ data" "S = got w1 @ rest1"
    using streamingD [OF st _ _ S(1)] by metis
  have sz: "unat (size_of (int (length data))) = length data"
    using d(3) small by (intro small_count) simp
  show ?thesis
  proof (cases "write_mem (conn_payload c) (conn_payload_read c) data")
    case (Inl e)
    with inv d(1) show ?thesis
      by (simp add: connection_read_event_def readPayload_def ServerActiveSocket_read_def
          write_mem_Inl [OF Inl])
  next
    case (Inr payload)
    have fits: "unat (conn_payload_read c) + length data \<le> P"
      using Inr inv by (auto simp: write_mem_def split: if_splits)
    let ?k = "conn_payload_read c + size_of (int (length data))"
    have k: "unat ?k = unat (conn_payload_read c) + length data"
      using fits inv sz by (subst unat_add_size) simp_all
    then have "?k \<noteq> N" using fits inv by auto
    with inv d(1) Inr have "connection_event os h Readable c w
        = Inr (c\<lparr>conn_payload := payload, conn_payload_read := ?k, conn_state := READING_PAYLOAD\<rparr>, None, w1)"
      by (simp add: connection_read_event_def readPayload_def ServerActiveSocket_read_def after_read_def Let_def)
    moreover have "in_payload f got H P N
        (c\<lparr>conn_payload := payload, conn_payload_read := ?k, conn_state := READING_PAYLOAD\<rparr>) w1"
      using inv d(4) k fits length_write_mem [OF Inr] by (simp add: in_payload_def)
    ultimately show ?thesis using d(2,5) k by fastforce
  qed
qed

lemma payload_overrun:
  assumes st: "streaming os f got S" and long: "H + P < length S"
  shows "in_payload f got H P N c w \<Longrightarrow> S = got w @ rest \<Longrightarrow>
    \<exists>k \<le> Suc (P - unat (conn_payload_read c)).
      connection_events os h (replicate k Readable) c w = Inl OutOfBounds"
proof (induction "P - unat (conn_payload_read c)" arbitrary: c w rest rule: less_induct)
  case less
  from payload_read_event [OF st less.prems long, of h]
  show ?case
  proof (elim disjE exE conjE)
    assume "connection_event os h Readable c w = Inl OutOfBounds"
    then show ?thesis by (intro exI [of _ 1]) simp
  next
    fix c1 w1 rest1
    assume ev: "connection_event os h Readable c w = Inr (c1, None, w1)"
      and c1: "in_payload f got H P N c1 w1" and S: "S = got w1 @ rest1"
      and more: "unat (conn_payload_read c) < unat (conn_payload_read c1)"
    have "unat (conn_payload_read c1) \<le> P" using c1 by (simp add: in_payload_def)
    with more have lt: "P - unat (conn_payload_read c1) < P - unat (conn_payload_read c)" by simp
    from less.hyps [OF lt c1 S] obtain k where "k \<le> Suc (P - unat (conn_payload_read c1))"
        "connection_events os h (replicate k Readable) c1 w1 = Inl OutOfBounds" by blast
    with ev lt show ?thesis by (intro exI [of _ "Suc k"]) simp
  qed
qed

lemma header_read_event:
  assumes st: "streaming os f got S" and c: "in_header f got H P c w"
    and S: "S = got w @ rest" "H \<le> length S" and an: "announces h got (take H S) N"
    and big: "P < unat N" "unat N < 2 ^ 31"
  shows "\<exists>c1 w1 rest1. connection_event os h Readable c w = Inr (c1, None, w1) \<and> S = got w1 @ rest1
    \<and> length (got w) < length (got w1) \<and> (in_header f got H P c1 w1
        \<or> in_payload f got H P N c1 w1 \<and> conn_payload_read c1 = 0)"
proof -
  note inv = c [unfolded in_header_def]
  let ?size = "of_nat (length (conn_header c)) :: size_t" and ?n = "of_nat (length (conn_header c)) - conn_header_read c"
  have size: "unat ?size = H" using inv by (simp add: unat_of_nat take_bit_nat_eq_self)
  have "conn_header_read c < ?size" using inv size by (simp add: word_less_nat_alt)
  then have n: "unat ?n = H - length (got w)" using inv size by (simp add: unat_sub_size)
  have "0 < ?n" using n inv by (simp add: word_less_nat_alt)
  moreover have small: "unat ?n < 2 ^ 31" using n inv by linarith
  moreover have "rest \<noteq> []" using S inv by auto
  ultimately obtain data w1 rest1 where d: "socket_recv os f ?n w
      = ((recv_result (os_errno os w1) (int (length data)), data), w1)"
      "data \<noteq> []" "length data \<le> unat ?n" "got w1 = got w @ data" "S = got w1 @ rest1"
    using streamingD [OF st _ _ S(1)] by metis
  have sz: "unat (size_of (int (length data))) = length data"
    using d(3) small by (intro small_count) simp
  let ?k = "conn_header_read c + size_of (int (length data))"
  have sum: "length (got w) + length data \<le> H" using d(3) n inv by linarith
  then have "unat (conn_header_read c) + unat (size_of (int (length data))) < 2 ^ 64"
    using inv sz by simp
  then have k: "unat ?k = length (got w1)" using d(4) inv sz by (simp add: unat_add_size)
  have fits: "length (got w1) \<le> H" using sum d(4) by simp
  obtain hdr where hdr: "write_mem (conn_header c) (conn_header_read c) data = Inr hdr"
    using inv sum by (simp add: write_mem_def)
  then have len: "length hdr = H" and front: "take (length (got w1)) hdr = got w1"
    using length_write_mem [OF hdr] take_write_mem [OF hdr] inv d(4) by simp_all
  note ev = connection_read_event_def readHeader_def ServerActiveSocket_read_def after_read_def Let_def
  show ?thesis
  proof (cases "length (got w1) = H")
    case False
    then have "?k \<noteq> ?size" using k size by metis
    then have "connection_event os h Readable c w
        = Inr (c\<lparr>conn_header := hdr, conn_header_read := ?k, conn_state := READING_HEADER\<rparr>, None, w1)"
      using inv d(1) hdr by (simp add: ev)
    moreover have "in_header f got H P (c\<lparr>conn_header := hdr, conn_header_read := ?k, conn_state := READING_HEADER\<rparr>) w1"
      using inv len front k fits False by (simp add: in_header_def)
    ultimately show ?thesis using d(2,4,5) by fastforce
  next
    case True
    then have "hdr = take H S" and full: "?k = ?size"
      using front len d(5) k size by (auto simp: word_unat_eq_iff)
    then obtain w2 m w3 where size: "h_payload_size h hdr w1 = (N, w2)" "got w2 = got w1"
        and mode: "h_mode h hdr w2 = (m, w3)" "got w3 = got w2"
      using an unfolding announces_def by (metis prod.collapse)
    have "N \<noteq> 0" using big(1) by auto
    then have "connection_event os h Readable c w
        = Inr (c\<lparr>conn_header := hdr, conn_header_read := ?k, conn_payload_size := N, conn_mode := m,
            conn_state := READING_PAYLOAD\<rparr>, None, w3)"
      using inv d(1) hdr full size mode by (simp add: ev)
    moreover have "in_payload f got H P N (c\<lparr>conn_header := hdr, conn_header_read := ?k,
        conn_payload_size := N, conn_mode := m, conn_state := READING_PAYLOAD\<rparr>) w3"
      using inv big True size mode by (simp add: in_payload_def)
    ultimately show ?thesis using d(2,4,5) size mode inv by fastforce
  qed
qed

lemma header_overrun:
  assumes st: "streaming os f got S" and long: "H + P < length S"
    and an: "announces h got (take H S) N" and big: "P < unat N" "unat N < 2 ^ 31"
  shows "in_header f got H P c w \<Longrightarrow> S = got w @ rest \<Longrightarrow>
    \<exists>k \<le> Suc (H - length (got w) + P). connection_events os h (replicate k Readable) c w = Inl OutOfBounds"
proof (induction "H - length (got w)" arbitrary: c w rest rule: less_induct)
  case less
  have H: "H \<le> length S" "length (got w) < H" using long less.prems(1) by (simp_all add: in_header_def)
  from header_read_event [OF st less.prems H(1) an big]
  obtain c1 w1 rest1 where ev: "connection_event os h Readable c w = Inr (c1, None, w1)"
      and S: "S = got w1 @ rest1" and more: "length (got w) < length (got w1)"
      and c1: "in_header f got H P c1 w1 \<or> in_payload f got H P N c1 w1 \<and> conn_payload_read c1 = 0"
    by blast
  have "\<exists>k \<le> H - length (got w) + P. connection_events os h (replicate k Readable) c1 w1 = Inl OutOfBounds"
    using c1
  proof (elim disjE conjE)
    assume "in_header f got H P c1 w1"
    moreover have lt: "H - length (got w1) < H - length (got w)" using more H(2) by simp
    ultimately obtain k where "k \<le> Suc (H - length (got w1) + P)"
        "connection_events os h (replicate k Readable) c1 w1 = Inl OutOfBounds"
      using less.hyps [OF lt _ S] by blast
    with lt show ?thesis by (intro exI [of _ k]) simp
  next
    assume "in_payload f got H P N c1 w1" "conn_payload_read c1 = 0"
    with payload_overrun [OF st long _ S, of N c1 h] obtain k where "k \<le> Suc P"
        "connection_events os h (replicate k Readable) c1 w1 = Inl OutOfBounds" by auto
    with H(2) show ?thesis by (intro exI [of _ k]) simp
  qed
  then obtain k where "k \<le> H - length (got w) + P"
      "connection_events os h (replicate k Readable) c1 w1 = Inl OutOfBounds" by blast
  with ev show ?case by (intro exI [of _ "Suc k"]) simp
qed

subsection \<open>Properties\<close>

text \<open>
  C9. A connection conserves the byte stream, however it is cut into events and partial
  reads and writes. After any events, what was received is exactly the requests the handler
  was given, header and payload of the right sizes and in order, followed by the pending
  part of the next one; what was sent is the replies in order, short of what is still
  unsent. No event faults.
\<close>

theorem stream_conserved:
  assumes "handler_ok h pdu payload_of tr" and "wire_ok os (bs_fd s) tr"
    and "tr_received tr w = []" and "tr_sent tr w = []"
    and "tr_requests tr w = []" and "tr_replies tr w = []"
  shows "\<exists>c w'. connection_events os h es (SocketConnection_new s h pdu) w = Inr (c, w')
    \<and> tr_received tr w' = frames (tr_requests tr w') @ pending c
    \<and> tr_sent tr w' @ unsent c = concat (tr_replies tr w')
    \<and> (\<forall>(hdr, p) \<in> set (tr_requests tr w').
          length hdr = unat (h_header_size h) \<and> length p = unat (payload_of hdr))"
proof -
  have "conn_socket (SocketConnection_new s h pdu) = s" by (simp add: SocketConnection_new_def)
  with connection_events_inv [OF assms(1), of os "SocketConnection_new s h pdu" w es]
    new_inv [OF assms(1,3-6)] assms(2)
  show ?thesis by (auto simp: conn_inv_def requests_ok_def)
qed

text \<open>
  The application and the peer of the witnesses: the world records everything. The header
  is one byte, the payload's size; the reply to a request is its payload; the wire delivers
  \<open>2, 7, 8, 0\<close> one byte at a time.
\<close>

record echo_world =
  ew_received :: "byte list"
  ew_sent :: "byte list"
  ew_requests :: "(byte list \<times> byte list) list"
  ew_replies :: "byte list list"

definition echo_start :: echo_world where
  "echo_start = \<lparr>ew_received = [], ew_sent = [], ew_requests = [], ew_replies = []\<rparr>"

definition echo_trace :: "echo_world trace" where
  "echo_trace = \<lparr>tr_received = ew_received, tr_sent = ew_sent, tr_requests = ew_requests,
                 tr_replies = ew_replies\<rparr>"

definition echo_payload :: "byte list \<Rightarrow> size_t" where
  "echo_payload hdr = (if hdr = [2] then 2 else 0)"

definition echo_handler :: "echo_world handler" where
  "echo_handler = \<lparr>
     h_header_size = 1,
     h_payload_size = (\<lambda>hdr w. (echo_payload hdr, w)),
     h_mode = (\<lambda>hdr w. (FAST, w)),
     h_connected = (\<lambda>ip port w. w),
     h_disconnected = (\<lambda>ip port w. w),
     h_processed = (\<lambda>hdr p n w. let out = take (min 4 (unat n)) p in
        ((out, of_nat (length out)),
         w\<lparr>ew_requests := ew_requests w @ [(hdr, take (unat n) p)], ew_replies := ew_replies w @ [out]\<rparr>)),
     h_processed_without_response = (\<lambda>hdr p n w.
        w\<lparr>ew_requests := ew_requests w @ [(hdr, take (unat n) p)]\<rparr>)\<rparr>"

definition echo_os :: "echo_world os" where
  "echo_os = null_os\<lparr>
     os_recv := (\<lambda>s n w. let data = (if n = 0 then [] else take 1 (drop (length (ew_received w)) [2, 7, 8, 0]))
        in ((int (length data), data), w\<lparr>ew_received := ew_received w @ data\<rparr>)),
     os_send := (\<lambda>s buf w. (int (length buf), w\<lparr>ew_sent := ew_sent w @ buf\<rparr>))\<rparr>"

definition echo_socket :: server_socket where
  "echo_socket = \<lparr>bs_result = mkCode SUCCESS, bs_fd = 7, ss_ip = ''10.0.0.1'', ss_port = 80\<rparr>"

lemma echo_ok: "handler_ok echo_handler 4 echo_payload echo_trace" "wire_ok echo_os f echo_trace"
proof -
  have "unat (of_nat (length (take (min 4 (unat n)) p)) :: size_t) = length (take (min 4 (unat n)) p)"
    and "(of_nat (length (take (min 4 (unat n)) p)) :: size_t) \<le> 4" for n :: size_t and p :: "byte list"
    by (simp_all add: word_le_nat_alt unat_of_nat take_bit_nat_eq_self min_le_iff_disj)
  then show "handler_ok echo_handler 4 echo_payload echo_trace"
    by (simp add: handler_ok_def echo_handler_def echo_payload_def echo_trace_def same_wire_def
        same_talk_def Let_def)
  have "int (min k (Suc 0)) \<le> uint n" if "n \<noteq> 0" for n :: size_t and k
    using word_nonzero_uint [OF that] by simp
  then show "wire_ok echo_os f echo_trace"
    by (auto simp: wire_ok_def echo_os_def echo_trace_def same_talk_def Let_def)
qed

theorem stream_conserved_witness:
  "\<exists>c w'. connection_events echo_os echo_handler [Readable, Readable, Readable, Writable, Readable]
        (SocketConnection_new echo_socket echo_handler 4) echo_start = Inr (c, w')
    \<and> ew_received w' = frames (ew_requests w') @ pending c
    \<and> ew_sent w' @ unsent c = concat (ew_replies w')"
  using stream_conserved [OF echo_ok, of echo_start
      "[Readable, Readable, Readable, Writable, Readable]" echo_socket]
  by (auto simp: echo_start_def echo_trace_def)

text \<open>
  C29. Nothing compares the payload size of a header with the buffer: a peer that sends a
  header for which the application announces more payload than the buffer holds, and one byte
  more than fits, overruns the buffer of a fresh connection, after at most as many events as
  it has sent bytes and however the kernel cuts them.
\<close>

theorem payload_overflow:
  assumes "streaming os (bs_fd s) got S" and "got w = []"
    and "length S = unat (h_header_size h) + unat pdu + 1"
    and "announces h got (take (unat (h_header_size h)) S) N" and "pdu < N" and "unat N < 2 ^ 31"
    and "0 < h_header_size h" and "unat (h_header_size h) < 2 ^ 31"
  shows "\<exists>k \<le> length S. connection_events os h (replicate k Readable) (SocketConnection_new s h pdu) w
    = Inl OutOfBounds"
proof -
  let ?H = "unat (h_header_size h)" and ?P = "unat pdu"
  have "in_header (bs_fd s) got ?H ?P (SocketConnection_new s h pdu) w"
    using assms(2,7,8) by (simp add: in_header_def SocketConnection_new_def word_less_nat_alt)
  then show ?thesis
    using header_overrun [OF assms(1) _ assms(4) _ assms(6), of ?P] assms(2,3,5)
    by (fastforce simp: word_less_nat_alt)
qed

text \<open>The peer of the witness sends a header and five bytes, one at a time, to a buffer of four.\<close>

definition next_byte_of :: "byte list \<Rightarrow> echo_world \<Rightarrow> byte list" where
  "next_byte_of S w = take 1 (drop (length (ew_received w)) S)"

definition flood_os :: "echo_world os" where
  "flood_os = null_os\<lparr>os_recv := (\<lambda>s n w. let data = next_byte_of [2, 7, 8, 9, 9, 9] w
     in ((int (length data), data), w\<lparr>ew_received := ew_received w @ data\<rparr>))\<rparr>"

definition greedy_handler :: "echo_world handler" where
  "greedy_handler = echo_handler\<lparr>h_payload_size := (\<lambda>hdr w. (5, w))\<rparr>"

theorem payload_overflow_witness:
  "\<exists>k \<le> 6. connection_events flood_os greedy_handler
     (replicate k Readable) (SocketConnection_new echo_socket greedy_handler 4) echo_start = Inl OutOfBounds"
proof -
  let ?S = "[2, 7, 8, 9, 9, 9] :: byte list"
  have "streaming flood_os (bs_fd echo_socket) ew_received ?S"
  proof (unfold streaming_def, intro allI impI)
    fix n :: size_t and w :: echo_world and rest
    assume n: "0 < n" and S: "?S = ew_received w @ rest" and "rest \<noteq> []"
    then obtain x xs where r: "rest = x # xs" by (cases rest) auto
    have "drop (length (ew_received w)) ?S = x # xs" unfolding S r by simp
    then have d: "next_byte_of ?S w = [x]" by (simp add: next_byte_of_def)
    have "1 \<le> unat n" using n by (simp add: word_less_nat_alt)
    moreover have "?S = (ew_received w @ [x]) @ xs" unfolding S r by simp
    moreover have "os_recv flood_os (bs_fd echo_socket) n w
        = ((int (length [x]), [x]), w\<lparr>ew_received := ew_received w @ [x]\<rparr>)"
      using d by (simp add: flood_os_def Let_def)
    ultimately show "\<exists>data w' rest'. os_recv flood_os (bs_fd echo_socket) n w = ((int (length data), data), w')
        \<and> data \<noteq> [] \<and> length data \<le> unat n \<and> ew_received w' = ew_received w @ data \<and> ?S = ew_received w' @ rest'"
      by (intro exI [of _ "[x]"] exI [of _ "w\<lparr>ew_received := ew_received w @ [x]\<rparr>"] exI [of _ xs]) auto
  qed
  moreover have "announces greedy_handler ew_received [2] 5" "h_header_size greedy_handler = 1"
    by (simp_all add: announces_def greedy_handler_def echo_handler_def)
  moreover have "ew_received echo_start = []" by (simp add: echo_start_def)
  ultimately have "\<exists>k \<le> length ?S. connection_events flood_os greedy_handler
     (replicate k Readable) (SocketConnection_new echo_socket greedy_handler 4) echo_start = Inl OutOfBounds"
    by (intro payload_overflow [where got = ew_received and N = 5]) simp_all
  moreover have "length ?S = 6" by simp
  ultimately show ?thesis by (simp only:)
qed

text \<open>
  C33. The end of the peer's stream is not noticed: a read that returns zero leaves the
  connection exactly as it was, registered for reading and with its client still counted as
  connected, whatever it was reading.
\<close>

theorem peer_close_ignored:
  assumes "conn_inv h pdu payload_of tr c w" and "conn_state c \<noteq> WRITING_RESPONSE"
    and h: "handler_ok h pdu payload_of tr"
    and eof: "\<And>n. os_recv os (bs_fd (conn_socket c)) n w = ((0, []), w')"
  shows "connection_read_event os h c w = Inr (c, None, w')"
proof -
  have rd: "ServerActiveSocket_read os (conn_socket c) n w = ((mkResult SOCKET_CLOSED 0, []), w')" for n
    by (simp add: ServerActiveSocket_read_def socket_recv_def eof recv_result_def i32_def)
  have nil: "unat off \<le> length buf \<Longrightarrow> write_mem buf off [] = Inr buf" for off and buf :: "byte list"
    by (simp add: write_mem_def)
  have "conn_state c = READING_HEADER \<or> conn_state c = READING_PAYLOAD"
    using assms(1,2) by (cases "conn_state c") (auto simp: conn_defs)
  then show ?thesis
  proof
    assume st: "conn_state c = READING_HEADER"
    then have "unat (conn_header_read c) < length (conn_header c)"
      using assms(1) by (simp add: conn_defs word_less_nat_alt)
    moreover from this have "conn_header_read c \<noteq> of_nat (length (conn_header c))"
      using assms(1) by (auto simp: conn_defs)
    ultimately show ?thesis
      by (simp add: connection_read_event_def st readHeader_def rd nil size_of_def after_read_def)
  next
    assume st: "conn_state c = READING_PAYLOAD"
    have less: "conn_payload_read c < conn_payload_size c" using assms(1) st by (auto simp: conn_defs)
    then have "unat (conn_payload_read c) \<le> length (conn_payload c)"
      using assms(1) st handler_sizes [OF h, of "conn_header c"]
      by (auto simp: conn_defs word_less_nat_alt word_le_nat_alt)
    with less show ?thesis
      using st by (auto simp: connection_read_event_def readPayload_def rd nil size_of_def after_read_def)
  qed
qed

theorem peer_close_ignored_witness:
  "connection_read_event (null_os\<lparr>os_recv := (\<lambda>s n w. ((0, []), w))\<rparr>) echo_handler
     (SocketConnection_new echo_socket echo_handler 4) echo_start
   = Inr (SocketConnection_new echo_socket echo_handler 4, None, echo_start)"
proof -
  have "conn_inv echo_handler 4 echo_payload echo_trace
      (SocketConnection_new echo_socket echo_handler 4) echo_start"
    by (rule new_inv [OF echo_ok(1)]) (simp_all add: echo_trace_def echo_start_def)
  from peer_close_ignored [OF this _ echo_ok(1), of "null_os\<lparr>os_recv := (\<lambda>s n w. ((0, []), w))\<rparr>" echo_start]
  show ?thesis by (simp add: SocketConnection_new_def)
qed

text \<open>
  A request classified \<open>SLOW\<close> is dropped: when its payload is complete the handler is
  not called, no byte is sent, and the connection is reset for the next request.
\<close>

theorem slow_request_dropped:
  assumes "conn_state c = READING_PAYLOAD" and "conn_mode c = SLOW"
    and "conn_response_size c = 0" and "conn_written c = 0"
    and "os_recv os (bs_fd (conn_socket c)) (as_len (conn_payload_size c - conn_payload_read c)) w
      = ((int (length data), data), w1)"
    and "unat (conn_payload_read c) + length data = unat (conn_payload_size c)"
    and "unat (conn_payload_size c) \<le> length (conn_payload c)" and "unat (conn_payload_size c) < 2 ^ 31"
    and "os_send os (bs_fd (conn_socket c)) [] w1 = (0, w2)"
  shows "\<exists>c'. connection_events os h [Readable, Writable] c w = Inr (c', w2)
    \<and> conn_state c' = READING_HEADER \<and> conn_header_read c' = 0"
proof -
  have "int (length data) < 2 ^ 31"
    using assms(6,8) by (metis add.commute le_add1 le_less_trans of_nat_less_iff of_nat_numeral of_nat_power)
  then have i32: "i32 (int (length data)) = int (length data)" by (intro i32_small) linarith+
  obtain buf where buf: "write_mem (conn_payload c) (conn_payload_read c) data = Inr buf"
    using assms(6,7) by (auto simp: write_mem_def)
  have "unat (size_of (int (length data))) = length data"
    using \<open>int (length data) < 2 ^ 31\<close> by (simp add: unat_size_of)
  then have "unat (conn_payload_read c + size_of (int (length data))) = unat (conn_payload_size c)"
    using assms(6,8) by (simp add: unat_add_size)
  then have full: "conn_payload_read c + size_of (int (length data)) = conn_payload_size c"
    by (simp add: word_unat_eq_iff)
  let ?c = "c\<lparr>conn_payload := buf, conn_payload_read := conn_payload_size c, conn_state := WRITING_RESPONSE\<rparr>"
  have "connection_read_event os h c w = Inr (?c, Some WRITE, w1)"
    using assms(1,2,5) buf i32 full
    by (simp add: connection_read_event_def readPayload_def ServerActiveSocket_read_def socket_recv_def
        after_read_def Let_def)
  moreover have "connection_write_event os ?c w1
      = Inr ((flush (?c\<lparr>conn_state := FINISH_PROCESS\<rparr>))\<lparr>conn_state := READING_HEADER\<rparr>, Some READ, w2)"
    using assms(3,4,9)
    by (simp add: connection_write_event_def writeResponse_def read_mem_def ServerActiveSocket_write_def
        socket_send_def recv_result_def i32_def size_of_def flush_def)
  ultimately show ?thesis by (simp add: flush_def)
qed

theorem slow_request_dropped_witness:
  "\<exists>c'. connection_events (null_os\<lparr>os_recv := (\<lambda>s n w. ((2, [7, 8]), w)), os_send := (\<lambda>s b w. (0, w))\<rparr>)
      echo_handler [Readable, Writable]
      ((SocketConnection_new echo_socket echo_handler 4)
        \<lparr>conn_state := READING_PAYLOAD, conn_mode := SLOW, conn_payload_size := 2\<rparr>) echo_start
    = Inr (c', echo_start) \<and> conn_state c' = READING_HEADER"
  using slow_request_dropped [of "(SocketConnection_new echo_socket echo_handler 4)
        \<lparr>conn_state := READING_PAYLOAD, conn_mode := SLOW, conn_payload_size := 2\<rparr>"
      "null_os\<lparr>os_recv := (\<lambda>s n w. ((2, [7, 8]), w)), os_send := (\<lambda>s b w. (0, w))\<rparr>" echo_start
      "[7, 8]" echo_start echo_start echo_handler]
  by (auto simp: SocketConnection_new_def)

end
