(* ===== verification/Object_Pool.thy ===== *)
theory Object_Pool
  imports Prelude
begin

text \<open>
  \<^verbatim>\<open>ObjectPool.hpp\<close>: a fixed array of slots and a queue of the free ones. A pointer is the
  position of a slot counted from the start of the array, so a pointer from elsewhere is a
  number outside \<open>{0..<size}\<close>.
\<close>

type_synonym slot = int

record 'a object_pool =
  pool_size :: nat
  pool_availables :: "slot list"
  pool_objects :: "slot \<rightharpoonup> 'a"

definition ObjectPool_new :: "nat \<Rightarrow> 'a object_pool" where
  "ObjectPool_new initial_size =
     \<lparr>pool_size = initial_size, pool_availables = map int [0..<initial_size],
      pool_objects = Map.empty\<rparr>"

text \<open>\<open>acquire\<close> constructs the object in the front slot; the null pointer is \<open>None\<close>.\<close>

definition pool_acquire :: "'a \<Rightarrow> 'a object_pool \<Rightarrow> (slot \<times> 'a object_pool) option" where
  "pool_acquire x p =
     (case pool_availables p of
        [] \<Rightarrow> None
      | s # rest \<Rightarrow> Some (s, p\<lparr>pool_availables := rest, pool_objects := (pool_objects p)(s \<mapsto> x)\<rparr>))"

text \<open>\<open>release\<close> destroys the object and queues its slot, if the pointer lies in the array.\<close>

definition pool_release :: "slot \<Rightarrow> 'a object_pool \<Rightarrow> 'a object_pool" where
  "pool_release s p =
     (if 0 \<le> s \<and> s < int (pool_size p)
      then p\<lparr>pool_availables := pool_availables p @ [s], pool_objects := (pool_objects p)(s := None)\<rparr>
      else p)"

text \<open>Writing through the pointer to a live object.\<close>

definition pool_update :: "slot \<Rightarrow> 'a \<Rightarrow> 'a object_pool \<Rightarrow> 'a object_pool" where
  "pool_update s x p = p\<lparr>pool_objects := (pool_objects p)(s \<mapsto> x)\<rparr>"

subsection \<open>Invariant\<close>

text \<open>Every slot is free or holds an object, and is not queued twice.\<close>

definition pool_wf :: "'a object_pool \<Rightarrow> bool" where
  "pool_wf p \<longleftrightarrow> distinct (pool_availables p)
     \<and> set (pool_availables p) \<inter> dom (pool_objects p) = {}
     \<and> set (pool_availables p) \<union> dom (pool_objects p) = {0..<int (pool_size p)}"

lemma pool_wf_new [wf_intros]: "pool_wf (ObjectPool_new n)"
  by (auto simp: pool_wf_def ObjectPool_new_def distinct_map image_iff) (metis atLeastLessThan_iff zero_le_imp_eq_int of_nat_less_iff atLeast0LessThan lessThan_iff)

lemma pool_acquire_wf:
  assumes "pool_wf p" and "pool_acquire x p = Some (s, p')"
  shows "pool_wf p' \<and> pool_objects p s = None \<and> pool_objects p' = (pool_objects p)(s \<mapsto> x)
    \<and> pool_size p' = pool_size p"
proof -
  obtain rest where av: "pool_availables p = s # rest"
    and p': "p' = p\<lparr>pool_availables := rest, pool_objects := (pool_objects p)(s \<mapsto> x)\<rparr>"
    using assms(2) by (auto simp: pool_acquire_def split: list.splits)
  then show ?thesis using assms(1) by (auto simp: pool_wf_def)
qed

lemma pool_release_wf:
  assumes "pool_wf p" and "pool_objects p s \<noteq> None"
  shows "pool_wf (pool_release s p) \<and> pool_objects (pool_release s p) = (pool_objects p)(s := None)
    \<and> pool_size (pool_release s p) = pool_size p
    \<and> pool_availables (pool_release s p) = pool_availables p @ [s]"
proof -
  have "s \<in> {0..<int (pool_size p)}" and "s \<notin> set (pool_availables p)"
    using assms by (auto simp: pool_wf_def domIff)
  then show ?thesis using assms(1) by (auto simp: pool_wf_def pool_release_def)
qed

lemma pool_update_wf [wf_intros]:
  "pool_wf p \<Longrightarrow> pool_objects p s \<noteq> None \<Longrightarrow> pool_wf (pool_update s x p)"
  by (simp add: pool_wf_def pool_update_def insert_absorb domIff)

lemma pool_counts:
  assumes "pool_wf p"
  shows "finite (dom (pool_objects p))"
    and "length (pool_availables p) + card (dom (pool_objects p)) = pool_size p"
proof -
  have un: "set (pool_availables p) \<union> dom (pool_objects p) = {0..<int (pool_size p)}"
    and disj: "set (pool_availables p) \<inter> dom (pool_objects p) = {}"
    and dist: "distinct (pool_availables p)"
    using assms by (simp_all add: pool_wf_def)
  from un show fin: "finite (dom (pool_objects p))"
    by (metis finite_Un finite_atLeastLessThan_int)
  have "card (set (pool_availables p)) + card (dom (pool_objects p)) =
      card (set (pool_availables p) \<union> dom (pool_objects p))"
    by (rule card_Un_disjoint [symmetric]) (use fin disj in auto)
  with un dist show "length (pool_availables p) + card (dom (pool_objects p)) = pool_size p"
    by (simp add: distinct_card)
qed

lemma pool_acquire_None: "pool_wf p \<Longrightarrow> pool_acquire x p = None \<longleftrightarrow>
    card (dom (pool_objects p)) = pool_size p"
  using pool_counts(2) [of p] by (auto simp: pool_acquire_def split: list.splits)

lemma pool_acquire_room:
  assumes "pool_wf p" and "pool_acquire x p = Some (s, p')"
  shows "card (dom (pool_objects p)) < pool_size p"
  using assms pool_counts(2) [of p] by (auto simp: pool_acquire_def split: list.splits)

subsection \<open>The pool as an interface\<close>

text \<open>
  What a user of a pool relies on: objects are addressed by slots, acquiring never hands out
  a slot in use, fails exactly when as many objects are live as the capacity, and releasing
  a live object makes room again.
\<close>

locale slot_pool =
  fixes acquire :: "'a \<Rightarrow> 'p \<Rightarrow> (slot \<times> 'p) option"
    and release :: "slot \<Rightarrow> 'p \<Rightarrow> 'p"
    and live :: "'p \<Rightarrow> slot \<rightharpoonup> 'a"
    and capacity :: "'p \<Rightarrow> nat"
    and inv :: "'p \<Rightarrow> bool"
  assumes finite_law: "inv p \<Longrightarrow> finite (dom (live p))"
    and full_law: "inv p \<Longrightarrow> acquire x p = None \<longleftrightarrow> card (dom (live p)) = capacity p"
    and acquire_law: "inv p \<Longrightarrow> acquire x p = Some (s, p') \<Longrightarrow>
      inv p' \<and> live p s = None \<and> live p' = (live p)(s \<mapsto> x) \<and> capacity p' = capacity p"
    and release_law: "inv p \<Longrightarrow> live p s \<noteq> None \<Longrightarrow>
      inv (release s p) \<and> live (release s p) = (live p)(s := None)
      \<and> capacity (release s p) = capacity p"
begin

lemma acquire_count:
  assumes "inv p" and "acquire x p = Some (s, p')"
  shows "card (dom (live p')) = Suc (card (dom (live p)))"
  using acquire_law [OF assms] finite_law [OF assms(1)] by (auto simp: domIff)

lemma room_after_release:
  assumes "inv p" and "live p s \<noteq> None" and "card (dom (live p)) \<le> capacity p"
  shows "\<exists>s' p'. acquire x (release s p) = Some (s', p')"
proof -
  have "card (dom ((live p)(s := None))) < card (dom (live p))"
    using finite_law [OF assms(1)] assms(2)
    by (intro psubset_card_mono) (auto simp: domIff)
  with release_law [OF assms(1,2)] assms(3)
  have "acquire x (release s p) \<noteq> None" by (simp add: full_law)
  then show ?thesis by auto
qed

text \<open>A run of acquisitions, stopping at the first null pointer.\<close>

lemma acquire_release_identity:
  assumes "inv p" and "acquire x p = Some (s, p')"
  shows "live (release s p') = live p \<and> inv (release s p')"
proof -
  have a: "inv p'" "live p s = None" "live p' = (live p)(s \<mapsto> x)"
    using acquire_law [OF assms] by auto
  then have "live p' s \<noteq> None" by simp
  from release_law [OF a(1) this] a show ?thesis by (simp add: fun_upd_idem)
qed

end

interpretation op: slot_pool pool_acquire pool_release pool_objects pool_size pool_wf
  by unfold_locales
    (auto simp: pool_acquire_None pool_counts dest: pool_acquire_wf pool_release_wf)

subsection \<open>Runs of acquisitions\<close>

fun acquire_each :: "'a list \<Rightarrow> 'a object_pool \<Rightarrow> (slot list \<times> 'a object_pool) option" where
  "acquire_each [] p = Some ([], p)"
| "acquire_each (x # xs) p =
     (case pool_acquire x p of None \<Rightarrow> None
      | Some (s, p') \<Rightarrow>
          (case acquire_each xs p' of None \<Rightarrow> None
           | Some (ss, p'') \<Rightarrow> Some (s # ss, p'')))"

lemma acquire_each_spec:
  assumes "pool_wf p" and "card (dom (pool_objects p)) + length xs \<le> pool_size p"
  shows "\<exists>ss p'. acquire_each xs p = Some (ss, p') \<and> pool_wf p' \<and> length ss = length xs
      \<and> distinct ss \<and> set ss \<inter> dom (pool_objects p) = {}
      \<and> dom (pool_objects p') = dom (pool_objects p) \<union> set ss \<and> pool_size p' = pool_size p"
  using assms
proof (induction xs arbitrary: p)
  case Nil
  then show ?case by simp
next
  case (Cons x xs)
  then have "pool_acquire x p \<noteq> None" by (simp add: op.full_law)
  then obtain s p1 where acq: "pool_acquire x p = Some (s, p1)" by auto
  have p1: "pool_wf p1" "pool_objects p s = None" "pool_objects p1 = (pool_objects p)(s \<mapsto> x)"
      "pool_size p1 = pool_size p"
    using op.acquire_law [OF Cons.prems(1) acq] by auto
  have "card (dom (pool_objects p1)) + length xs \<le> pool_size p1"
    using Cons.prems(2) op.acquire_count [OF Cons.prems(1) acq] p1(4) by simp
  from Cons.IH [OF p1(1) this] obtain ss p' where
      "acquire_each xs p1 = Some (ss, p')" "pool_wf p'" "length ss = length xs" "distinct ss"
      "set ss \<inter> dom (pool_objects p1) = {}"
      "dom (pool_objects p') = dom (pool_objects p1) \<union> set ss" "pool_size p' = pool_size p1"
    by auto
  with acq p1 show ?case by (auto simp: domIff)
qed

subsection \<open>Properties\<close>

text \<open>
  C40. A pool of \<open>n\<close> slots serves exactly \<open>n\<close> objects: any \<open>n\<close> acquisitions from a new pool
  succeed with pairwise different slots of the array, and the next one returns the null
  pointer.
\<close>

theorem pool_capacity:
  assumes "length xs = n"
  shows "\<exists>ss p. acquire_each xs (ObjectPool_new n) = Some (ss, p) \<and> distinct ss
      \<and> set ss = {0..<int n} \<and> pool_acquire x p = None"
proof -
  let ?p0 = "ObjectPool_new n :: 'a object_pool"
  have new: "dom (pool_objects ?p0) = {}" "pool_size ?p0 = n" by (simp_all add: ObjectPool_new_def)
  then obtain ss p where p: "acquire_each xs ?p0 = Some (ss, p)" "pool_wf p" "length ss = n"
      "distinct ss" "dom (pool_objects p) = set ss" "pool_size p = n"
    using acquire_each_spec [OF pool_wf_new [of n], of xs] assms by auto
  have card: "card (set ss) = n" using p(3,4) by (simp add: distinct_card)
  have "set ss \<subseteq> {0..<int n}" using p(2,5,6) by (auto simp: pool_wf_def)
  then have "set ss = {0..<int n}" by (intro card_subset_eq) (simp_all add: card)
  moreover have "pool_acquire x p = None" using p card by (simp add: op.full_law)
  ultimately show ?thesis using p by auto
qed

theorem pool_capacity_witness:
  "\<exists>ss p. acquire_each [10, 20, 30 :: nat] (ObjectPool_new 3) = Some (ss, p) \<and> distinct ss
      \<and> set ss = {0..<3} \<and> pool_acquire 40 p = None"
  using pool_capacity [of "[10, 20, 30 :: nat]" 3 40] by simp

text \<open>
  Releasing the last object, like any other, makes it available again: on a full pool
  the next acquisition after releasing a live slot returns that very slot, and the other
  live objects are untouched.
\<close>

theorem pool_release_reuses:
  assumes wf: "pool_wf p" and live: "pool_objects p s \<noteq> None" and full: "pool_acquire y p = None"
  shows "\<exists>p'. pool_acquire x (pool_release s p) = Some (s, p')
      \<and> pool_objects p' = (pool_objects p)(s \<mapsto> x) \<and> pool_wf p'"
proof -
  have "pool_availables p = []" using full by (auto simp: pool_acquire_def split: list.splits)
  with pool_release_wf [OF wf live]
  obtain p' where acq: "pool_acquire x (pool_release s p) = Some (s, p')"
    by (auto simp: pool_acquire_def)
  have "pool_wf (pool_release s p)" "pool_objects (pool_release s p) = (pool_objects p)(s := None)"
    using op.release_law [OF wf live] by auto
  with op.acquire_law [OF _ acq] acq show ?thesis by simp
qed

theorem pool_release_reuses_witness:
  "\<exists>p'. pool_acquire 7 (pool_release 1
        \<lparr>pool_size = 2, pool_availables = [], pool_objects = [0 \<mapsto> 5, 1 \<mapsto> 6 :: nat]\<rparr>) = Some (1, p')"
proof -
  let ?p = "\<lparr>pool_size = 2, pool_availables = [], pool_objects = [0 \<mapsto> 5, 1 \<mapsto> 6 :: nat]\<rparr>"
  have "pool_wf ?p" by (auto simp: pool_wf_def)
  from pool_release_reuses [OF this, of 1 0 7] show ?thesis by (auto simp: pool_acquire_def)
qed

text \<open>
  The pool has no protection against a second release of the same object: it queues the
  slot twice, so two later acquisitions hand out one slot for two objects.
\<close>

theorem pool_double_release_aliases:
  assumes "pool_wf p" and "pool_objects p s \<noteq> None" and "pool_acquire z p = None"
  shows "\<exists>p'. acquire_each [x, y] (pool_release s (pool_release s p)) = Some ([s, s], p')
      \<and> pool_objects p' s = Some y"
proof -
  have "pool_availables p = []" using assms(3) by (auto simp: pool_acquire_def split: list.splits)
  moreover have "0 \<le> s \<and> s < int (pool_size p)"
    using assms(1,2) by (fastforce simp: pool_wf_def domIff)
  ultimately show ?thesis by (simp add: pool_release_def pool_acquire_def)
qed

theorem pool_double_release_aliases_witness:
  "\<exists>p'. acquire_each [8, 9] (pool_release 0 (pool_release 0
        \<lparr>pool_size = 1, pool_availables = [], pool_objects = [0 \<mapsto> 5 :: nat]\<rparr>)) = Some ([0, 0], p')"
proof -
  let ?p = "\<lparr>pool_size = 1, pool_availables = [], pool_objects = [0 \<mapsto> 5 :: nat]\<rparr>"
  have "pool_wf ?p" by (auto simp: pool_wf_def)
  from pool_double_release_aliases [OF this, of 0 0 8 9] show ?thesis
    by (auto simp: pool_acquire_def)
qed

end
