(* ===== verification/Request_Server.thy ===== *)
theory Request_Server
  imports Connection Object_Pool
begin

text \<open>
  \<^verbatim>\<open>SocketRequestServerImpl\<close>: one thread that waits on the listening socket and on every
  connection, and dispatches each reported event. The connections live in a pool of 32
  slots; the listener holds raw pointers to them and to the context of the listening
  socket, a local variable of the thread.
\<close>

subsection \<open>State\<close>

text \<open>A \<^verbatim>\<open>SocketEventContext*\<close> points to the thread's own context or to a slot of the pool.\<close>

datatype server_ctx = ServerCtx | Conn slot

record request_server =
  rq_cfg :: SocketConfiguration
  rq_tls :: SocketTLSServerConfiguration
  rq_socket :: "base_socket option"
  rq_running :: bool
  rq_pool :: "connection object_pool"

record run_state =
  rs_server :: event_context
  rs_pool :: "connection object_pool"
  rs_listener :: "server_ctx multi_listener"

definition SocketRequestServerImpl_new ::
  "SocketConfiguration \<Rightarrow> SocketTLSServerConfiguration \<Rightarrow> request_server" where
  "SocketRequestServerImpl_new cfg tls =
     \<lparr>rq_cfg = cfg, rq_tls = tls, rq_socket = None, rq_running = False, rq_pool = ObjectPool_new 32\<rparr>"

subsection \<open>Opening and closing\<close>

definition SocketRequestServerImpl_open ::
  "'w os \<Rightarrow> request_server \<Rightarrow> 'w \<Rightarrow> (SocketResult \<times> request_server \<times> 'w) result" where
  "SocketRequestServerImpl_open os sv w =
     (if rq_running sv then Inr (mkCode SOCKET_SERVER_ALREADY_RUNNING, sv, w) else
      let cfg = rq_cfg sv; ux = cfg_is_unix_domain cfg in
      bindR (PassiveSocketContainer_new os (ts_valid (rq_tls sv)) ux w) (\<lambda>(s, w).
        let sv = sv\<lparr>rq_socket := Some s\<rparr>; result = bs_result s in
        if sr_code result \<noteq> SUCCESS then Inr (result, sv, w) else
        bindR (c_str (cfg_ip cfg)) (\<lambda>ip.
        bindR (c_str (cfg_port cfg)) (\<lambda>port.
        bindR (SocketAddress_new os ip port True ux w) (\<lambda>(address, w).
          let result = sa_result address in
          if sr_code result \<noteq> SUCCESS then Inr (result, sv, w) else
          let (result, w) = PassiveSocket_bind os s address w in
          if sr_code result \<noteq> SUCCESS then Inr (result, sv, w) else
          let (result, w) = PassiveSocket_listen os s w in
          if sr_code result \<noteq> SUCCESS then Inr (result, sv, w) else
          Inr (result, sv\<lparr>rq_running := True\<rparr>, w))))))"

text \<open>The thread has been joined when the listening socket is closed.\<close>

definition SocketRequestServerImpl_close ::
  "'w os \<Rightarrow> request_server \<Rightarrow> 'w \<Rightarrow> (request_server \<times> 'w) result" where
  "SocketRequestServerImpl_close os sv w =
     (if rq_running sv then
        let sv = sv\<lparr>rq_running := False\<rparr> in
        (case rq_socket sv of None \<Rightarrow> Inl NullDeref
         | Some s \<Rightarrow> let (s, w) = PassiveSocket_close os s w in Inr (sv\<lparr>rq_socket := Some s\<rparr>, w))
      else Inr (sv, w))"

subsection \<open>The contexts as a heap\<close>

definition heap_of :: "run_state \<Rightarrow> server_ctx ctx_heap" where
  "heap_of st c = (case c of ServerCtx \<Rightarrow> Some (rs_server st)
                   | Conn s \<Rightarrow> map_option conn_ctx (pool_objects (rs_pool st) s))"

text \<open>Storing back the contexts the listener's wait has written the event types to.\<close>

definition store_heap :: "server_ctx ctx_heap \<Rightarrow> run_state \<Rightarrow> run_state" where
  "store_heap h st =
     st\<lparr>rs_server := the (h ServerCtx),
        rs_pool := (rs_pool st)\<lparr>pool_objects := (\<lambda>s.
          map_option (\<lambda>c. c\<lparr>conn_ctx := the (h (Conn s))\<rparr>) (pool_objects (rs_pool st) s))\<rparr>\<rparr>"

text \<open>The downcast \<^verbatim>\<open>static_cast<SocketConnection*>(context)\<close> and the use of its result.\<close>

definition get_connection :: "run_state \<Rightarrow> server_ctx \<Rightarrow> (slot \<times> connection) result" where
  "get_connection st c =
     (case c of ServerCtx \<Rightarrow> Inl BadCast
      | Conn s \<Rightarrow> (case pool_objects (rs_pool st) s of None \<Rightarrow> Inl UseAfterFree | Some x \<Rightarrow> Inr (s, x)))"

definition set_connection :: "slot \<Rightarrow> connection \<Rightarrow> run_state \<Rightarrow> run_state" where
  "set_connection s x st = st\<lparr>rs_pool := pool_update s x (rs_pool st)\<rparr>"

subsection \<open>Events\<close>

definition handle_accept ::
  "'w os \<Rightarrow> 'w handler \<Rightarrow> SocketConfiguration \<Rightarrow> base_socket \<Rightarrow> run_state \<Rightarrow> 'w
   \<Rightarrow> (run_state \<times> 'w) result" where
  "handle_accept os h cfg psock st w =
     (let (client_socket, w) = PassiveSocket_accept os psock w in
      if sr_code (bs_result client_socket) = SUCCESS then
        (case pool_acquire (SocketConnection_new client_socket h (cfg_pdu_size cfg)) (rs_pool st) of
           None \<Rightarrow> Inl NullDeref
         | Some (s, pool) \<Rightarrow>
             let st = st\<lparr>rs_pool := pool\<rparr>;
                 w = connectClient h (SocketConnection_new client_socket h (cfg_pdu_size cfg)) w
             in bindR (addEvent (heap_of st) (Conn s) READ (rs_listener st))
                  (\<lambda>l. Inr (st\<lparr>rs_listener := l\<rparr>, w)))
      else Inr (st, w))"

definition handle_disconnected ::
  "'w os \<Rightarrow> 'w handler \<Rightarrow> server_ctx \<Rightarrow> run_state \<Rightarrow> 'w \<Rightarrow> (run_state \<times> 'w) result" where
  "handle_disconnected os h c st w =
     bindR (get_connection st c) (\<lambda>(s, x).
       let (x, w) = disconnectClient os h x w;
           st = set_connection s x st
       in bindR (removeEvent (heap_of st) c (rs_listener st)) (\<lambda>l.
            Inr (st\<lparr>rs_listener := l, rs_pool := pool_release s (rs_pool st)\<rparr>, w)))"

text \<open>Changing the registration of a connection as the step of its state machine asks.\<close>

definition register ::
  "server_ctx \<Rightarrow> SocketEventType option \<Rightarrow> run_state \<Rightarrow> run_state result" where
  "register c want st =
     (case want of None \<Rightarrow> Inr st
      | Some ty \<Rightarrow> bindR (modifyEvent (heap_of st) c ty (rs_listener st))
                     (\<lambda>l. Inr (st\<lparr>rs_listener := l\<rparr>)))"

definition handle_io ::
  "(connection \<Rightarrow> 'w \<Rightarrow> (connection \<times> SocketEventType option \<times> 'w) result)
   \<Rightarrow> server_ctx \<Rightarrow> run_state \<Rightarrow> 'w \<Rightarrow> (run_state \<times> 'w) result" where
  "handle_io step c st w =
     bindR (get_connection st c) (\<lambda>(s, x).
     bindR (step x w) (\<lambda>(x, want, w).
     bindR (register c want (set_connection s x st)) (\<lambda>st. Inr (st, w))))"

definition handle_event ::
  "'w os \<Rightarrow> 'w handler \<Rightarrow> SocketConfiguration \<Rightarrow> base_socket \<Rightarrow> server_ctx \<Rightarrow> run_state \<Rightarrow> 'w
   \<Rightarrow> (run_state \<times> 'w) result" where
  "handle_event os h cfg psock c st w =
     (case heap_of st c of None \<Rightarrow> Inl UseAfterFree
      | Some ec \<Rightarrow>
         (case ec_type ec of
            ACCEPT \<Rightarrow> handle_accept os h cfg psock st w
          | DISCONNECTED \<Rightarrow> handle_disconnected os h c st w
          | READ \<Rightarrow> handle_io (connection_read_event os h) c st w
          | WRITE \<Rightarrow> handle_io (connection_write_event os) c st w
          | _ \<Rightarrow> Inr (st, w)))"

fun dispatch ::
  "'w os \<Rightarrow> 'w handler \<Rightarrow> SocketConfiguration \<Rightarrow> base_socket \<Rightarrow> server_ctx list \<Rightarrow> run_state \<Rightarrow> 'w
   \<Rightarrow> (run_state \<times> 'w) result" where
  "dispatch os h cfg psock [] st w = Inr (st, w)"
| "dispatch os h cfg psock (c # cs) st w =
     bindR (handle_event os h cfg psock c st w) (\<lambda>(st, w). dispatch os h cfg psock cs st w)"

subsection \<open>The loop\<close>

definition run_start :: "base_socket \<Rightarrow> connection object_pool \<Rightarrow> run_state result" where
  "run_start psock pool =
     (let st = \<lparr>rs_server = \<lparr>ec_fd = bs_fd psock, ec_type = UNDEFINED\<rparr>, rs_pool = pool,
                rs_listener = snd (SocketMultiEventListener_open multi_listener_new)\<rparr>
      in bindR (addEvent (heap_of st) ServerCtx ACCEPT (rs_listener st))
           (\<lambda>l. Inr (st\<lparr>rs_listener := l\<rparr>)))"

text \<open>One iteration; the flag says whether the loop goes on (\<open>False\<close> is the \<^verbatim>\<open>break\<close>).\<close>

definition run_iteration ::
  "'w os \<Rightarrow> 'w handler \<Rightarrow> SocketConfiguration \<Rightarrow> base_socket \<Rightarrow> run_state \<Rightarrow> 'w
   \<Rightarrow> (bool \<times> run_state \<times> 'w) result" where
  "run_iteration os h cfg psock st w =
     bindR (SocketMultiEventListener_wait os (rs_listener st) (cfg_read_timeout cfg) (heap_of st) w)
       (\<lambda>(result, contexts, heap, w).
          let st = store_heap heap st in
          if sr_code result = SOCKET_TIMEOUT then Inr (True, st, w)
          else if sr_code result \<noteq> SUCCESS then Inr (False, st, w)
          else bindR (dispatch os h cfg psock contexts st w) (\<lambda>(st, w). Inr (True, st, w)))"

text \<open>
  The loop, for as many tests of \<^verbatim>\<open>_is_running\<close> as find it set: another thread clears it, at
  any time, so every number of iterations is an execution.
\<close>

fun run_loop ::
  "nat \<Rightarrow> 'w os \<Rightarrow> 'w handler \<Rightarrow> SocketConfiguration \<Rightarrow> base_socket \<Rightarrow> run_state \<Rightarrow> 'w
   \<Rightarrow> (run_state \<times> 'w) result" where
  "run_loop 0 os h cfg psock st w = Inr (st, w)"
| "run_loop (Suc n) os h cfg psock st w =
     bindR (run_iteration os h cfg psock st w) (\<lambda>(go, st, w).
       if go then run_loop n os h cfg psock st w else Inr (st, w))"

definition run ::
  "nat \<Rightarrow> 'w os \<Rightarrow> 'w handler \<Rightarrow> SocketConfiguration \<Rightarrow> base_socket \<Rightarrow> connection object_pool \<Rightarrow> 'w
   \<Rightarrow> (run_state \<times> 'w) result" where
  "run n os h cfg psock pool w =
     bindR (run_start psock pool) (\<lambda>st. run_loop n os h cfg psock st w)"

subsection \<open>The environment of a server\<close>

text \<open>
  The documented behaviour the server relies on: \<^verbatim>\<open>accept\<close> returns a descriptor that is not
  open, \<^verbatim>\<open>close\<close> closes one, nothing else the thread calls opens or closes any. \<open>opened\<close>
  is the set of open descriptors, \<open>clients\<close> the application's count: connections announced
  to it and not yet announced closed.
\<close>

definition same_env :: "('w \<Rightarrow> fd set) \<Rightarrow> ('w \<Rightarrow> int) \<Rightarrow> 'w \<Rightarrow> 'w \<Rightarrow> bool" where
  "same_env opened clients w w' \<longleftrightarrow> opened w' = opened w \<and> clients w' = clients w"

definition server_os :: "'w os \<Rightarrow> ('w \<Rightarrow> fd set) \<Rightarrow> ('w \<Rightarrow> int) \<Rightarrow> bool" where
  "server_os os opened clients \<longleftrightarrow> poll_ok os
     \<and> (\<forall>s w r a w'. os_accept os s w = ((r, a), w') \<longrightarrow>
          - 1 \<le> r \<and> r < 2 ^ 31 \<and> clients w' = clients w
          \<and> (if 0 \<le> r then r \<notin> opened w \<and> opened w' = insert r (opened w) else opened w' = opened w))
     \<and> (\<forall>s w. opened (os_close os s w) = opened w - {s} \<and> clients (os_close os s w) = clients w)
     \<and> (\<forall>s n w. same_env opened clients w (snd (os_recv os s n w)))
     \<and> (\<forall>s buf w. same_env opened clients w (snd (os_send os s buf w)))
     \<and> (\<forall>fds t w. same_env opened clients w (snd (os_poll os fds t w)))
     \<and> (\<forall>s f w. same_env opened clients w (os_setfl os s f w))"

definition server_handler :: "'w handler \<Rightarrow> ('w \<Rightarrow> fd set) \<Rightarrow> ('w \<Rightarrow> int) \<Rightarrow> bool" where
  "server_handler h opened clients \<longleftrightarrow>
     (\<forall>hdr w. same_env opened clients w (snd (h_payload_size h hdr w)))
     \<and> (\<forall>hdr w. same_env opened clients w (snd (h_mode h hdr w)))
     \<and> (\<forall>hdr p n w. same_env opened clients w (snd (h_processed h hdr p n w)))
     \<and> (\<forall>hdr p n w. same_env opened clients w (h_processed_without_response h hdr p n w))
     \<and> (\<forall>ip port w. opened (h_connected h ip port w) = opened w
          \<and> clients (h_connected h ip port w) = clients w + 1)
     \<and> (\<forall>ip port w. opened (h_disconnected h ip port w) = opened w
          \<and> clients (h_disconnected h ip port w) = clients w - 1)"

lemma same_env_refl [simp]: "same_env opened clients w w"
  by (simp add: same_env_def)

lemma same_env_trans: "same_env o1 k a b \<Longrightarrow> same_env o1 k b c \<Longrightarrow> same_env o1 k a c"
  by (simp add: same_env_def)

subsection \<open>What a step of a connection leaves alone\<close>

text \<open>
  Without any assumption on sizes: a step may fault only out of bounds, keeps the socket and
  the context, and asks for the registration that fits the new state.
\<close>

definition step_frame ::
  "('w \<Rightarrow> fd set) \<Rightarrow> ('w \<Rightarrow> int) \<Rightarrow> connection \<Rightarrow> 'w
   \<Rightarrow> (connection \<times> SocketEventType option \<times> 'w) result \<Rightarrow> bool" where
  "step_frame opened clients c w r \<longleftrightarrow>
     (case r of Inl e \<Rightarrow> e = OutOfBounds
      | Inr (c', want, w') \<Rightarrow> conn_socket c' = conn_socket c \<and> conn_ctx c' = conn_ctx c
          \<and> same_env opened clients w w'
          \<and> want = (if (conn_state c' = WRITING_RESPONSE) = (conn_state c = WRITING_RESPONSE) then None
                    else if conn_state c' = WRITING_RESPONSE then Some WRITE else Some READ))"

lemma runTask_frame:
  assumes "server_handler h opened clients" and "conn_state c \<noteq> WRITING_RESPONSE"
    and "conn_socket c = conn_socket d" and "conn_ctx c = conn_ctx d"
    and "conn_state d \<noteq> WRITING_RESPONSE" and "same_env opened clients w0 w"
  shows "step_frame opened clients d w0 (bindR (runTask h m n c w) (\<lambda>r. Inr (after_read r)))"
proof -
  have p: "same_env opened clients w (snd (h_processed h hdr p n w))"
    "same_env opened clients w (h_processed_without_response h hdr p n w)" for hdr p n w
    using assms(1) by (simp_all add: server_handler_def)
  have proc: "step_frame opened clients d w0 (bindR (process h n c w) (\<lambda>r. Inr (after_read r)))"
  proof (cases "h_processed h (conn_header c) (conn_payload c) n w")
    case (Pair o1 w1)
    then have "same_env opened clients w0 w1"
      using p(1) [of w "conn_header c" "conn_payload c" n] assms(6) by (auto intro: same_env_trans)
    with Pair assms show ?thesis
      by (cases o1; cases "write_mem (conn_output c) 0 (fst o1)")
        (auto simp: process_def step_frame_def after_read_def dest: write_mem_Inl)
  qed
  show ?thesis
  proof (cases m)
    case SLOW
    with assms show ?thesis by (simp add: step_frame_def after_read_def)
  next
    case WRITE_STREAM
    have "same_env opened clients w0 (h_processed_without_response h (conn_header c) (conn_payload c) n w)"
      using p(2) assms(6) by (blast intro: same_env_trans)
    with WRITE_STREAM assms show ?thesis by (simp add: step_frame_def after_read_def flush_def)
  qed (use proc in simp_all)
qed

lemma socket_recv_env:
  "server_os os opened clients \<Longrightarrow> ServerActiveSocket_read os s n w = ((r, d), w') \<Longrightarrow>
   same_env opened clients w w'"
  unfolding server_os_def ServerActiveSocket_read_def socket_recv_def
  by (auto simp: Let_def split: prod.splits) (metis snd_conv)

lemma socket_send_env:
  "server_os os opened clients \<Longrightarrow> ServerActiveSocket_write os s buf w = (r, w') \<Longrightarrow>
   same_env opened clients w w'"
  unfolding server_os_def ServerActiveSocket_write_def socket_send_def
  by (auto simp: Let_def split: prod.splits) (metis snd_conv)

lemma read_event_frame:
  assumes os: "server_os os opened clients" and h: "server_handler h opened clients"
  shows "step_frame opened clients c w (connection_read_event os h c w)"
proof (cases "conn_state c")
  case st: READING_HEADER
  obtain r d w1 where rd: "ServerActiveSocket_read os (conn_socket c)
      (of_nat (length (conn_header c)) - conn_header_read c) w = ((r, d), w1)" by (metis prod.exhaust)
  have e1: "same_env opened clients w w1" by (rule socket_recv_env [OF os rd])
  show ?thesis
  proof (cases "write_mem (conn_header c) (conn_header_read c) d")
    case (Inl e)
    with st rd show ?thesis
      by (auto simp: connection_read_event_def readHeader_def step_frame_def dest: write_mem_Inl)
  next
    case (Inr hdr)
    obtain m w2 where ps: "h_payload_size h hdr w1 = (m, w2)" by fastforce
    obtain mode w3 where md: "h_mode h hdr w2 = (mode, w3)" by fastforce
    have "same_env opened clients w1 w2" "same_env opened clients w2 w3"
      using h ps md unfolding server_handler_def by (metis snd_conv)+
    with e1 have e3: "same_env opened clients w w3" by (blast intro: same_env_trans)
    let ?off = "conn_header_read c + size_of (sr_bytes r)"
    let ?c = "c\<lparr>conn_header := hdr, conn_header_read := ?off, conn_payload_size := m, conn_mode := mode\<rparr>"
    have "step_frame opened clients c w (bindR (runTask h mode m ?c w3) (\<lambda>r. Inr (after_read r)))"
      by (rule runTask_frame [OF h]) (use st e3 in simp_all)
    with st rd Inr ps md e1 e3 show ?thesis
      by (auto simp: connection_read_event_def readHeader_def step_frame_def after_read_def Let_def)
  qed
next
  case st: READING_PAYLOAD
  obtain r d w1 where rd: "ServerActiveSocket_read os (conn_socket c)
      (conn_payload_size c - conn_payload_read c) w = ((r, d), w1)" by (metis prod.exhaust)
  have e1: "same_env opened clients w w1" by (rule socket_recv_env [OF os rd])
  show ?thesis
  proof (cases "write_mem (conn_payload c) (conn_payload_read c) d")
    case (Inl e)
    with st rd show ?thesis
      by (auto simp: connection_read_event_def readPayload_def step_frame_def dest: write_mem_Inl)
  next
    case (Inr buf)
    let ?off = "conn_payload_read c + size_of (sr_bytes r)"
    let ?c = "c\<lparr>conn_payload := buf, conn_payload_read := ?off\<rparr>"
    have "step_frame opened clients c w
        (bindR (runTask h (conn_mode c) (conn_payload_size c) ?c w1) (\<lambda>r. Inr (after_read r)))"
      by (rule runTask_frame [OF h]) (use st e1 in simp_all)
    with st rd Inr e1 show ?thesis
      by (auto simp: connection_read_event_def readPayload_def step_frame_def after_read_def Let_def)
  qed
qed (simp_all add: connection_read_event_def step_frame_def)

lemma write_event_frame:
  assumes os: "server_os os opened clients"
  shows "step_frame opened clients c w (connection_write_event os c w)"
proof (cases "conn_state c = WRITING_RESPONSE")
  case st: True
  show ?thesis
  proof (cases "read_mem (conn_output c) (conn_written c) (conn_response_size c - conn_written c)")
    case (Inl e)
    then have "e = OutOfBounds" by (auto simp: read_mem_def split: if_splits)
    with Inl st show ?thesis by (simp add: connection_write_event_def writeResponse_def step_frame_def)
  next
    case (Inr buf)
    obtain r w1 where wr: "ServerActiveSocket_write os (conn_socket c) buf w = (r, w1)" by fastforce
    from socket_send_env [OF os wr] Inr st wr show ?thesis
      by (simp add: connection_write_event_def writeResponse_def step_frame_def flush_def Let_def)
  qed
qed (simp add: connection_write_event_def step_frame_def split: ProcessState.splits)

subsection \<open>Abstract specification\<close>

text \<open>
  What a server is to the outside is a book: which descriptor a slot holds, which descriptors
  are open, how many clients the application knows. A client joins with a fresh descriptor
  when there is room, and leaves with its descriptor closed. \<^verbatim>\<open>accept\<close> may return descriptor 0,
  which the code takes for a failure: the descriptor is lost. The slots of \<open>L\<close>, left over from
  earlier runs, are never vacated.
\<close>

type_synonym book = "(slot \<rightharpoonup> fd) \<times> fd set \<times> int"

inductive book_step :: "nat \<Rightarrow> (slot \<rightharpoonup> fd) \<Rightarrow> book \<Rightarrow> book \<Rightarrow> bool" for N L where
  join: "s \<notin> dom B \<Longrightarrow> card (dom B) < N \<Longrightarrow> 0 < f \<Longrightarrow> f \<notin> F \<Longrightarrow>
    book_step N L (B, F, k) (B(s \<mapsto> f), insert f F, k + 1)"
| lost: "0 \<notin> F \<Longrightarrow> book_step N L (B, F, k) (B, insert 0 F, k)"
| leave: "B s = Some f \<Longrightarrow> s \<notin> dom L \<Longrightarrow> book_step N L (B, F, k) (B(s := None), F - {f}, k - 1)"

inductive_simps book_step_simps: "book_step N L (B, F, k) b"

abbreviation book_steps :: "nat \<Rightarrow> (slot \<rightharpoonup> fd) \<Rightarrow> book \<Rightarrow> book \<Rightarrow> bool" where
  "book_steps N L \<equiv> (book_step N L)\<^sup>*\<^sup>*"

text \<open>What every such history keeps: no two slots hold the same descriptor, and all are open.\<close>

definition book_ok :: "book \<Rightarrow> bool" where
  "book_ok = (\<lambda>(B, F, k). (\<forall>s f. B s = Some f \<longrightarrow> f \<in> F \<and> (\<forall>t. B t = Some f \<longrightarrow> t = s)))"

lemma book_step_ok: "book_step N L b b' \<Longrightarrow> book_ok b \<Longrightarrow> book_ok b'"
proof (induction rule: book_step.induct)
  case (join s B f F k)
  then have "B t \<noteq> Some f" for t by (auto simp: book_ok_def)
  with join show ?case by (auto simp: book_ok_def)
next
  case (leave B s f F k)
  then have "f' \<in> F \<and> f' \<noteq> f" if "B t = Some f'" "t \<noteq> s" for t f'
    using that unfolding book_ok_def by blast
  moreover have "\<forall>s f. B s = Some f \<longrightarrow> (\<forall>t. B t = Some f \<longrightarrow> t = s)"
    using leave.prems unfolding book_ok_def by blast
  ultimately show ?case by (auto simp: book_ok_def)
qed (auto simp: book_ok_def)

lemma book_steps_ok: "book_steps N L b b' \<Longrightarrow> book_ok b \<Longrightarrow> book_ok b'"
  by (induction rule: rtranclp_induct) (auto intro: book_step_ok)

text \<open>The book of the server: the abstraction function.\<close>

definition pool_fds :: "connection object_pool \<Rightarrow> slot \<rightharpoonup> fd" where
  "pool_fds pool s = map_option (\<lambda>x. bs_fd (conn_socket x)) (pool_objects pool s)"

lemma dom_pool_fds [simp]: "dom (pool_fds pool) = dom (pool_objects pool)"
  by (auto simp: pool_fds_def)

definition server_book :: "('w \<Rightarrow> fd set) \<Rightarrow> ('w \<Rightarrow> int) \<Rightarrow> run_state \<Rightarrow> 'w \<Rightarrow> book" where
  "server_book opened clients st w = (pool_fds (rs_pool st), opened w, clients w)"

lemma same_book:
  "pool_fds (rs_pool st') = pool_fds (rs_pool st) \<Longrightarrow> same_env opened clients w w' \<Longrightarrow>
   server_book opened clients st' w' = server_book opened clients st w"
  by (simp add: server_book_def same_env_def)

abbreviation served ::
  "(slot \<rightharpoonup> fd) \<Rightarrow> ('w \<Rightarrow> fd set) \<Rightarrow> ('w \<Rightarrow> int) \<Rightarrow> run_state \<times> 'w \<Rightarrow> run_state \<times> 'w \<Rightarrow> bool" where
  "served L opened clients a b \<equiv> book_steps (pool_size (rs_pool (fst a))) L
     (server_book opened clients (fst a) (snd a)) (server_book opened clients (fst b) (snd b))"

subsection \<open>Invariant\<close>

text \<open>
  The pool, the listener and the application agree: every live slot is registered, for
  writing exactly while its connection has a response to write; the listening socket is
  registered for accepting; the registered descriptors are open; the application counts as
  many clients as there are live slots. The slots of \<open>L\<close> are left over from earlier runs of
  the same server: they stay live with their descriptors open, and nobody watches them.
\<close>

definition leftovers_kept ::
  "(slot \<rightharpoonup> fd) \<Rightarrow> ('w \<Rightarrow> fd set) \<Rightarrow> run_state \<Rightarrow> 'w \<Rightarrow> bool" where
  "leftovers_kept L opened st w \<longleftrightarrow> L \<subseteq>\<^sub>m pool_fds (rs_pool st)
     \<and> ran L \<subseteq> opened w - fst ` set (ml_handle (rs_listener st))"

lemma leftovers_dom: "leftovers_kept L opened st w \<Longrightarrow> dom L \<subseteq> dom (pool_objects (rs_pool st))"
  using map_le_implies_dom_le by (fastforce simp: leftovers_kept_def)

text \<open>
  A step keeps the leftovers when it replaces no connection of theirs and closes or registers
  none of their descriptors.
\<close>

lemma leftovers_step:
  assumes "leftovers_kept L opened st w"
    and "\<And>s. s \<in> dom L \<Longrightarrow> pool_fds (rs_pool st') s = pool_fds (rs_pool st) s"
    and "opened w - opened w' \<subseteq> F" and "F \<inter> ran L = {}"
    and "fst ` set (ml_handle (rs_listener st')) \<inter> opened w \<subseteq> fst ` set (ml_handle (rs_listener st))"
  shows "leftovers_kept L opened st' w'"
proof -
  have "L \<subseteq>\<^sub>m pool_fds (rs_pool st')" using assms(1,2) by (simp add: leftovers_kept_def map_le_def)
  moreover have "ran L \<subseteq> opened w - fst ` set (ml_handle (rs_listener st))"
    using assms(1) by (simp add: leftovers_kept_def)
  then have "ran L \<subseteq> opened w' - fst ` set (ml_handle (rs_listener st'))" using assms(3-5) by blast
  ultimately show ?thesis by (simp add: leftovers_kept_def)
qed

definition registrations :: "(slot \<rightharpoonup> fd) \<Rightarrow> run_state \<Rightarrow> server_ctx \<rightharpoonup> events" where
  "registrations L st c =
     (case c of ServerCtx \<Rightarrow> Some POLLIN
      | Conn s \<Rightarrow> if s \<in> dom L then None
                  else map_option (\<lambda>x. if conn_state x = WRITING_RESPONSE then POLLOUT else POLLIN)
                         (pool_objects (rs_pool st) s))"

definition server_wf ::
  "(slot \<rightharpoonup> fd) \<Rightarrow> base_socket \<Rightarrow> ('w \<Rightarrow> fd set) \<Rightarrow> ('w \<Rightarrow> int) \<Rightarrow> run_state \<Rightarrow> 'w \<Rightarrow> bool" where
  "server_wf L psock opened clients st w \<longleftrightarrow>
     pool_wf (rs_pool st) \<and> leftovers_kept L opened st w
     \<and> listener_wf (heap_of st) (rs_listener st)
     \<and> interest (rs_listener st) = registrations L st
     \<and> ml_server (rs_listener st) = bs_fd psock \<and> ec_fd (rs_server st) = bs_fd psock
     \<and> (\<forall>s x. pool_objects (rs_pool st) s = Some x \<longrightarrow> ec_fd (conn_ctx x) = bs_fd (conn_socket x))
     \<and> fst ` set (ml_handle (rs_listener st)) \<subseteq> opened w
     \<and> clients w = int (card (dom (pool_objects (rs_pool st))))"

text \<open>
  The contexts the server may be handed: its own and those of the connections it has
  accepted in this run and not disconnected.
\<close>

definition live_ctx :: "(slot \<rightharpoonup> fd) \<Rightarrow> run_state \<Rightarrow> server_ctx set" where
  "live_ctx L st = insert ServerCtx (Conn ` (dom (pool_objects (rs_pool st)) - dom L))"

lemma dom_registrations: "dom (registrations L st) = live_ctx L st"
proof (rule set_eqI)
  fix c
  have "Conn s \<in> Conn ` A \<longleftrightarrow> s \<in> A" for s A by auto
  then show "c \<in> dom (registrations L st) \<longleftrightarrow> c \<in> live_ctx L st"
    by (cases c) (simp_all add: registrations_def live_ctx_def domIff)
qed

lemma set_connection_simps [simp]:
  "rs_server (set_connection s x st) = rs_server st"
  "rs_listener (set_connection s x st) = rs_listener st"
  by (simp_all add: set_connection_def)

lemma listener_only [simp]:
  "heap_of (st\<lparr>rs_listener := l\<rparr>) = heap_of st"
  "registrations L (st\<lparr>rs_listener := l\<rparr>) = registrations L st"
  "live_ctx L (st\<lparr>rs_listener := l\<rparr>) = live_ctx L st"
  by (auto simp: heap_of_def registrations_def live_ctx_def fun_eq_iff split: server_ctx.split)

lemma contexts_live:
  "listener_wf (heap_of st) (rs_listener st) \<Longrightarrow> interest (rs_listener st) = registrations L st \<Longrightarrow>
   set (ml_contexts (rs_listener st)) = live_ctx L st"
  using dom_interest dom_registrations by metis

lemma heap_of_simps [simp]:
  "heap_of st ServerCtx = Some (rs_server st)"
  "heap_of st (Conn s) = map_option conn_ctx (pool_objects (rs_pool st) s)"
  by (simp_all add: heap_of_def)

lemma server_wf_env:
  "server_wf L psock opened clients st w \<Longrightarrow> same_env opened clients w w' \<Longrightarrow>
   server_wf L psock opened clients st w'"
  by (simp add: server_wf_def same_env_def leftovers_kept_def)

lemma listener_wf_fd:
  "listener_wf h l \<Longrightarrow> c \<in> set (ml_contexts l) \<Longrightarrow> ec_fd (the (h c)) \<in> fst ` set (ml_handle l)"
  unfolding listener_wf_def using in_step_fds [of h "ml_contexts l" "ml_handle l"]
  by (metis image_eqI list.set_map)

lemma listener_wf_inj:
  assumes "listener_wf h l" and "c \<in> set (ml_contexts l)" and "d \<in> set (ml_contexts l)"
    and "ec_fd (the (h c)) = ec_fd (the (h d))"
  shows "c = d"
proof -
  have "map fst (ml_handle l) = map (\<lambda>c. ec_fd (the (h c))) (ml_contexts l)" "distinct (map fst (ml_handle l))"
    using assms(1) in_step_fds by (auto simp: listener_wf_def in_step_def)
  then have "inj_on (\<lambda>c. ec_fd (the (h c))) (set (ml_contexts l))" by (metis distinct_map)
  then show ?thesis using assms(2-4) by (auto dest: inj_onD)
qed

text \<open>A client joins: its connection is put into a free slot and its descriptor registered.\<close>

lemma joined_wf:
  assumes wf: "server_wf L psock opened clients st w"
    and acq: "pool_acquire x (rs_pool st) = Some (s, pool)"
    and x: "bs_fd (conn_socket x) = r" "ec_fd (conn_ctx x) = r" "conn_state x = READING_HEADER"
    and env: "0 < r" "r \<notin> opened w" "opened w' = insert r (opened w)" "clients w' = clients w + 1"
  shows "\<exists>l. addEvent (heap_of (st\<lparr>rs_pool := pool\<rparr>)) (Conn s) READ (rs_listener st) = Inr l
    \<and> server_wf L psock opened clients (st\<lparr>rs_pool := pool, rs_listener := l\<rparr>) w'
    \<and> live_ctx L st \<subseteq> live_ctx L (st\<lparr>rs_pool := pool, rs_listener := l\<rparr>)
    \<and> pool_size pool = pool_size (rs_pool st)
    \<and> served L opened clients (st, w) (st\<lparr>rs_pool := pool, rs_listener := l\<rparr>, w')"
proof -
  let ?st = "st\<lparr>rs_pool := pool\<rparr>" and ?l = "rs_listener st"
  have pw: "pool_wf (rs_pool st)" and lw: "listener_wf (heap_of st) ?l"
    and int: "interest ?l = registrations L st"
    using wf by (simp_all add: server_wf_def)
  note law = op.acquire_law [OF pw acq]
  have fresh: "s \<notin> dom L" using wf law leftovers_dom by (fastforce simp: server_wf_def)
  have notin: "interest ?l (Conn s) = None" using law int by (simp add: registrations_def)
  have "Conn s \<notin> set (ml_contexts ?l)" using dom_interest [OF lw] notin by auto
  moreover have "heap_of ?st c = heap_of st c" if "c \<noteq> Conn s" for c
    using law that by (cases c) simp_all
  ultimately have "listener_wf (heap_of ?st) ?l" by (intro listener_wf_cong [OF lw]) metis
  moreover have "r \<notin> fst ` set (ml_handle ?l)" using wf env(2) by (auto simp: server_wf_def)
  moreover have "map_option ec_fd (heap_of ?st (Conn s)) = Some r" using law x by simp
  ultimately obtain l where l: "addEvent (heap_of ?st) (Conn s) READ ?l = Inr l"
      "listener_wf (heap_of ?st) l" "interest l = (interest ?l)(Conn s \<mapsto> POLLIN)"
      "fst ` set (ml_handle l) = insert r (fst ` set (ml_handle ?l))" "ml_server l = ml_server ?l"
    using reg.add_law [of "heap_of ?st" ?l "Conn s" r READ POLLIN] notin by auto
  have regs: "(registrations L st)(Conn s \<mapsto> POLLIN) = registrations L ?st"
    using law fresh x by (auto simp: registrations_def fun_eq_iff split: server_ctx.split)
  have "leftovers_kept L opened (?st\<lparr>rs_listener := l\<rparr>) w'"
    by (rule leftovers_step [of L opened st w _ _ "{}"])
      (use wf law l env fresh in \<open>auto simp: server_wf_def pool_fds_def\<close>)
  then have "server_wf L psock opened clients (?st\<lparr>rs_listener := l\<rparr>) w'"
    using wf law l env regs int op.acquire_count [OF pw acq] x by (auto simp: server_wf_def)
  moreover have "served L opened clients (st, w) (?st\<lparr>rs_listener := l\<rparr>, w')"
  proof -
    have "pool_fds pool = (pool_fds (rs_pool st))(s \<mapsto> r)" using law x by (auto simp: pool_fds_def)
    moreover have "card (dom (pool_objects (rs_pool st))) < pool_size (rs_pool st)"
      by (rule pool_acquire_room [OF pw acq])
    moreover have "s \<notin> dom (pool_fds (rs_pool st))" using law by (simp add: domIff)
    ultimately show ?thesis
      using env by (simp add: server_book_def r_into_rtranclp book_step.join)
  qed
  ultimately show ?thesis using law l(1) by (auto simp: live_ctx_def)
qed

lemma handle_accept_wf:
  assumes os: "server_os os opened clients" and h: "server_handler h opened clients"
    and wf: "server_wf L psock opened clients st w"
  shows "case handle_accept os h cfg psock st w of
      Inl e \<Rightarrow> e = NullDeref \<and> card (dom (pool_objects (rs_pool st))) = pool_size (rs_pool st)
    | Inr (st', w') \<Rightarrow> server_wf L psock opened clients st' w' \<and> live_ctx L st \<subseteq> live_ctx L st'
        \<and> pool_size (rs_pool st') = pool_size (rs_pool st) \<and> served L opened clients (st, w) (st', w')"
proof -
  obtain r a w1 where acc: "os_accept os (bs_fd psock) w = ((r, a), w1)" by (metis prod.exhaust)
  from os acc have r: "- 1 \<le> r" "r < 2 ^ 31" "clients w1 = clients w"
      "if 0 \<le> r then r \<notin> opened w \<and> opened w1 = insert r (opened w) else opened w1 = opened w"
    unfolding server_os_def by blast+
  have i32r: "i32 r = r" using r(1,2) by (intro i32_small) simp_all
  obtain sock w2 where new: "ServerActiveSocket_new os r a w1 = (sock, w2)" by fastforce
  have fd: "bs_fd sock = r" and ok: "sr_code (bs_result sock) = SUCCESS \<longleftrightarrow> 0 < r"
    using new by (auto simp: ServerActiveSocket_new_def Let_def result_simps split: if_splits)
  have "same_env opened clients w1 w2"
    using new os by (auto simp: ServerActiveSocket_new_def setNonBlockingMode_def server_os_def Let_def
        split: if_splits)
  then have w2: "opened w2 = opened w1" "clients w2 = clients w" using r(3) by (simp_all add: same_env_def)
  have pacc: "PassiveSocket_accept os psock w = (sock, w2)"
    by (simp add: PassiveSocket_accept_def acc i32r new)
  let ?x = "SocketConnection_new sock h (cfg_pdu_size cfg)"
  show ?thesis
  proof (cases "0 < r")
    case False
    have "opened w \<subseteq> opened w2" using w2 r(4) by (auto split: if_splits)
    then have "server_wf L psock opened clients st w2"
      using wf w2 leftovers_step [of L opened st w st w2 "{}"] by (auto simp: server_wf_def)
    moreover have "served L opened clients (st, w) (st, w2)"
      using False w2 r(4) by (cases "r = 0") (auto simp: server_book_def intro!: r_into_rtranclp book_step.lost)
    ultimately show ?thesis using False ok pacc by (simp add: handle_accept_def)
  next
    case pos: True
    show ?thesis
    proof (cases "pool_acquire ?x (rs_pool st)")
      case None
      have "pool_wf (rs_pool st)" using wf by (simp add: server_wf_def)
      from op.full_law [OF this] None show ?thesis using pos ok pacc by (simp add: handle_accept_def)
    next
      case (Some res)
      then obtain s pool where acq: "pool_acquire ?x (rs_pool st) = Some (s, pool)" by (cases res) auto
      have "opened (connectClient h ?x w2) = opened w2" "clients (connectClient h ?x w2) = clients w2 + 1"
        using h by (simp_all add: connectClient_def server_handler_def)
      then have "\<exists>l. addEvent (heap_of (st\<lparr>rs_pool := pool\<rparr>)) (Conn s) READ (rs_listener st) = Inr l
        \<and> server_wf L psock opened clients (st\<lparr>rs_pool := pool, rs_listener := l\<rparr>) (connectClient h ?x w2)
        \<and> live_ctx L st \<subseteq> live_ctx L (st\<lparr>rs_pool := pool, rs_listener := l\<rparr>)
        \<and> pool_size pool = pool_size (rs_pool st)
        \<and> served L opened clients (st, w) (st\<lparr>rs_pool := pool, rs_listener := l\<rparr>, connectClient h ?x w2)"
        by (intro joined_wf [OF wf acq, where r = r])
          (use fd r(4) pos w2 in \<open>auto simp: SocketConnection_new_def split: if_splits\<close>)
      with pos ok pacc acq show ?thesis by (auto simp: handle_accept_def Let_def)
    qed
  qed
qed

text \<open>A client leaves: its descriptor is closed and unregistered, its slot is free again.\<close>

lemma left_wf:
  assumes wf: "server_wf L psock opened clients st w"
    and x: "pool_objects (rs_pool st) s = Some x" and used: "s \<notin> dom L"
    and y: "conn_ctx y = conn_ctx x" and pool: "pool = pool_release s (pool_update s y (rs_pool st))"
    and env: "opened w' = opened w - {bs_fd (conn_socket x)}" "clients w' = clients w - 1"
  shows "\<exists>l. removeEvent (heap_of st) (Conn s) (rs_listener st) = Inr l
    \<and> server_wf L psock opened clients (st\<lparr>rs_listener := l, rs_pool := pool\<rparr>) w'
    \<and> live_ctx L st - {Conn s} \<subseteq> live_ctx L (st\<lparr>rs_listener := l, rs_pool := pool\<rparr>)
    \<and> pool_size pool = pool_size (rs_pool st)
    \<and> served L opened clients (st, w) (st\<lparr>rs_listener := l, rs_pool := pool\<rparr>, w')"
proof -
  let ?l = "rs_listener st" and ?f = "bs_fd (conn_socket x)"
  have pw: "pool_wf (rs_pool st)" and lw: "listener_wf (heap_of st) ?l"
    and int: "interest ?l = registrations L st" and f: "ec_fd (conn_ctx x) = ?f"
    using wf x by (auto simp: server_wf_def)
  have watched: "interest ?l (Conn s) \<noteq> None" using int x used by (simp add: registrations_def)
  then obtain l where l: "removeEvent (heap_of st) (Conn s) ?l = Inr l"
      "listener_wf (heap_of st) l" "interest l = (interest ?l)(Conn s := None)"
      "fst ` set (ml_handle l) = fst ` set (ml_handle ?l) - {?f}" "ml_server l = ml_server ?l"
    using reg.remove_law [OF lw, of "Conn s"] x f by auto
  have "pool_wf (pool_update s y (rs_pool st))" using pw x by (intro pool_update_wf) simp_all
  moreover have "pool_objects (pool_update s y (rs_pool st)) s \<noteq> None" by (simp add: pool_update_def)
  ultimately have law: "pool_wf pool" "pool_objects pool = (pool_objects (rs_pool st))(s := None)"
      "pool_size pool = pool_size (rs_pool st)"
    using op.release_law [of "pool_update s y (rs_pool st)" s] by (simp_all add: pool pool_update_def)
  have card: "int (card (dom (pool_objects (rs_pool st)) - {s})) = int (card (dom (pool_objects (rs_pool st)))) - 1"
  proof -
    have "s \<in> dom (pool_objects (rs_pool st))" using x by auto
    from card_Suc_Diff1 [OF op.finite_law [OF pw] this] show ?thesis by linarith
  qed
  have "Conn s \<notin> set (ml_contexts l)" using dom_interest [OF l(2)] l(3) by auto
  then have lw': "listener_wf (heap_of (st\<lparr>rs_listener := l, rs_pool := pool\<rparr>)) l"
    by (intro listener_wf_cong [OF l(2)])
      (use law in \<open>auto simp: heap_of_def split: server_ctx.split\<close>)
  have regs: "(registrations L st)(Conn s := None) = registrations L (st\<lparr>rs_listener := l, rs_pool := pool\<rparr>)"
    using law by (auto simp: registrations_def fun_eq_iff split: server_ctx.split)
  have "Conn s \<in> set (ml_contexts ?l)" using dom_interest [OF lw] watched by auto
  from listener_wf_fd [OF lw this] x f have "?f \<in> fst ` set (ml_handle ?l)" by simp
  moreover have keep: "leftovers_kept L opened st w" using wf by (simp add: server_wf_def)
  ultimately have "{?f} \<inter> ran L = {}" by (auto simp: leftovers_kept_def)
  then have "leftovers_kept L opened (st\<lparr>rs_listener := l, rs_pool := pool\<rparr>) w'"
    by (rule leftovers_step [OF keep, rotated 2])
      (use used law l(4) env(1) in \<open>auto simp: pool_fds_def\<close>)
  then have "server_wf L psock opened clients (st\<lparr>rs_listener := l, rs_pool := pool\<rparr>) w'"
    using wf law l env card lw' regs int by (auto simp: server_wf_def split: if_splits)
  moreover have "served L opened clients (st, w) (st\<lparr>rs_listener := l, rs_pool := pool\<rparr>, w')"
  proof -
    have "pool_fds pool = (pool_fds (rs_pool st))(s := None)" using law by (auto simp: pool_fds_def)
    with book_step.leave [of "pool_fds (rs_pool st)" s ?f L] used x env show ?thesis
      by (auto simp: server_book_def pool_fds_def)
  qed
  ultimately show ?thesis using l(1) law by (auto simp: live_ctx_def)
qed

lemma handle_disconnected_wf:
  assumes os: "server_os os opened clients" and h: "server_handler h opened clients"
    and wf: "server_wf L psock opened clients st w" and c: "c \<in> live_ctx L st"
  shows "case handle_disconnected os h c st w of
      Inl e \<Rightarrow> e = BadCast \<and> c = ServerCtx
    | Inr (st', w') \<Rightarrow> server_wf L psock opened clients st' w' \<and> live_ctx L st - {c} \<subseteq> live_ctx L st'
        \<and> pool_size (rs_pool st') = pool_size (rs_pool st) \<and> served L opened clients (st, w) (st', w')"
proof (cases c)
  case ServerCtx
  then show ?thesis by (simp add: handle_disconnected_def get_connection_def)
next
  case (Conn s)
  then obtain x where x: "pool_objects (rs_pool st) s = Some x" and used: "s \<notin> dom L"
    using c by (auto simp: live_ctx_def)
  let ?x = "x\<lparr>conn_socket := (conn_socket x)\<lparr>bs_fd := - 1\<rparr>\<rparr>"
  let ?w = "os_close os (bs_fd (conn_socket x))
      (h_disconnected h (ss_ip (conn_socket x)) (ss_port (conn_socket x)) w)"
  have disc: "disconnectClient os h x w = (?x, ?w)"
    by (simp add: disconnectClient_def ServerActiveSocket_close_def Let_def)
  have heap: "heap_of (set_connection s ?x st) = heap_of st"
    using x by (auto simp: fun_eq_iff heap_of_def set_connection_def pool_update_def split: server_ctx.split)
  have "opened ?w = opened w - {bs_fd (conn_socket x)}" "clients ?w = clients w - 1"
    using os h by (simp_all add: server_os_def server_handler_def)
  from left_wf [OF wf x used, of ?x, OF _ refl this] show ?thesis
    using Conn x disc heap
    by (auto simp: handle_disconnected_def get_connection_def set_connection_def Let_def)
qed

lemma handle_io_wf:
  assumes step: "\<And>x w. step_frame opened clients x w (step x w)"
    and wf: "server_wf L psock opened clients st w" and c: "c \<in> live_ctx L st"
  shows "case handle_io step c st w of
      Inl e \<Rightarrow> e = OutOfBounds \<or> e = BadCast \<and> c = ServerCtx
    | Inr (st', w') \<Rightarrow> server_wf L psock opened clients st' w' \<and> live_ctx L st' = live_ctx L st
        \<and> pool_size (rs_pool st') = pool_size (rs_pool st) \<and> served L opened clients (st, w) (st', w')"
proof (cases c)
  case ServerCtx
  then show ?thesis by (simp add: handle_io_def get_connection_def)
next
  case (Conn s)
  then obtain x where x: "pool_objects (rs_pool st) s = Some x" and used: "s \<notin> dom L"
    using c by (auto simp: live_ctx_def)
  show ?thesis
  proof (cases "step x w")
    case (Inl e)
    with step [of x w] Conn x show ?thesis by (simp add: handle_io_def get_connection_def step_frame_def)
  next
    case (Inr r)
    then obtain y want w' where y: "step x w = Inr (y, want, w')" by (cases r) auto
    with step [of x w] have fr: "conn_socket y = conn_socket x" "conn_ctx y = conn_ctx x"
        "same_env opened clients w w'"
        "want = (if (conn_state y = WRITING_RESPONSE) = (conn_state x = WRITING_RESPONSE) then None
                 else if conn_state y = WRITING_RESPONSE then Some WRITE else Some READ)"
      by (simp_all add: step_frame_def)
    let ?st = "set_connection s y st"
    have pw: "pool_wf (rs_pool st)" and lw: "listener_wf (heap_of st) (rs_listener st)"
      and int: "interest (rs_listener st) = registrations L st"
      using wf by (simp_all add: server_wf_def)
    have pw': "pool_wf (rs_pool ?st)"
      using pw x by (simp add: set_connection_def pool_update_wf)
    have heap: "heap_of ?st = heap_of st"
      using x fr(2) by (auto simp: fun_eq_iff heap_of_def set_connection_def pool_update_def
          split: server_ctx.split)
    have objs: "pool_objects (rs_pool ?st) = (pool_objects (rs_pool st))(s \<mapsto> y)"
      "pool_size (rs_pool ?st) = pool_size (rs_pool st)" "rs_listener ?st = rs_listener st"
      "rs_server ?st = rs_server st"
      by (simp_all add: set_connection_def pool_update_def)
    have dom: "dom (pool_objects (rs_pool ?st)) = dom (pool_objects (rs_pool st))"
      using objs x by auto
    have regs: "registrations L ?st = (registrations L st)
        (c \<mapsto> (if conn_state y = WRITING_RESPONSE then POLLOUT else POLLIN))"
      using objs Conn used by (auto simp: registrations_def fun_eq_iff split: server_ctx.split)
    have "\<exists>l. register c want ?st = Inr (?st\<lparr>rs_listener := l\<rparr>) \<and> listener_wf (heap_of st) l
        \<and> interest l = registrations L ?st
        \<and> fst ` set (ml_handle l) = fst ` set (ml_handle (rs_listener st))
        \<and> ml_server l = ml_server (rs_listener st)"
    proof (cases want)
      case None
      then have "registrations L ?st = registrations L st"
        using fr(4) regs Conn x by (auto simp: registrations_def fun_eq_iff split: if_splits server_ctx.split)
      with None lw int objs show ?thesis by (auto simp: register_def intro!: exI [of _ "rs_listener st"])
    next
      case (Some ty)
      then have ty: "events_of ty = Some (if conn_state y = WRITING_RESPONSE then POLLOUT else POLLIN)"
          "ty \<noteq> ACCEPT" using fr(4) by (auto split: if_splits)
      have "interest (rs_listener st) c \<noteq> None" using int x Conn used by (simp add: registrations_def)
      from reg.modify_law [OF lw this ty] show ?thesis
        using Some objs int regs heap by (auto simp: register_def)
    qed
    then obtain l where l: "register c want ?st = Inr (?st\<lparr>rs_listener := l\<rparr>)" "listener_wf (heap_of st) l"
        "interest l = registrations L ?st"
        "fst ` set (ml_handle l) = fst ` set (ml_handle (rs_listener st))"
        "ml_server l = ml_server (rs_listener st)" by blast
    have "leftovers_kept L opened (?st\<lparr>rs_listener := l\<rparr>) w'"
      by (rule leftovers_step [of L opened st w _ _ "{}"])
        (use wf used l(4) objs(1) fr(3) in \<open>auto simp: server_wf_def pool_fds_def same_env_def\<close>)
    then have "server_wf L psock opened clients (?st\<lparr>rs_listener := l\<rparr>) w'"
      using wf l pw' objs dom fr x heap by (auto simp: server_wf_def same_env_def)
    moreover have "handle_io step c st w = Inr (?st\<lparr>rs_listener := l\<rparr>, w')"
      using Conn x y l(1) by (simp add: handle_io_def get_connection_def)
    moreover have "live_ctx L (?st\<lparr>rs_listener := l\<rparr>) = live_ctx L st" using dom by (simp add: live_ctx_def)
    moreover have "served L opened clients (st, w) (?st\<lparr>rs_listener := l\<rparr>, w')"
      using same_book [of "?st\<lparr>rs_listener := l\<rparr>" st opened clients w w'] fr x objs(1)
      by (auto simp: pool_fds_def fun_eq_iff)
    ultimately show ?thesis using objs by simp
  qed
qed

text \<open>
  What one event can do: a fault of one of three kinds, each with its cause, or a
  well-formed state in which at most the event's own context has gone.
\<close>

definition server_faults :: "fault set" where
  "server_faults = {NullDeref, BadCast, OutOfBounds}"

lemma handle_event_wf:
  assumes os: "server_os os opened clients" and h: "server_handler h opened clients"
    and wf: "server_wf L psock opened clients st w" and c: "c \<in> live_ctx L st"
  shows "case handle_event os h cfg psock c st w of
      Inl e \<Rightarrow> e \<in> server_faults
    | Inr (st', w') \<Rightarrow> server_wf L psock opened clients st' w' \<and> live_ctx L st - {c} \<subseteq> live_ctx L st'
        \<and> pool_size (rs_pool st') = pool_size (rs_pool st) \<and> served L opened clients (st, w) (st', w')"
proof -
  obtain ec where ec: "heap_of st c = Some ec" using c by (auto simp: live_ctx_def)
  have "case handle_accept os h cfg psock st w of
      Inl e \<Rightarrow> e \<in> server_faults
    | Inr (st', w') \<Rightarrow> server_wf L psock opened clients st' w' \<and> live_ctx L st - {c} \<subseteq> live_ctx L st'
        \<and> pool_size (rs_pool st') = pool_size (rs_pool st) \<and> served L opened clients (st, w) (st', w')"
    using handle_accept_wf [OF os h wf, of cfg] by (auto simp: server_faults_def split: sum.splits)
  moreover have "case handle_disconnected os h c st w of
      Inl e \<Rightarrow> e \<in> server_faults
    | Inr (st', w') \<Rightarrow> server_wf L psock opened clients st' w' \<and> live_ctx L st - {c} \<subseteq> live_ctx L st'
        \<and> pool_size (rs_pool st') = pool_size (rs_pool st) \<and> served L opened clients (st, w) (st', w')"
    using handle_disconnected_wf [OF os h wf c] by (auto simp: server_faults_def split: sum.splits)
  moreover have "case handle_io step c st w of
      Inl e \<Rightarrow> e \<in> server_faults
    | Inr (st', w') \<Rightarrow> server_wf L psock opened clients st' w' \<and> live_ctx L st - {c} \<subseteq> live_ctx L st'
        \<and> pool_size (rs_pool st') = pool_size (rs_pool st) \<and> served L opened clients (st, w) (st', w')"
    if "\<And>x w. step_frame opened clients x w (step x w)" for step
    using handle_io_wf [OF that wf c] by (auto simp: server_faults_def split: sum.splits)
  ultimately show ?thesis
    using wf ec read_event_frame [OF os h] write_event_frame [OF os]
    by (cases "ec_type ec") (simp_all add: handle_event_def)
qed

lemma dispatch_wf:
  assumes os: "server_os os opened clients" and h: "server_handler h opened clients"
  shows "server_wf L psock opened clients st w \<Longrightarrow> set cs \<subseteq> live_ctx L st \<Longrightarrow> distinct cs \<Longrightarrow>
    (case dispatch os h cfg psock cs st w of
      Inl e \<Rightarrow> e \<in> server_faults
    | Inr (st', w') \<Rightarrow> server_wf L psock opened clients st' w'
        \<and> pool_size (rs_pool st') = pool_size (rs_pool st) \<and> served L opened clients (st, w) (st', w'))"
proof (induction cs arbitrary: st w)
  case Nil
  then show ?case by simp
next
  case (Cons c cs)
  show ?case
  proof (cases "handle_event os h cfg psock c st w")
    case (Inl e)
    with handle_event_wf [OF os h Cons.prems(1), of c cfg] Cons.prems(2) show ?thesis by simp
  next
    case (Inr r)
    obtain st' w' where r: "r = (st', w')" by fastforce
    with Inr handle_event_wf [OF os h Cons.prems(1), of c cfg] Cons.prems(2)
    have st': "server_wf L psock opened clients st' w'" "live_ctx L st - {c} \<subseteq> live_ctx L st'"
        "pool_size (rs_pool st') = pool_size (rs_pool st)" "served L opened clients (st, w) (st', w')"
      by simp_all
    have "set cs \<subseteq> live_ctx L st'" using st'(2) Cons.prems(2,3) by auto
    from Cons.IH [OF st'(1) this] Cons.prems(3) Inr r st'(3,4) show ?thesis
      by (auto split: sum.splits intro: rtranclp_trans)
  qed
qed

lemma store_heap_wf:
  assumes "server_wf L psock opened clients st w" and "same_fds (heap_of st) h"
  shows "server_wf L psock opened clients (store_heap h st) w \<and> live_ctx L (store_heap h st) = live_ctx L st
    \<and> pool_size (rs_pool (store_heap h st)) = pool_size (rs_pool st)
    \<and> pool_fds (rs_pool (store_heap h st)) = pool_fds (rs_pool st)"
proof -
  have server: "ec_fd (the (h ServerCtx)) = ec_fd (rs_server st)"
    using same_fds_Some [OF assms(2), of ServerCtx] by auto
  have conn: "ec_fd (the (h (Conn s))) = ec_fd (conn_ctx x)" if "pool_objects (rs_pool st) s = Some x" for s x
    using same_fds_Some [OF assms(2), of "Conn s"] that by auto
  have dom: "dom (pool_objects (rs_pool (store_heap h st))) = dom (pool_objects (rs_pool st))"
    by (auto simp: store_heap_def)
  have "map_option ec_fd (heap_of (store_heap h st) c) = map_option ec_fd (heap_of st c)" for c
  proof (cases c)
    case ServerCtx
    then show ?thesis using server by (simp add: store_heap_def)
  next
    case (Conn s)
    then show ?thesis using conn by (cases "pool_objects (rs_pool st) s") (simp_all add: store_heap_def)
  qed
  then have "same_fds (heap_of st) (heap_of (store_heap h st))" by (simp add: same_fds_def)
  moreover have "registrations L (store_heap h st) = registrations L st"
    by (auto simp: registrations_def store_heap_def option.map_comp fun_eq_iff comp_def
        split: server_ctx.split)
  moreover have "leftovers_kept L opened (store_heap h st) w"
    by (rule leftovers_step [of L opened st w _ _ "{}"])
      (use assms(1) in \<open>auto simp: server_wf_def pool_fds_def store_heap_def option.map_comp comp_def\<close>)
  ultimately show ?thesis
    using assms(1) server conn dom listener_wf_same_fds [of "heap_of st" "heap_of (store_heap h st)"]
    by (auto simp: server_wf_def pool_wf_def live_ctx_def store_heap_def pool_fds_def fun_eq_iff
        option.map_comp comp_def)
qed

lemma run_iteration_wf:
  assumes os: "server_os os opened clients" and h: "server_handler h opened clients"
    and wf: "server_wf L psock opened clients st w"
  shows "case run_iteration os h cfg psock st w of
      Inl e \<Rightarrow> e \<in> server_faults
    | Inr (go, st', w') \<Rightarrow> server_wf L psock opened clients st' w'
        \<and> pool_size (rs_pool st') = pool_size (rs_pool st) \<and> served L opened clients (st, w) (st', w')"
proof -
  let ?l = "rs_listener st" and ?h = "heap_of st" and ?t = "cfg_read_timeout cfg"
  have lw: "listener_wf ?h ?l" and int: "interest ?l = registrations L st" using wf by (simp_all add: server_wf_def)
  have pk: "poll_ok os" using os by (simp add: server_os_def)
  obtain ret revs w1 where poll: "os_poll os (ml_handle ?l) ?t w = ((ret, revs), w1)" by (metis prod.exhaust)
  have env: "same_env opened clients w w1" using os poll unfolding server_os_def by (metis snd_conv)
  show ?thesis
  proof (cases "0 < ret")
    case False
    then have wait: "SocketMultiEventListener_wait os ?l ?t ?h w
        = Inr (mkCode (if ret = 0 then SOCKET_TIMEOUT else SOCKET_EVENT_ERROR), [], ?h, w1)"
      using wait_wf(1) [OF lw pk poll] by simp
    from store_heap_wf [OF server_wf_env [OF wf env], of ?h] show ?thesis
      using same_book [of "store_heap ?h st" st opened clients w w1] env
      by (simp add: run_iteration_def wait)
  next
    case True
    from wait_wf(2) [OF lw pk poll True] obtain hp where
        wait: "SocketMultiEventListener_wait os ?l ?t ?h w
          = Inr (mkCode SUCCESS, reported (ml_contexts ?l) revs, hp, w1)"
      and fds: "same_fds ?h hp" by blast
    note st = store_heap_wf [OF server_wf_env [OF wf env] fds]
    have "set (reported (ml_contexts ?l) revs) \<subseteq> live_ctx L (store_heap hp st)"
      using set_reported [of "ml_contexts ?l" revs] contexts_live [OF lw int] st by simp
    moreover have "distinct (reported (ml_contexts ?l) revs)"
      using lw by (simp add: listener_wf_def in_step_def distinct_reported)
    moreover have "server_wf L psock opened clients (store_heap hp st) w1" using st by simp
    ultimately have "case dispatch os h cfg psock (reported (ml_contexts ?l) revs) (store_heap hp st) w1 of
        Inl e \<Rightarrow> e \<in> server_faults
      | Inr (st', w') \<Rightarrow> server_wf L psock opened clients st' w'
          \<and> pool_size (rs_pool st') = pool_size (rs_pool (store_heap hp st))
          \<and> served L opened clients (store_heap hp st, w1) (st', w')"
      using dispatch_wf [OF os h] by blast
    with st same_book [of "store_heap hp st" st opened clients w w1] env show ?thesis
      by (auto simp: run_iteration_def wait split: sum.splits)
  qed
qed

lemma run_loop_wf:
  assumes os: "server_os os opened clients" and h: "server_handler h opened clients"
  shows "server_wf L psock opened clients st w \<Longrightarrow>
    (case run_loop n os h cfg psock st w of
      Inl e \<Rightarrow> e \<in> server_faults
    | Inr (st', w') \<Rightarrow> server_wf L psock opened clients st' w'
        \<and> pool_size (rs_pool st') = pool_size (rs_pool st) \<and> served L opened clients (st, w) (st', w'))"
proof (induction n arbitrary: st w)
  case 0
  then show ?case by simp
next
  case (Suc n)
  note it = run_iteration_wf [OF os h Suc.prems, of cfg]
  show ?case
  proof (cases "run_iteration os h cfg psock st w")
    case (Inl e)
    with it show ?thesis by simp
  next
    case (Inr r)
    obtain go st' w' where r: "r = (go, st', w')" by (metis prod.exhaust)
    with Inr it have st': "server_wf L psock opened clients st' w'"
        "pool_size (rs_pool st') = pool_size (rs_pool st)" "served L opened clients (st, w) (st', w')"
      by simp_all
    with Suc.IH [OF st'(1)] Inr r show ?thesis by (auto split: sum.splits intro: rtranclp_trans)
  qed
qed

text \<open>
  Between two runs: the pool is in order, whatever connections are left over in it, and the
  descriptor of each is open.
\<close>

definition pool_ready :: "connection object_pool \<Rightarrow> fd set \<Rightarrow> bool" where
  "pool_ready pool F \<longleftrightarrow> pool_wf pool
     \<and> (\<forall>s x. pool_objects pool s = Some x \<longrightarrow> ec_fd (conn_ctx x) = bs_fd (conn_socket x))
     \<and> ran (pool_fds pool) \<subseteq> F"

lemma pool_fds_new [simp]: "pool_fds (ObjectPool_new n) = Map.empty"
  by (simp add: pool_fds_def ObjectPool_new_def fun_eq_iff)

lemma pool_ready_new: "pool_ready (ObjectPool_new n) F" "dom (pool_objects (ObjectPool_new n)) = {}"
  by (simp_all add: pool_ready_def pool_wf_new) (simp_all add: ObjectPool_new_def)

text \<open>When the thread ends, every live connection holds a descriptor other than the listening one.\<close>

lemma server_wf_ready:
  assumes wf: "server_wf L psock opened clients st w"
  shows "pool_ready (rs_pool st) (opened w - {bs_fd psock})" and "L \<subseteq>\<^sub>m pool_fds (rs_pool st)"
proof -
  let ?l = "rs_listener st"
  have lw: "listener_wf (heap_of st) ?l" and int: "interest ?l = registrations L st"
    and keep: "leftovers_kept L opened st w" and fds: "fst ` set (ml_handle ?l) \<subseteq> opened w"
    and srv: "ec_fd (rs_server st) = bs_fd psock"
    using wf by (simp_all add: server_wf_def)
  show "L \<subseteq>\<^sub>m pool_fds (rs_pool st)" using keep by (simp add: leftovers_kept_def)
  have ctx: "set (ml_contexts ?l) = live_ctx L st" using contexts_live [OF lw int] .
  then have listening: "bs_fd psock \<in> fst ` set (ml_handle ?l)"
    using listener_wf_fd [OF lw, of ServerCtx] srv by (simp add: live_ctx_def)
  have "bs_fd (conn_socket x) \<in> opened w - {bs_fd psock}" if x: "pool_objects (rs_pool st) s = Some x" for s x
  proof (cases "s \<in> dom L")
    case True
    then have "L s = Some (bs_fd (conn_socket x))"
      using keep x by (auto simp: leftovers_kept_def map_le_def pool_fds_def)
    then have "bs_fd (conn_socket x) \<in> ran L" by (rule ranI)
    then have "bs_fd (conn_socket x) \<in> opened w - fst ` set (ml_handle ?l)"
      using keep unfolding leftovers_kept_def by (elim conjE) (rule subsetD)
    then show ?thesis using listening by (metis Diff_iff singletonD)
  next
    case False
    then have c: "Conn s \<in> set (ml_contexts ?l)" using x ctx by (auto simp: live_ctx_def)
    have f: "ec_fd (the (heap_of st (Conn s))) = bs_fd (conn_socket x)" using wf x by (simp add: server_wf_def)
    have "ServerCtx \<in> set (ml_contexts ?l)" using ctx by (simp add: live_ctx_def)
    from listener_wf_inj [OF lw c this] f srv have "bs_fd (conn_socket x) \<noteq> bs_fd psock" by auto
    with listener_wf_fd [OF lw c] f fds show ?thesis by auto
  qed
  with wf show "pool_ready (rs_pool st) (opened w - {bs_fd psock})"
    by (auto simp: server_wf_def pool_ready_def ran_def pool_fds_def)
qed

lemma run_start_wf:
  assumes "pool_ready pool (opened w - {bs_fd psock})" and "bs_fd psock \<in> opened w"
    and "clients w = int (card (dom (pool_objects pool)))"
  shows "\<exists>st. run_start psock pool = Inr st
    \<and> server_wf (pool_fds pool) psock opened clients st w
    \<and> pool_size (rs_pool st) = pool_size pool
    \<and> server_book opened clients st w = (pool_fds pool, opened w, clients w)"
proof -
  let ?st = "\<lparr>rs_server = \<lparr>ec_fd = bs_fd psock, ec_type = UNDEFINED\<rparr>, rs_pool = pool,
      rs_listener = multi_listener_new\<rparr>" and ?L = "pool_fds pool"
  have "interest (multi_listener_new :: server_ctx multi_listener) = Map.empty"
    by (simp add: interest_def multi_listener_new_def)
  then obtain l where l: "addEvent (heap_of ?st) ServerCtx ACCEPT multi_listener_new = Inr l"
      "listener_wf (heap_of ?st) l" "interest l = [ServerCtx \<mapsto> POLLIN]"
      "fst ` set (ml_handle l) = {bs_fd psock}" "ml_server l = bs_fd psock"
    using reg.add_law [OF listener_wf_new, of "heap_of ?st" ServerCtx "bs_fd psock" ACCEPT POLLIN]
    by (auto simp: multi_listener_new_def)
  have "registrations ?L ?st = [ServerCtx \<mapsto> POLLIN]"
    by (auto simp: registrations_def fun_eq_iff split: server_ctx.split)
  moreover have "leftovers_kept ?L opened (?st\<lparr>rs_listener := l\<rparr>) w"
    using assms(1) l(4) by (simp add: leftovers_kept_def pool_ready_def)
  ultimately have "server_wf ?L psock opened clients (?st\<lparr>rs_listener := l\<rparr>) w"
    using l assms listener_only(1) [where st = ?st and l = l]
      listener_only(2) [where L = ?L and st = ?st and l = l]
    by (simp add: server_wf_def pool_ready_def)
  then show ?thesis
    using l(1) by (auto simp: run_start_def SocketMultiEventListener_open_def server_book_def)
qed

text \<open>
  A whole run, from any such pool: the connections left over keep their slots and their
  descriptors, and the application has been told of as many clients as there are slots in use.
\<close>

lemma run_wf:
  assumes "server_os os opened clients" and "server_handler h opened clients"
    and "pool_ready pool (opened w - {bs_fd psock})" and "bs_fd psock \<in> opened w"
    and "clients w = int (card (dom (pool_objects pool)))"
  shows "case run n os h cfg psock pool w of
      Inl e \<Rightarrow> e \<in> server_faults
    | Inr (st, w') \<Rightarrow> server_wf (pool_fds pool) psock opened clients st w'
        \<and> pool_size (rs_pool st) = pool_size pool
        \<and> book_steps (pool_size pool) (pool_fds pool) (pool_fds pool, opened w, clients w)
             (server_book opened clients st w')"
proof -
  obtain st where st: "run_start psock pool = Inr st"
      "server_wf (pool_fds pool) psock opened clients st w" "pool_size (rs_pool st) = pool_size pool"
      "server_book opened clients st w = (pool_fds pool, opened w, clients w)"
    using run_start_wf [where pool = pool and psock = psock and opened = opened and w = w
        and clients = clients] assms(3-5) by blast
  with run_loop_wf [OF assms(1,2) st(2), of n cfg] show ?thesis
    by (auto simp: run_def split: sum.splits)
qed

subsection \<open>Properties\<close>

text \<open>
  C2. The request server keeps its books: after any number of iterations, whatever the
  kernel reports and the application answers, the listener watches exactly the listening
  socket and the live connections, a connection for writing exactly while it has a response
  to write; no registered descriptor is closed; the application has been told of exactly as
  many clients as there are live slots, at most 32. The thread can fail in three ways only:
  a null pointer, a bad cast, or an access out of bounds; it never touches a released
  connection.
\<close>

theorem request_server_invariant:
  assumes "server_os os opened clients" and "server_handler h opened clients"
    and "bs_fd psock \<in> opened w" and "clients w = 0"
  shows "case run n os h cfg psock (ObjectPool_new 32) w of
      Inl e \<Rightarrow> e \<in> {NullDeref, BadCast, OutOfBounds}
    | Inr (st, w') \<Rightarrow>
        set (ml_contexts (rs_listener st)) = insert ServerCtx (Conn ` dom (pool_objects (rs_pool st)))
        \<and> interest (rs_listener st) ServerCtx = Some POLLIN
        \<and> (\<forall>s x. pool_objects (rs_pool st) s = Some x \<longrightarrow> interest (rs_listener st) (Conn s) =
              Some (if conn_state x = WRITING_RESPONSE then POLLOUT else POLLIN))
        \<and> fst ` set (ml_handle (rs_listener st)) \<subseteq> opened w'
        \<and> clients w' = int (card (dom (pool_objects (rs_pool st)))) \<and> clients w' \<le> 32"
proof -
  note run = run_wf [OF assms(1,2) pool_ready_new(1) assms(3), of 32 n cfg]
  show ?thesis
  proof (cases "run n os h cfg psock (ObjectPool_new 32) w")
    case (Inl e)
    with run assms(4) show ?thesis by (simp add: pool_ready_new server_faults_def)
  next
    case (Inr r)
    obtain st w' where r: "r = (st, w')" by fastforce
    with Inr run assms(4) have wf: "server_wf Map.empty psock opened clients st w'"
      and size: "pool_size (rs_pool st) = 32"
      by (simp_all add: pool_ready_new) (simp add: ObjectPool_new_def)
    then have ctx: "set (ml_contexts (rs_listener st)) = live_ctx Map.empty st"
      by (simp add: server_wf_def contexts_live)
    have "card (dom (pool_objects (rs_pool st))) \<le> 32"
      using pool_counts(2) [of "rs_pool st"] wf size by (simp add: server_wf_def)
    with wf ctx Inr r show ?thesis
      by (auto simp: server_wf_def live_ctx_def registrations_def)
  qed
qed

text \<open>
  C3. The request server implements a book of clients: whatever its thread does in a run, seen
  through the map from slots to descriptors, is a sequence of clients joining (with a
  descriptor that was not open, while fewer than 32 are there) and clients leaving (their
  descriptor closed and the application told once). So no two connections ever share a
  descriptor and the descriptor of each is open.
\<close>

theorem request_server_refines:
  assumes "server_os os opened clients" and "server_handler h opened clients"
    and "bs_fd psock \<in> opened w" and "clients w = 0"
    and "run n os h cfg psock (ObjectPool_new 32) w = Inr (st, w')"
  shows "book_steps 32 Map.empty (Map.empty, opened w, 0) (server_book opened clients st w')
    \<and> (\<forall>s x. pool_objects (rs_pool st) s = Some x \<longrightarrow> bs_fd (conn_socket x) \<in> opened w'
        \<and> (\<forall>t y. pool_objects (rs_pool st) t = Some y \<and> bs_fd (conn_socket y) = bs_fd (conn_socket x)
             \<longrightarrow> t = s))"
proof -
  have steps: "book_steps 32 Map.empty (Map.empty, opened w, 0) (server_book opened clients st w')"
    using run_wf [OF assms(1,2) pool_ready_new(1) assms(3), of 32 n cfg] assms(4,5)
    by (simp add: pool_ready_new) (simp add: ObjectPool_new_def)
  have "book_ok (server_book opened clients st w')"
    by (rule book_steps_ok [OF steps]) (simp add: book_ok_def)
  then have "bs_fd (conn_socket x) \<in> opened w'
      \<and> (\<forall>t y. pool_objects (rs_pool st) t = Some y \<and> bs_fd (conn_socket y) = bs_fd (conn_socket x) \<longrightarrow> t = s)"
    if "pool_objects (rs_pool st) s = Some x" for s x
    using that unfolding book_ok_def server_book_def pool_fds_def by auto
  with steps show ?thesis by blast
qed

text \<open>
  The environment of the witnesses: the world is the set of open descriptors and the
  application's count; one client, descriptor 5, connects and stays silent.
\<close>

definition quiet_os :: "(fd set \<times> int) os" where
  "quiet_os = null_os\<lparr>
     os_accept := (\<lambda>s (F, k). if 5 \<in> F then ((- 1, \<lparr>sin_addr = 0, sin_port = 0\<rparr>), (F, k))
                    else ((5, \<lparr>sin_addr = 0, sin_port = 0\<rparr>), (insert 5 F, k))),
     os_close := (\<lambda>s (F, k). (F - {s}, k)),
     os_poll := (\<lambda>fds t w. ((1, map (\<lambda>p. if fst p = 3 then POLLIN else 0) fds), w))\<rparr>"

definition count_handler :: "(fd set \<times> int) handler" where
  "count_handler = \<lparr>
     h_header_size = 4,
     h_payload_size = (\<lambda>hdr w. (0, w)),
     h_mode = (\<lambda>hdr w. (FAST, w)),
     h_connected = (\<lambda>ip port (F, k). (F, k + 1)),
     h_disconnected = (\<lambda>ip port (F, k). (F, k - 1)),
     h_processed = (\<lambda>hdr p n w. (([], 0), w)),
     h_processed_without_response = (\<lambda>hdr p n w. w)\<rparr>"

definition server_cfg :: SocketConfiguration where
  "server_cfg = \<lparr>cfg_ip = ''h'' @ [NUL], cfg_port = ''80'' @ [NUL], cfg_pdu_size = 512,
     cfg_max_retries = 3, cfg_read_timeout = 10, cfg_write_timeout = 10,
     cfg_time_between_retries = 1, cfg_is_unix_domain = False\<rparr>"

definition server_tls :: "SocketTLSVersion list \<Rightarrow> SocketTLSServerConfiguration" where
  "server_tls vs = SocketTLSServerConfiguration_new vs [] [] None None None AUTH_MODE_NONE None"

definition listening_socket :: base_socket where
  "listening_socket = \<lparr>bs_result = mkCode SUCCESS, bs_fd = 3\<rparr>"

lemma quiet_env: "server_os quiet_os fst snd" "server_handler count_handler fst snd"
  by (auto simp: server_os_def server_handler_def quiet_os_def count_handler_def null_os_def
      same_env_def poll_ok_def split: if_splits)

theorem request_server_invariant_witness:
  "case run 2 quiet_os count_handler server_cfg listening_socket (ObjectPool_new 32) ({3}, 0) of
      Inl e \<Rightarrow> e \<in> {NullDeref, BadCast, OutOfBounds}
    | Inr (st, (F, k)) \<Rightarrow> k = int (card (dom (pool_objects (rs_pool st)))) \<and> k \<le> 32"
  using request_server_invariant [OF quiet_env, of listening_socket "({3}, 0)" 2 server_cfg]
  by (auto simp: listening_socket_def split: sum.splits)

text \<open>One iteration: the client connects (the calls of \<^verbatim>\<open>open\<close> do not matter).\<close>

lemma pool_32: "ObjectPool_new 32
   = \<lparr>pool_size = 32, pool_availables = 0 # map int [1..<32], pool_objects = Map.empty\<rparr>"
  by (simp add: ObjectPool_new_def upt_conv_Cons)

lemma first_run:
  "\<exists>st. run 1 (quiet_os\<lparr>os_socket := so, os_bind := bi, os_listen := li, os_getaddrinfo := ga\<rparr>)
         count_handler server_cfg listening_socket (ObjectPool_new 32) ({3}, 0)
       = Inr (st, ({3, 5}, 1))
     \<and> (\<exists>x. pool_objects (rs_pool st) 0 = Some x \<and> bs_fd (conn_socket x) = 5)"
  by (simp add: run_def run_start_def pool_32 SocketMultiEventListener_open_def multi_listener_new_def
      addEvent_def heap_of_def run_iteration_def SocketMultiEventListener_wait_def wait_snapshot_def
      listening_socket_def quiet_os_def null_os_def event_type_def has_event_def
      poll_consts handle_event_def store_heap_def handle_accept_def PassiveSocket_accept_def
      ServerActiveSocket_new_def setNonBlockingMode_def setNoDelay_def result_simps i32_small
      pool_acquire_def connectClient_def count_handler_def SocketConnection_new_def Let_def insert_commute)

theorem request_server_refines_witness:
  "\<exists>st. run 1 quiet_os count_handler server_cfg listening_socket (ObjectPool_new 32) ({3}, 0)
       = Inr (st, ({3, 5}, 1))
     \<and> book_steps 32 Map.empty (Map.empty, {3}, 0) (pool_fds (rs_pool st), {3, 5}, 1)"
proof -
  obtain st where run: "run 1 quiet_os count_handler server_cfg listening_socket (ObjectPool_new 32) ({3}, 0)
      = Inr (st, ({3, 5}, 1))"
    using first_run [where so = "os_socket quiet_os" and bi = "os_bind quiet_os"
        and li = "os_listen quiet_os" and ga = "os_getaddrinfo quiet_os"] by auto
  from request_server_refines [OF quiet_env _ _ run] run show ?thesis
    by (simp add: listening_socket_def server_book_def)
qed

text \<open>
  C30. The 33rd client brings the server down: with every slot of the pool taken, a
  successful accept makes it use the null pointer \<^verbatim>\<open>acquire\<close> returns.
\<close>

theorem exhausted_pool_null:
  assumes "server_wf L psock opened clients st w"
    and "card (dom (pool_objects (rs_pool st))) = pool_size (rs_pool st)"
    and "os_accept os (bs_fd psock) w = ((r, a), w1)" and "0 < r" and "r < 2 ^ 31"
  shows "handle_accept os h cfg psock st w = Inl NullDeref"
proof -
  have pw: "pool_wf (rs_pool st)" using assms(1) by (simp add: server_wf_def)
  have "i32 r = r" using assms(4,5) by (intro i32_small) simp_all
  moreover obtain sock w2 where "ServerActiveSocket_new os r a w1 = (sock, w2)" by fastforce
  moreover from this have "sr_code (bs_result sock) = SUCCESS"
    using assms(4) by (auto simp: ServerActiveSocket_new_def Let_def result_simps split: if_splits)
  ultimately show ?thesis
    using assms(2,3) op.full_law [OF pw] by (simp add: handle_accept_def PassiveSocket_accept_def)
qed

theorem exhausted_pool_null_witness:
  "\<exists>st. run_start listening_socket (ObjectPool_new 0) = Inr st
     \<and> handle_accept quiet_os count_handler server_cfg listening_socket st ({3}, 0) = Inl NullDeref"
proof -
  obtain st where st: "run_start listening_socket (ObjectPool_new 0) = Inr st"
      "server_wf Map.empty listening_socket fst snd st ({3}, 0)" "pool_size (rs_pool st) = 0"
    using run_start_wf [where pool = "ObjectPool_new 0" and psock = listening_socket and opened = fst
        and w = "({3}, 0)" and clients = snd]
    by (auto simp: listening_socket_def pool_ready_new) (simp add: ObjectPool_new_def)
  then have "card (dom (pool_objects (rs_pool st))) = pool_size (rs_pool st)"
    using pool_counts(2) [of "rs_pool st"] by (simp add: server_wf_def)
  from exhausted_pool_null [OF st(2) this, of quiet_os 5 "\<lparr>sin_addr = 0, sin_port = 0\<rparr>" "({3, 5}, 0)"] st(1)
  show ?thesis by (auto simp: quiet_os_def listening_socket_def insert_commute)
qed

text \<open>
  A failure of the listening socket brings the server down: the event is dispatched as
  the disconnection of a client and the server's own context is used as a connection.
\<close>

theorem listener_failure_bad_cast:
  assumes "heap_of st ServerCtx = Some ec" and "ec_type ec = DISCONNECTED"
  shows "dispatch os h cfg psock (ServerCtx # cs) st w = Inl BadCast"
  using assms by (simp add: handle_event_def handle_disconnected_def get_connection_def)

theorem listener_failure_bad_cast_witness:
  "dispatch null_os count_handler server_cfg listening_socket [ServerCtx]
     \<lparr>rs_server = \<lparr>ec_fd = 3, ec_type = event_type 3 3 POLLERR UNDEFINED\<rparr>, rs_pool = ObjectPool_new 32,
      rs_listener = multi_listener_new\<rparr> ({3}, 0) = Inl BadCast"
  by (rule listener_failure_bad_cast [where ec = "\<lparr>ec_fd = 3, ec_type = DISCONNECTED\<rparr>"])
    (simp_all add: event_type_def has_event_def poll_consts)

text \<open>
  C31. Opening a request server. On a running server nothing happens; with TLS versions
  configured it ends in the exception of the unimplemented TLS class. Otherwise the server runs
  afterwards exactly when the socket was created, its address reported \<open>SUCCESS\<close>, \<^verbatim>\<open>bind\<close> accepted it and
  \<^verbatim>\<open>listen\<close> succeeded; the first of these that fails is the last call made, and its error is
  the result.
\<close>

theorem request_server_open_outcome:
  assumes "c_str (cfg_ip (rq_cfg sv)) = Inr ip" and "c_str (cfg_port (rq_cfg sv)) = Inr port"
    and "os_socket os ux w = (k, w1)" and "ux = cfg_is_unix_domain (rq_cfg sv)" and "f = i32 k"
    and "SocketAddress_new os ip port True ux (setNonBlockingMode os f w1) = Inr (a, w2)"
    and "os_bind os f (sa_view a) (os_setsockopt os f (SO_REUSEADDR 1) w2) = (b, w3)"
    and "os_listen os f w3 = (l, w4)"
  shows "if rq_running sv
    then SocketRequestServerImpl_open os sv w = Inr (mkCode SOCKET_SERVER_ALREADY_RUNNING, sv, w)
    else if ts_valid (rq_tls sv) then SocketRequestServerImpl_open os sv w = Inl NotImplemented
    else (\<exists>r s. SocketRequestServerImpl_open os sv w
        = Inr (r, sv\<lparr>rq_socket := Some s, rq_running :=
              0 \<le> f \<and> sr_code (sa_result a) = SUCCESS \<and> 0 \<le> b \<and> 0 \<le> l\<rparr>,
            if f < 0 then w1 else if sr_code (sa_result a) \<noteq> SUCCESS then w2
            else if b < 0 then w3 else w4)
      \<and> bs_fd s = f
      \<and> sr_code r = (if f < 0 then sr_code (createResultFromSocketError (os_errno os w1))
          else if sr_code (sa_result a) \<noteq> SUCCESS then sr_code (sa_result a)
          else if b < 0 then sr_code (createResultFromSocketError (os_errno os w3))
          else if l < 0 then sr_code (createResultFromSocketError (os_errno os w4))
          else SUCCESS)
      \<and> (sr_code r = SUCCESS \<longleftrightarrow> 0 \<le> f \<and> sr_code (sa_result a) = SUCCESS \<and> 0 \<le> b \<and> 0 \<le> l))"
proof -
  have err: "sr_code (createResult e i) = sr_code (createResultFromSocketError e)"
      "sr_code (createResultFromSocketError e) \<noteq> SUCCESS" if "i < 0" for e i
    using that createResult_success_iff [of e i] by (simp_all add: createResult_def Let_def)
  define s where "s = \<lparr>bs_result = if f < 0 then createResult (os_errno os w1) f else mkCode SUCCESS, bs_fd = f\<rparr>"
  have new: "PassiveSocket_new os ux w = (s, if f < 0 then w1 else setNonBlockingMode os f w1)"
    using assms(3,5) by (simp add: PassiveSocket_new_def open_stream_socket_def s_def Let_def)
  have bind: "PassiveSocket_bind os s a w2 = (if b < 0 then createResult (os_errno os w3) b else mkCode SUCCESS, w3)"
    using assms(7) by (simp add: PassiveSocket_bind_def s_def)
  have listen: "PassiveSocket_listen os s w3 = (if l < 0 then createResult (os_errno os w4) l else mkCode SUCCESS, w4)"
    using assms(8) by (simp add: PassiveSocket_listen_def s_def)
  have s: "bs_fd s = f" "sr_code (bs_result s) = (if f < 0 then sr_code (createResultFromSocketError (os_errno os w1)) else SUCCESS)"
    by (simp_all add: s_def err)
  have idle: "\<not> rq_running sv \<Longrightarrow> sv\<lparr>rq_socket := z\<rparr> = sv\<lparr>rq_socket := z, rq_running := False\<rparr>" for z
    by (cases sv) simp
  show ?thesis
    using assms(1,2,6) new bind listen s err idle
    by (auto simp: SocketRequestServerImpl_open_def PassiveSocketContainer_new_def Let_def assms(4)
        not_less intro!: exI [of _ s])
qed

text \<open>The kernel of the witness opens the socket, resolves the address and refuses to bind it.\<close>

definition refusing_os :: "nat os" where
  "refusing_os = null_os\<lparr>os_socket := (\<lambda>u w. (5, w + 1)), os_bind := (\<lambda>s a w. (- 1, w + 1)),
     os_listen := (\<lambda>s w. (0, w + 1)), os_getaddrinfo := (\<lambda>ip port sv w. (Inr (replicate 16 0), w + 1)),
     os_errno := (\<lambda>w. EADDRINUSE)\<rparr>"

theorem request_server_open_outcome_witness:
  "\<exists>r sv'. SocketRequestServerImpl_open refusing_os (SocketRequestServerImpl_new server_cfg (server_tls [])) 0
      = Inr (r, sv', 3) \<and> \<not> rq_running sv' \<and> sr_code r \<noteq> SUCCESS"
proof -
  let ?sv = "SocketRequestServerImpl_new server_cfg (server_tls [])"
  have "cfg_ip (rq_cfg ?sv) = ''h'' @ [NUL]" "cfg_port (rq_cfg ?sv) = ''80'' @ [NUL]"
      "\<not> cfg_is_unix_domain (rq_cfg ?sv)" "\<not> rq_running ?sv" "\<not> ts_valid (rq_tls ?sv)"
    by (simp_all add: SocketRequestServerImpl_new_def server_cfg_def server_tls_def ts_valid_def
        SocketTLSServerConfiguration_new_def or_bits_def)
  moreover have "c_str (''h'' @ [NUL]) = Inr ''h''" "c_str (''80'' @ [NUL]) = Inr ''80''"
    by (simp_all add: c_str_def NUL_def)
  moreover obtain a where "SocketAddress_new refusing_os ''h'' ''80'' True False 1 = Inr (a, 2)"
      "sr_code (sa_result a) = SUCCESS"
    using write_zero_bytes [of "replicate 16 0" 512]
    by (simp add: SocketAddress_new_def refusing_os_def)
  ultimately show ?thesis
    using request_server_open_outcome [of ?sv "''h''" "''80''" refusing_os False 0 5 1 5 a 2 "- 1" 3 0 4]
    by (auto simp: refusing_os_def null_os_def setNonBlockingMode_def i32_small)
qed

text \<open>
  Closing a request server closes its listening socket only: the connections stay in
  the pool with their descriptors open, so each of them costs a slot of the next run.
\<close>

theorem request_server_close_leaks:
  assumes "rq_running sv" and "rq_socket sv = Some s"
  shows "\<exists>sv'. SocketRequestServerImpl_close os sv w
        = Inr (sv', os_close os (bs_fd s) (os_shutdown os (bs_fd s) w))
      \<and> rq_pool sv' = rq_pool sv \<and> \<not> rq_running sv'"
  using assms by (simp add: SocketRequestServerImpl_close_def PassiveSocket_close_def Let_def)

theorem request_server_close_leaks_witness:
  "\<exists>sv'. SocketRequestServerImpl_close quiet_os
       \<lparr>rq_cfg = server_cfg, rq_tls = server_tls [], rq_socket = Some listening_socket, rq_running = True,
        rq_pool = ObjectPool_new 32\<rparr>
       ({3, 5}, 1) = Inr (sv', ({5}, 1)) \<and> rq_pool sv' = ObjectPool_new 32"
  using request_server_close_leaks [of "\<lparr>rq_cfg = server_cfg, rq_tls = server_tls [],
      rq_socket = Some listening_socket, rq_running = True, rq_pool = ObjectPool_new 32\<rparr>" listening_socket quiet_os "({3, 5}, 1)"]
  by (auto simp: quiet_os_def null_os_def listening_socket_def)

end
