(* ===== verification/Request_Sessions.thy ===== *)
theory Request_Sessions
  imports Request_Server
begin

text \<open>
  The request server over several sessions: one \<^verbatim>\<open>SocketRequestServerImpl\<close> is opened, serves
  and is closed again and again. The pool of connections is a member of the object, so it
  outlives the thread; the listener is a local variable of the thread and starts empty.
\<close>

subsection \<open>Sessions\<close>

text \<open>
  One session: \<^verbatim>\<open>open\<close>; if the server runs, the thread it has started, for \<open>n\<close> tests of
  \<^verbatim>\<open>_is_running\<close>; then \<^verbatim>\<open>close\<close>, which joins the thread. After an \<^verbatim>\<open>open\<close> that failed the caller
  may close as well, and nothing happens.
\<close>

definition serve_session ::
  "nat \<Rightarrow> 'w os \<Rightarrow> 'w handler \<Rightarrow> request_server \<Rightarrow> 'w \<Rightarrow> (request_server \<times> 'w) result" where
  "serve_session n os h sv w =
     bindR (SocketRequestServerImpl_open os sv w) (\<lambda>(result, sv, w).
       if rq_running sv then
         (case rq_socket sv of None \<Rightarrow> Inl NullDeref
          | Some s \<Rightarrow> bindR (run n os h (rq_cfg sv) s (rq_pool sv) w) (\<lambda>(st, w).
              SocketRequestServerImpl_close os (sv\<lparr>rq_pool := rs_pool st\<rparr>) w))
       else SocketRequestServerImpl_close os sv w)"

fun serve_sessions ::
  "nat list \<Rightarrow> 'w os \<Rightarrow> 'w handler \<Rightarrow> request_server \<Rightarrow> 'w \<Rightarrow> (request_server \<times> 'w) result" where
  "serve_sessions [] os h sv w = Inr (sv, w)"
| "serve_sessions (n # ns) os h sv w =
     bindR (serve_session n os h sv w) (\<lambda>(sv, w). serve_sessions ns os h sv w)"

subsection \<open>The environment of opening and closing\<close>

text \<open>
  Beside what the thread relies on: \<^verbatim>\<open>socket\<close> returns a descriptor that was not open, and no
  other call of \<^verbatim>\<open>open\<close> and \<^verbatim>\<open>close\<close> opens or closes any, or talks to the application.
\<close>

definition listening_os :: "'w os \<Rightarrow> ('w \<Rightarrow> fd set) \<Rightarrow> ('w \<Rightarrow> int) \<Rightarrow> bool" where
  "listening_os os opened clients \<longleftrightarrow>
     (\<forall>u w r w'. os_socket os u w = (r, w') \<longrightarrow>
        - 1 \<le> r \<and> r < 2 ^ 31 \<and> clients w' = clients w
        \<and> (if 0 \<le> r then r \<notin> opened w \<and> opened w' = insert r (opened w) else opened w' = opened w))
     \<and> (\<forall>s opt w. same_env opened clients w (os_setsockopt os s opt w))
     \<and> (\<forall>s a w. same_env opened clients w (snd (os_bind os s a w)))
     \<and> (\<forall>s w. same_env opened clients w (snd (os_listen os s w)))
     \<and> (\<forall>ip port server w. same_env opened clients w (snd (os_getaddrinfo os ip port server w)))
     \<and> (\<forall>s w. same_env opened clients w (os_shutdown os s w))"

lemma passive_socket_env:
  assumes "server_os os opened clients" and l: "listening_os os opened clients"
    and new: "PassiveSocketContainer_new os tls u w = Inr (s, w')"
  shows "clients w' = clients w \<and> opened w \<subseteq> opened w'
    \<and> (sr_code (bs_result s) = SUCCESS \<longrightarrow> bs_fd s \<in> opened w' \<and> bs_fd s \<notin> opened w)"
proof -
  obtain r w1 where r: "os_socket os u w = (r, w1)" by fastforce
  with l have b: "- 1 \<le> r" "r < 2 ^ 31" "clients w1 = clients w"
      "if 0 \<le> r then r \<notin> opened w \<and> opened w1 = insert r (opened w) else opened w1 = opened w"
    unfolding listening_os_def by blast+
  have "i32 r = r" using b by (intro i32_small) simp_all
  moreover have "same_env opened clients w1 (os_setfl os r f w1)" for f
    using assms(1) by (simp add: server_os_def)
  ultimately show ?thesis
    using new r b
    by (auto simp: PassiveSocketContainer_new_def PassiveSocket_new_def open_stream_socket_def Let_def
        setNonBlockingMode_def same_env_def result_simps split: if_splits)
qed

lemma address_env:
  assumes "listening_os os opened clients"
  shows "case SocketAddress_new os ip port server u w of
      Inl e \<Rightarrow> e = OutOfBounds | Inr (a, w') \<Rightarrow> same_env opened clients w w'"
proof -
  obtain r w1 where g: "os_getaddrinfo os (if server then None else Some ip) port server w = (r, w1)"
    by fastforce
  then have "same_env opened clients w w1"
    using assms unfolding listening_os_def by (metis snd_conv)
  moreover have "case bindR (write_mem b 0 xs) (\<lambda>bytes. Inr (f bytes, w2)) of
      Inl e \<Rightarrow> e = OutOfBounds | Inr (a, w') \<Rightarrow> w' = w2" for b xs w2 and f :: "byte list \<Rightarrow> SocketAddress"
    by (cases "write_mem b 0 xs") (auto dest: write_mem_Inl)
  ultimately show ?thesis
    using g by (fastforce simp: SocketAddress_new_def Let_def split: sum.splits)
qed

lemma bind_listen_env:
  assumes "listening_os os opened clients"
  shows "PassiveSocket_bind os s a w = (r, w') \<Longrightarrow> same_env opened clients w w'"
    and "PassiveSocket_listen os s w = (r, w') \<Longrightarrow> same_env opened clients w w'"
  using assms unfolding listening_os_def PassiveSocket_bind_def PassiveSocket_listen_def
  by (auto simp: Let_def split: prod.splits if_splits) (metis same_env_trans snd_conv)+


lemma close_env:
  assumes "server_os os opened clients" and "listening_os os opened clients"
    and "PassiveSocket_close os s w = (s', w')"
  shows "opened w' = opened w - {bs_fd s} \<and> clients w' = clients w"
  using assms by (auto simp: PassiveSocket_close_def listening_os_def server_os_def same_env_def Let_def)

text \<open>
  What \<^verbatim>\<open>open\<close> leaves alone: the pool, the configuration, the application and every open
  descriptor. A server that runs afterwards listens on a descriptor that was not open before.
\<close>

lemma open_env:
  assumes os: "server_os os opened clients" and l: "listening_os os opened clients"
    and idle: "\<not> rq_running sv"
  shows "case SocketRequestServerImpl_open os sv w of
      Inl e \<Rightarrow> e \<in> {NotImplemented, OutOfBounds}
    | Inr (r, sv', w') \<Rightarrow> rq_pool sv' = rq_pool sv \<and> rq_cfg sv' = rq_cfg sv
        \<and> clients w' = clients w \<and> opened w \<subseteq> opened w'
        \<and> (rq_running sv' \<longrightarrow> (\<exists>s. rq_socket sv' = Some s \<and> bs_fd s \<in> opened w' \<and> bs_fd s \<notin> opened w))"
proof -
  let ?cfg = "rq_cfg sv" and ?ux = "cfg_is_unix_domain (rq_cfg sv)"
  note op = SocketRequestServerImpl_open_def Let_def
  show ?thesis
  proof (cases "PassiveSocketContainer_new os (ts_valid (rq_tls sv)) ?ux w")
    case (Inl e)
    with idle show ?thesis by (simp add: op PassiveSocketContainer_new_def split: if_splits)
  next
    case (Inr p)
    obtain s w1 where p: "p = (s, w1)" by fastforce
    note s = passive_socket_env [OF os l Inr [unfolded p]]
    show ?thesis
    proof (cases "sr_code (bs_result s) = SUCCESS")
      case False
      with Inr p s idle show ?thesis by (simp add: op)
    next
      case True
      note sock = Inr [unfolded p] True idle
      show ?thesis
      proof (cases "c_str (cfg_ip ?cfg)"; cases "c_str (cfg_port ?cfg)")
        fix ip port :: string
        assume ip: "c_str (cfg_ip ?cfg) = Inr ip" and port: "c_str (cfg_port ?cfg) = Inr port"
        show ?thesis
        proof (cases "SocketAddress_new os ip port True ?ux w1")
          case (Inl e)
          with address_env [OF l, where ip = ip and port = port and server = True and u = "?ux" and w = w1] sock ip port show ?thesis by (simp add: op)
        next
          case (Inr q)
          obtain a w2 where q: "q = (a, w2)" by fastforce
          have e2: "same_env opened clients w1 w2"
            using address_env [OF l, where ip = ip and port = port and server = True and u = "?ux" and w = w1] Inr q by simp
          obtain rb w3 where b: "PassiveSocket_bind os s a w2 = (rb, w3)" by fastforce
          obtain rl w4 where li: "PassiveSocket_listen os s w3 = (rl, w4)" by fastforce
          note env = e2 bind_listen_env(1) [OF l b] bind_listen_env(2) [OF l li]
          show ?thesis
            using sock ip port Inr q b li env s by (auto simp: op same_env_def)
        qed
      qed (use sock in \<open>auto simp: op c_str_def split: if_splits\<close>)
    qed
  qed
qed

subsection \<open>The books between two sessions\<close>

definition server_idle :: "('w \<Rightarrow> fd set) \<Rightarrow> ('w \<Rightarrow> int) \<Rightarrow> request_server \<Rightarrow> 'w \<Rightarrow> bool" where
  "server_idle opened clients sv w \<longleftrightarrow> \<not> rq_running sv
     \<and> pool_ready (rq_pool sv) (opened w) \<and> pool_size (rq_pool sv) = 32
     \<and> clients w = int (card (dom (pool_objects (rq_pool sv))))"

lemma pool_ready_mono: "pool_ready pool F \<Longrightarrow> F \<subseteq> G \<Longrightarrow> pool_ready pool G"
  by (auto simp: pool_ready_def)

definition session_faults :: "fault set" where
  "session_faults = insert NotImplemented server_faults"

lemma serve_session_idle:
  assumes os: "server_os os opened clients" and l: "listening_os os opened clients"
    and h: "server_handler h opened clients" and idle: "server_idle opened clients sv w"
  shows "case serve_session n os h sv w of
      Inl e \<Rightarrow> e \<in> session_faults
    | Inr (sv', w') \<Rightarrow> server_idle opened clients sv' w' \<and> pool_fds (rq_pool sv) \<subseteq>\<^sub>m pool_fds (rq_pool sv')"
proof -
  have nr: "\<not> rq_running sv" and pr: "pool_ready (rq_pool sv) (opened w)"
    and k: "clients w = int (card (dom (pool_objects (rq_pool sv))))" "pool_size (rq_pool sv) = 32"
    using idle by (simp_all add: server_idle_def)
  note op = open_env [OF os l nr, of w]
  show ?thesis
  proof (cases "SocketRequestServerImpl_open os sv w")
    case (Inl e)
    with op show ?thesis by (auto simp: serve_session_def session_faults_def server_faults_def)
  next
    case (Inr p)
    obtain r sv1 w1 where p: "p = (r, sv1, w1)" by (metis prod.exhaust)
    with op Inr have same: "rq_pool sv1 = rq_pool sv" "clients w1 = clients w" "opened w \<subseteq> opened w1"
      and run1: "rq_running sv1 \<longrightarrow> (\<exists>s. rq_socket sv1 = Some s \<and> bs_fd s \<in> opened w1 \<and> bs_fd s \<notin> opened w)"
      by simp_all
    show ?thesis
    proof (cases "rq_running sv1")
      case False
      with Inr p same idle show ?thesis
        by (simp add: serve_session_def SocketRequestServerImpl_close_def server_idle_def
            pool_ready_mono [OF pr])
    next
      case True
      then obtain s where s: "rq_socket sv1 = Some s" "bs_fd s \<in> opened w1" "bs_fd s \<notin> opened w"
        using run1 by blast
      have "pool_ready (rq_pool sv1) (opened w1 - {bs_fd s})"
        using same s(3) by (auto intro: pool_ready_mono [OF pr])
      note run = run_wf [OF os h this s(2), of n "rq_cfg sv1"]
      show ?thesis
      proof (cases "run n os h (rq_cfg sv1) s (rq_pool sv1) w1")
        case (Inl e)
        with run Inr p True s same k show ?thesis by (simp add: serve_session_def session_faults_def)
      next
        case (Inr q)
        obtain st w2 where q: "q = (st, w2)" by fastforce
        with run Inr same k have wf: "server_wf (pool_fds (rq_pool sv)) s opened clients st w2"
          and size: "pool_size (rs_pool st) = 32" by simp_all
        obtain s' w3 where c: "PassiveSocket_close os s w2 = (s', w3)" by fastforce
        note ready = server_wf_ready [OF wf]
        have "server_idle opened clients (sv1\<lparr>rq_pool := rs_pool st, rq_running := False,
            rq_socket := Some s'\<rparr>) w3"
          using ready(1) close_env [OF os l c] size wf by (simp add: server_idle_def server_wf_def)
        moreover have "serve_session n os h sv w
            = Inr (sv1\<lparr>rq_pool := rs_pool st, rq_running := False, rq_socket := Some s'\<rparr>, w3)"
          using \<open>SocketRequestServerImpl_open os sv w = Inr p\<close> p True s(1) Inr q c
          by (simp add: serve_session_def SocketRequestServerImpl_close_def Let_def)
        ultimately show ?thesis using ready(2) by simp
      qed
    qed
  qed
qed

lemma serve_sessions_idle:
  assumes "server_os os opened clients" and "listening_os os opened clients"
    and "server_handler h opened clients"
  shows "server_idle opened clients sv w \<Longrightarrow>
    (case serve_sessions ns os h sv w of
      Inl e \<Rightarrow> e \<in> session_faults
    | Inr (sv', w') \<Rightarrow> server_idle opened clients sv' w' \<and> pool_fds (rq_pool sv) \<subseteq>\<^sub>m pool_fds (rq_pool sv'))"
proof (induction ns arbitrary: sv w)
  case Nil
  then show ?case by simp
next
  case (Cons n ns)
  note step = serve_session_idle [OF assms Cons.prems, of n]
  show ?case
  proof (cases "serve_session n os h sv w")
    case (Inl e)
    with step show ?thesis by simp
  next
    case (Inr p)
    obtain sv1 w1 where p: "p = (sv1, w1)" by fastforce
    with Inr step have "server_idle opened clients sv1 w1" "pool_fds (rq_pool sv) \<subseteq>\<^sub>m pool_fds (rq_pool sv1)"
      by simp_all
    with Cons.IH [of sv1 w1] Inr p show ?thesis
      by (auto split: sum.splits intro: map_le_trans)
  qed
qed


subsection \<open>Properties\<close>

lemma server_new_idle:
  "clients w = 0 \<Longrightarrow> server_idle opened clients (SocketRequestServerImpl_new cfg tls) w"
  by (simp add: server_idle_def SocketRequestServerImpl_new_def pool_ready_new)
    (simp add: ObjectPool_new_def)

text \<open>
  C4. Closing a request server keeps its clients: whoever is connected when a session ends
  stays in the pool, its descriptor open and still counted by the application, through every
  later session, however often the server is opened again and whatever its thread does; so the room
  for clients only shrinks, from 32. Over all these sessions the threads fail in the ways one
  session can, or by the unimplemented TLS class: none ever touches a released connection.
\<close>

theorem request_server_sessions:
  assumes "server_os os opened clients" and "listening_os os opened clients"
    and "server_handler h opened clients" and "clients w0 = 0"
    and "serve_sessions ms os h (SocketRequestServerImpl_new cfg tls) w0 = Inr (sv, w)"
  shows "case serve_sessions ns os h sv w of
      Inl e \<Rightarrow> e \<in> {NotImplemented, NullDeref, BadCast, OutOfBounds}
    | Inr (sv', w') \<Rightarrow> \<not> rq_running sv'
        \<and> (\<forall>s x. pool_objects (rq_pool sv) s = Some x \<longrightarrow>
             (\<exists>x'. pool_objects (rq_pool sv') s = Some x' \<and> bs_fd (conn_socket x') = bs_fd (conn_socket x))
             \<and> bs_fd (conn_socket x) \<in> opened w')
        \<and> clients w' = int (card (dom (pool_objects (rq_pool sv'))))
        \<and> clients w \<le> clients w' \<and> clients w' \<le> 32"
proof -
  note idle = serve_sessions_idle [OF assms(1-3)]
  have sv: "server_idle opened clients sv w"
    using idle [OF server_new_idle [where clients = clients and w = w0, OF assms(4)],
        where ns = ms and cfg1 = cfg and tls1 = tls] assms(5)
    by simp
  show ?thesis
  proof (cases "serve_sessions ns os h sv w")
    case (Inl e)
    with idle [OF sv, of ns] show ?thesis by (auto simp: session_faults_def server_faults_def)
  next
    case (Inr p)
    obtain sv' w' where p: "p = (sv', w')" by fastforce
    with idle [OF sv, of ns] Inr have sv': "server_idle opened clients sv' w'"
      and keep: "pool_fds (rq_pool sv) \<subseteq>\<^sub>m pool_fds (rq_pool sv')" by simp_all
    have pw: "pool_wf (rq_pool sv')" and ran: "ran (pool_fds (rq_pool sv')) \<subseteq> opened w'"
      using sv' by (simp_all add: server_idle_def pool_ready_def)
    have "card (dom (pool_objects (rq_pool sv))) \<le> card (dom (pool_objects (rq_pool sv')))"
      using map_le_implies_dom_le [OF keep] pool_counts(1) [OF pw] by (simp add: card_mono)
    moreover have "card (dom (pool_objects (rq_pool sv'))) \<le> 32"
      using pool_counts(2) [OF pw] sv' by (simp add: server_idle_def)
    moreover have "(\<exists>x'. pool_objects (rq_pool sv') s = Some x' \<and> bs_fd (conn_socket x') = bs_fd (conn_socket x))
        \<and> bs_fd (conn_socket x) \<in> opened w'" if "pool_objects (rq_pool sv) s = Some x" for s x
    proof -
      have "pool_fds (rq_pool sv) s = Some (bs_fd (conn_socket x))" using that by (simp add: pool_fds_def)
      with keep have "pool_fds (rq_pool sv') s = Some (bs_fd (conn_socket x))"
        unfolding map_le_def by (metis domI)
      moreover from this have "bs_fd (conn_socket x) \<in> ran (pool_fds (rq_pool sv'))" by (rule ranI)
      ultimately show ?thesis using ran by (auto simp: pool_fds_def)
    qed
    ultimately show ?thesis using Inr p sv sv' by (simp add: server_idle_def)
  qed
qed

text \<open>The environment of the witness: a client connects in the first session and stays.\<close>

definition reopen_os :: "(fd set \<times> int) os" where
  "reopen_os = quiet_os\<lparr>
     os_socket := (\<lambda>u (F, k). if 3 \<in> F then (- 1, (F, k)) else (3, (insert 3 F, k))),
     os_bind := (\<lambda>s a w. (0, w)),
     os_listen := (\<lambda>s w. (0, w)),
     os_getaddrinfo := (\<lambda>ip port server w. (Inr [], w))\<rparr>"

lemma reopen_env: "server_os reopen_os fst snd" "listening_os reopen_os fst snd"
  by (auto simp: server_os_def listening_os_def reopen_os_def quiet_os_def null_os_def
      same_env_def poll_ok_def split: if_splits)

definition fresh_server :: request_server where
  "fresh_server = SocketRequestServerImpl_new server_cfg (server_tls [])"

lemma fresh_opens:
  "SocketRequestServerImpl_open reopen_os fresh_server ({}, 0)
   = Inr (mkCode SUCCESS, fresh_server\<lparr>rq_socket := Some listening_socket, rq_running := True\<rparr>, ({3}, 0))"
  by (simp add: SocketRequestServerImpl_open_def SocketRequestServerImpl_new_def fresh_server_def
      server_cfg_def PassiveSocketContainer_new_def PassiveSocket_new_def open_stream_socket_def
      reopen_os_def quiet_os_def null_os_def setNonBlockingMode_def SocketAddress_new_def write_zero_bytes
      PassiveSocket_bind_def PassiveSocket_listen_def listening_socket_def i32_small c_str_def
      server_tls_def ts_valid_def SocketTLSServerConfiguration_new_def or_bits_def Let_def)

lemma first_close:
  "PassiveSocket_close reopen_os listening_socket ({3, 5}, 1)
   = (listening_socket\<lparr>bs_fd := - 1\<rparr>, ({5}, 1))"
  by (simp add: PassiveSocket_close_def listening_socket_def reopen_os_def quiet_os_def null_os_def)

lemma first_session:
  "\<exists>sv x. serve_sessions [1] reopen_os count_handler fresh_server ({}, 0) = Inr (sv, ({5}, 1))
     \<and> pool_objects (rq_pool sv) 0 = Some x \<and> bs_fd (conn_socket x) = 5"
proof -
  obtain st x where st: "run 1 reopen_os count_handler server_cfg listening_socket (ObjectPool_new 32) ({3}, 0)
      = Inr (st, ({3, 5}, 1))" "pool_objects (rs_pool st) 0 = Some x" "bs_fd (conn_socket x) = 5"
    using first_run unfolding reopen_os_def by blast
  have cfg: "rq_cfg fresh_server = server_cfg" "rq_pool fresh_server = ObjectPool_new 32"
    by (simp_all add: fresh_server_def SocketRequestServerImpl_new_def)
  obtain sv where sv: "serve_sessions [1] reopen_os count_handler fresh_server ({}, 0) = Inr (sv, ({5}, 1))"
      "rq_pool sv = rs_pool st"
    using st(1) by (auto simp: serve_session_def fresh_opens cfg SocketRequestServerImpl_close_def
        first_close Let_def)
  with st show ?thesis by auto
qed

theorem request_server_sessions_witness:
  "\<exists>sv. serve_sessions [1] reopen_os count_handler fresh_server ({}, 0) = Inr (sv, ({5}, 1))
     \<and> (case serve_sessions [1] reopen_os count_handler sv ({5}, 1) of
          Inl e \<Rightarrow> e \<noteq> UseAfterFree | Inr (sv', (F, k)) \<Rightarrow> 5 \<in> F \<and> 1 \<le> k)"
proof -
  obtain sv x where sv: "serve_sessions [1] reopen_os count_handler fresh_server ({}, 0) = Inr (sv, ({5}, 1))"
      "pool_objects (rq_pool sv) 0 = Some x" "bs_fd (conn_socket x) = 5"
    using first_session by blast
  from request_server_sessions [OF reopen_env quiet_env(2) _ sv(1) [unfolded fresh_server_def], of "[1]"] sv
  show ?thesis by (fastforce split: sum.splits)
qed

end
