(* ===== verification/Request_Types.thy ===== *)
theory Request_Types
  imports Request_Sessions
begin

text \<open>
  The memory layout of the request server's connections: the three buffers of a connection
  keep the sizes its construction gave them, whatever the kernel and the application return.
  No assumption is made on either.
\<close>

subsection \<open>One step of a connection\<close>

lemma flush_sizes: "conn_sizes h pdu c \<Longrightarrow> conn_sizes h pdu (flush c)"
  by (simp add: conn_sizes_def flush_def)

lemma runTask_sizes:
  assumes "runTask h m n c w = Inr (ps, c', w')" and "conn_sizes h pdu c"
  shows "conn_sizes h pdu c'"
proof -
  have "conn_sizes h pdu c'" if "process h n c w = Inr (ps, c', w')"
    using that assms(2) length_write_mem
    by (fastforce simp: process_def conn_sizes_def bindR_Inr_iff split: prod.splits)
  then show ?thesis using assms by (cases m) auto
qed

lemma readHeader_sizes:
  assumes "readHeader os h c w = Inr (ps, c', w')" and "conn_sizes h pdu c"
  shows "conn_sizes h pdu c'"
  using assms length_write_mem
  by (fastforce simp: readHeader_def bindR_Inr_iff Let_def conn_sizes_def
      split: prod.splits if_splits dest!: runTask_sizes [where pdu = pdu])

lemma readPayload_sizes:
  assumes "readPayload os h c w = Inr (ps, c', w')" and "conn_sizes h pdu c"
  shows "conn_sizes h pdu c'"
  using assms length_write_mem
  by (fastforce simp: readPayload_def bindR_Inr_iff Let_def conn_sizes_def
      split: prod.splits if_splits dest!: runTask_sizes [where pdu = pdu])

lemma writeResponse_sizes:
  assumes "writeResponse os c w = Inr (ps, c', w')" and "conn_sizes h pdu c"
  shows "conn_sizes h pdu c'"
proof -
  obtain buf where buf: "read_mem (conn_output c) (conn_written c) (conn_response_size c - conn_written c) = Inr buf"
    using assms(1) by (auto simp: writeResponse_def bindR_Inr_iff Let_def)
  obtain r w1 where "ServerActiveSocket_write os (conn_socket c) buf w = (r, w1)" by fastforce
  with assms buf show ?thesis by (auto simp: writeResponse_def conn_sizes_def Let_def split: if_splits)
qed

lemma after_read_sizes:
  "conn_sizes h pdu (fst (snd r)) \<Longrightarrow> conn_sizes h pdu (fst (after_read r))"
  by (cases r) (auto simp: after_read_def conn_sizes_def flush_def Let_def)

definition step_sizes :: "'w handler \<Rightarrow> size_t
   \<Rightarrow> (connection \<Rightarrow> 'w \<Rightarrow> (connection \<times> SocketEventType option \<times> 'w) result) \<Rightarrow> bool" where
  "step_sizes h pdu step \<longleftrightarrow>
     (\<forall>c w c' want w'. step c w = Inr (c', want, w') \<longrightarrow> conn_sizes h pdu c \<longrightarrow> conn_sizes h pdu c')"

lemma read_event_sizes: "step_sizes h pdu (connection_read_event os h)"
  unfolding step_sizes_def
proof (intro allI impI)
  fix c w c' want w'
  assume ev: "connection_read_event os h c w = Inr (c', want, w')" and c: "conn_sizes h pdu c"
  have read: "conn_sizes h pdu c'"
    if m: "bindR m (\<lambda>r. Inr (after_read r)) = Inr (c', want, w')"
      and sizes: "\<And>ps d v. m = Inr (ps, d, v) \<Longrightarrow> conn_sizes h pdu d" for m
  proof -
    obtain ps d v where "m = Inr (ps, d, v)" "after_read (ps, d, v) = (c', want, w')"
      using m by (cases m) auto
    with after_read_sizes [of h pdu "(ps, d, v)"] sizes show ?thesis by simp
  qed
  show "conn_sizes h pdu c'"
    using ev c readHeader_sizes readPayload_sizes
    by (cases "conn_state c") (auto simp: connection_read_event_def elim!: read)
qed

lemma write_event_sizes: "step_sizes h pdu (connection_write_event os)"
  unfolding step_sizes_def
proof (intro allI impI)
  fix c w c' want w'
  assume ev: "connection_write_event os c w = Inr (c', want, w')" and c: "conn_sizes h pdu c"
  show "conn_sizes h pdu c'"
  proof (cases "conn_state c = WRITING_RESPONSE")
    case True
    with ev obtain ps d v where d: "writeResponse os c w = Inr (ps, d, v)"
        "c' = d\<lparr>conn_state := ps\<rparr> \<or> c' = (flush (d\<lparr>conn_state := ps\<rparr>))\<lparr>conn_state := READING_HEADER\<rparr>"
      by (auto simp: connection_write_event_def bindR_Inr_iff Let_def split: if_splits)
    with writeResponse_sizes [OF d(1) c] show ?thesis by (auto simp: conn_sizes_def flush_def)
  next
    case False
    with ev c show ?thesis by (cases "conn_state c") (simp_all add: connection_write_event_def)
  qed
qed

subsection \<open>The pool\<close>

definition pool_sizes :: "'w handler \<Rightarrow> size_t \<Rightarrow> connection object_pool \<Rightarrow> bool" where
  "pool_sizes h pdu pool \<longleftrightarrow> (\<forall>s c. pool_objects pool s = Some c \<longrightarrow> conn_sizes h pdu c)"

lemma pool_sizes_new [simp]: "pool_sizes h pdu (ObjectPool_new n)"
  by (simp add: pool_sizes_def ObjectPool_new_def)

lemma handle_accept_sizes:
  assumes "handle_accept os h cfg psock st w = Inr (st', w')"
    and "pool_sizes h (cfg_pdu_size cfg) (rs_pool st)"
  shows "pool_sizes h (cfg_pdu_size cfg) (rs_pool st')"
  using assms
  by (auto simp: handle_accept_def pool_sizes_def pool_acquire_def bindR_Inr_iff Let_def conn_sizes_def
      SocketConnection_new_def split: prod.splits if_splits option.splits list.splits)

lemma handle_disconnected_sizes:
  assumes "handle_disconnected os h c st w = Inr (st', w')" and "pool_sizes h pdu (rs_pool st)"
  shows "pool_sizes h pdu (rs_pool st')"
  using assms
  by (auto simp: handle_disconnected_def get_connection_def pool_sizes_def bindR_Inr_iff Let_def
      set_connection_def pool_update_def pool_release_def disconnectClient_def conn_sizes_def
      split: prod.splits if_splits option.splits server_ctx.splits)

lemma handle_io_sizes:
  assumes "handle_io step c st w = Inr (st', w')" and "step_sizes h pdu step"
    and "pool_sizes h pdu (rs_pool st)"
  shows "pool_sizes h pdu (rs_pool st')"
proof -
  obtain s x y want v where c: "get_connection st c = Inr (s, x)" "step x w = Inr (y, want, v)"
      "register c want (set_connection s y st) = Inr st'"
    using assms(1) by (auto simp: handle_io_def bindR_Inr_iff)
  have "conn_sizes h pdu x"
    using c(1) assms(3) by (auto simp: get_connection_def pool_sizes_def split: server_ctx.splits option.splits)
  with c(2) assms(2) have "conn_sizes h pdu y" unfolding step_sizes_def by blast
  moreover have "rs_pool st' = pool_update s y (rs_pool st)"
    using c(3) by (auto simp: register_def set_connection_def bindR_Inr_iff split: option.splits)
  ultimately show ?thesis using assms(3) by (auto simp: pool_sizes_def pool_update_def)
qed

lemma handle_event_sizes:
  assumes "handle_event os h cfg psock c st w = Inr (st', w')"
    and "pool_sizes h (cfg_pdu_size cfg) (rs_pool st)"
  shows "pool_sizes h (cfg_pdu_size cfg) (rs_pool st')"
  using assms handle_accept_sizes handle_disconnected_sizes
    handle_io_sizes [OF _ read_event_sizes] handle_io_sizes [OF _ write_event_sizes]
  by (fastforce simp: handle_event_def split: option.splits SocketEventType.splits)

lemma dispatch_sizes:
  "dispatch os h cfg psock cs st w = Inr (st', w') \<Longrightarrow> pool_sizes h (cfg_pdu_size cfg) (rs_pool st) \<Longrightarrow>
   pool_sizes h (cfg_pdu_size cfg) (rs_pool st')"
  by (induction cs arbitrary: st w) (auto simp: bindR_Inr_iff dest: handle_event_sizes)

lemma store_heap_sizes [simp]: "pool_sizes h pdu (rs_pool (store_heap hp st)) = pool_sizes h pdu (rs_pool st)"
  by (fastforce simp: pool_sizes_def store_heap_def conn_sizes_def)

lemma run_loop_sizes:
  "run_loop n os h cfg psock st w = Inr (st', w') \<Longrightarrow> pool_sizes h (cfg_pdu_size cfg) (rs_pool st) \<Longrightarrow>
   pool_sizes h (cfg_pdu_size cfg) (rs_pool st')"
proof (induction n arbitrary: st w)
  case (Suc n)
  then obtain go st1 w1 where it: "run_iteration os h cfg psock st w = Inr (go, st1, w1)"
      "if go then run_loop n os h cfg psock st1 w1 = Inr (st', w') else st1 = st'"
    by (auto simp: bindR_Inr_iff split: if_splits)
  have "pool_sizes h (cfg_pdu_size cfg) (rs_pool st1)"
    using it(1) Suc.prems(2)
    by (auto simp: run_iteration_def bindR_Inr_iff Let_def split: if_splits dest!: dispatch_sizes)
  with it(2) Suc.IH [of st1 w1] show ?case by (simp split: if_splits)
qed simp

lemma run_sizes:
  assumes "run n os h cfg psock pool w = Inr (st, w')" and "pool_sizes h (cfg_pdu_size cfg) pool"
  shows "pool_sizes h (cfg_pdu_size cfg) (rs_pool st)"
proof -
  obtain st0 where "run_start psock pool = Inr st0" "run_loop n os h cfg psock st0 w = Inr (st, w')"
    using assms(1) by (auto simp: run_def bindR_Inr_iff)
  moreover from this(1) have "rs_pool st0 = pool" by (auto simp: run_start_def bindR_Inr_iff Let_def)
  ultimately show ?thesis using run_loop_sizes assms(2) by metis
qed

subsection \<open>Sessions\<close>

lemma open_keeps:
  assumes "SocketRequestServerImpl_open os sv w = Inr (r, sv', w')"
  shows "rq_pool sv' = rq_pool sv \<and> rq_cfg sv' = rq_cfg sv"
proof -
  have "rq_pool sv' = rq_pool sv \<and> rq_cfg sv' = rq_cfg sv"
    if "(let (result, v) = PassiveSocket_bind os s a w2 in
          if sr_code result \<noteq> SUCCESS then Inr (result, sv\<lparr>rq_socket := Some s\<rparr>, v) else
          let (result, v) = PassiveSocket_listen os s v in
          if sr_code result \<noteq> SUCCESS then Inr (result, sv\<lparr>rq_socket := Some s\<rparr>, v) else
          Inr (result, sv\<lparr>rq_socket := Some s, rq_running := True\<rparr>, v)) = Inr (r, sv', w')" for s a w2
  proof -
    obtain rb wb where b: "PassiveSocket_bind os s a w2 = (rb, wb)" by fastforce
    obtain rl wl where "PassiveSocket_listen os s wb = (rl, wl)" by fastforce
    with that b show ?thesis by (auto simp: Let_def split: if_splits)
  qed
  with assms show ?thesis
    by (auto simp: SocketRequestServerImpl_open_def bindR_Inr_iff Let_def split: if_splits)
qed

lemma close_keeps:
  "SocketRequestServerImpl_close os sv w = Inr (sv', w') \<Longrightarrow>
   rq_pool sv' = rq_pool sv \<and> rq_cfg sv' = rq_cfg sv"
  by (auto simp: SocketRequestServerImpl_close_def Let_def split: if_splits prod.splits option.splits)

lemma serve_session_sizes:
  assumes "serve_session n os h sv w = Inr (sv', w')"
    and "pool_sizes h (cfg_pdu_size (rq_cfg sv)) (rq_pool sv)"
  shows "pool_sizes h (cfg_pdu_size (rq_cfg sv)) (rq_pool sv') \<and> rq_cfg sv' = rq_cfg sv"
proof -
  obtain r sv1 w1 where op: "SocketRequestServerImpl_open os sv w = Inr (r, sv1, w1)"
    and rest: "(if rq_running sv1 then
         (case rq_socket sv1 of None \<Rightarrow> Inl NullDeref
          | Some s \<Rightarrow> bindR (run n os h (rq_cfg sv1) s (rq_pool sv1) w1) (\<lambda>(st, w).
              SocketRequestServerImpl_close os (sv1\<lparr>rq_pool := rs_pool st\<rparr>) w))
       else SocketRequestServerImpl_close os sv1 w1) = Inr (sv', w')"
    using assms(1) by (auto simp: serve_session_def bindR_Inr_iff)
  show ?thesis
  proof (cases "rq_running sv1")
    case False
    with rest open_keeps [OF op] assms(2) show ?thesis by (auto dest: close_keeps)
  next
    case True
    with rest obtain s st v where "run n os h (rq_cfg sv1) s (rq_pool sv1) w1 = Inr (st, v)"
        "SocketRequestServerImpl_close os (sv1\<lparr>rq_pool := rs_pool st\<rparr>) v = Inr (sv', w')"
      by (auto simp: bindR_Inr_iff split: option.splits)
    with open_keeps [OF op] assms(2) run_sizes [of n os h "rq_cfg sv1" s "rq_pool sv1" w1 st v]
      close_keeps [of os "sv1\<lparr>rq_pool := rs_pool st\<rparr>" v sv' w'] show ?thesis by simp
  qed
qed

lemma serve_sessions_sizes:
  "serve_sessions ns os h sv w = Inr (sv', w') \<Longrightarrow>
   pool_sizes h (cfg_pdu_size (rq_cfg sv)) (rq_pool sv) \<Longrightarrow>
   pool_sizes h (cfg_pdu_size (rq_cfg sv)) (rq_pool sv')"
proof (induction ns arbitrary: sv w)
  case (Cons n ns)
  then obtain sv1 w1 where "serve_session n os h sv w = Inr (sv1, w1)"
      "serve_sessions ns os h sv1 w1 = Inr (sv', w')" by (auto simp: bindR_Inr_iff)
  with serve_session_sizes [of n os h sv w sv1 w1] Cons.IH [of sv1 w1] Cons.prems(2) show ?case by simp
qed simp

subsection \<open>Properties\<close>

text \<open>
  C32. The buffers of a connection keep their sizes: in any state a request server reaches,
  over any number of sessions and with any kernel and any application, the header buffer of
  every live connection has the size the application gives for headers, and the payload and
  output buffers have the PDU size of the configuration.
\<close>

theorem connection_buffers:
  assumes "serve_sessions ns os h (SocketRequestServerImpl_new cfg tls) w = Inr (sv, w')"
    and "pool_objects (rq_pool sv) s = Some c"
  shows "length (conn_header c) = unat (h_header_size h)
    \<and> length (conn_payload c) = unat (cfg_pdu_size cfg)
    \<and> length (conn_output c) = unat (cfg_pdu_size cfg)"
proof -
  have "pool_sizes h (cfg_pdu_size cfg) (rq_pool sv)"
    using serve_sessions_sizes [OF assms(1)] by (simp add: SocketRequestServerImpl_new_def)
  then show ?thesis using assms(2) unfolding pool_sizes_def conn_sizes_def by blast
qed

theorem connection_buffers_witness:
  "\<exists>sv c. serve_sessions [1] reopen_os count_handler fresh_server ({}, 0) = Inr (sv, ({5}, 1))
     \<and> pool_objects (rq_pool sv) 0 = Some c \<and> length (conn_payload c) = 512"
proof -
  obtain sv c where sv: "serve_sessions [1] reopen_os count_handler fresh_server ({}, 0) = Inr (sv, ({5}, 1))"
      "pool_objects (rq_pool sv) 0 = Some c"
    using first_session by blast
  have "length (conn_payload c) = unat (cfg_pdu_size server_cfg)"
    by (rule connection_buffers [OF sv(1) [unfolded fresh_server_def] sv(2), THEN conjunct2, THEN conjunct1])
  then have "length (conn_payload c) = 512" by (simp add: server_cfg_def)
  with sv show ?thesis by (intro exI conjI)
qed

end
