(* ===== verification/Broadcast_Write.thy ===== *)
theory Broadcast_Write
  imports Channels
begin

text \<open>
  \<^verbatim>\<open>SocketBroadcastServerImpl::write\<close>, seen from the thread that calls it: the clients of its
  snapshot one after the other, each with a loop of its own over the one-socket listener and
  the client's non-blocking socket.
\<close>

subsection \<open>Operations\<close>

text \<open>
  The loop over one client. The counter \<open>i\<close> advances on timeouts only; running out of
  retries leaves \<open>per_client_result\<close> as it was initialised. \<open>send\<close> and \<open>wait\<close> are the calls
  of the loop.
\<close>

partial_function (option) client_loop ::
  "(byte list \<Rightarrow> 'w \<Rightarrow> SocketResult \<times> 'w) \<Rightarrow> ('w \<Rightarrow> SocketResult \<times> 'w) \<Rightarrow> nat
   \<Rightarrow> byte list \<Rightarrow> size_t \<Rightarrow> nat \<Rightarrow> size_t \<Rightarrow> 'w \<Rightarrow> (SocketResult \<times> 'w) result option" where
  "client_loop send wait max_retries buffer n i written w =
     (if i < max_retries then
        (let (r, w) = wait w
         in if sr_code r = SOCKET_TIMEOUT then
              client_loop send wait max_retries buffer n (i + 1) written w
            else if sr_code r \<noteq> SUCCESS then
              Some (Inr (mkResult (sr_code r) (i32 (uint written)), w))
            else case read_mem buffer written (n - written) of Inl e \<Rightarrow> Some (Inl e)
              | Inr chunk \<Rightarrow>
                (let (r, w) = send chunk w
                 in if sr_code r = SOCKET_TIMEOUT then
                      client_loop send wait max_retries buffer n (i + 1) written w
                    else if sr_code r \<noteq> SUCCESS then
                      Some (Inr (mkResult (sr_code r) (i32 (uint written)), w))
                    else
                      (let written = written + size_of (sr_bytes r)
                       in if n \<le> written then Some (Inr (mkResult SUCCESS (i32 (uint written)), w))
                          else client_loop send wait max_retries buffer n i written w)))
      else Some (Inr (mkCode SUCCESS, w)))"

definition write_client ::
  "'w os \<Rightarrow> SocketConfiguration \<Rightarrow> server_socket \<Rightarrow> byte list \<Rightarrow> size_t \<Rightarrow> 'w
   \<Rightarrow> (SocketResult \<times> 'w) result option" where
  "write_client os cfg sock buffer n w =
     (case SocketEventListener_open (bs_fd sock) WRITE of Inl e \<Rightarrow> Some (Inl e)
      | Inr l \<Rightarrow>
         client_loop (ServerActiveSocket_write os sock)
           (SocketEventListener_wait os l (cfg_write_timeout cfg))
           (unat (cfg_max_retries cfg)) buffer n 0 0 w)"

text \<open>
  The loop over the snapshot: the sockets of its containers, \<open>None\<close> where a container is
  empty; the result is overwritten by each client.
\<close>

fun write_clients ::
  "'w os \<Rightarrow> SocketConfiguration \<Rightarrow> byte list \<Rightarrow> size_t \<Rightarrow> server_socket option list
   \<Rightarrow> SocketResult \<Rightarrow> 'w \<Rightarrow> (SocketResult \<times> 'w) result option" where
  "write_clients os cfg buffer n [] result w = Some (Inr (result, w))"
| "write_clients os cfg buffer n (None # socks) result w =
     write_clients os cfg buffer n socks result w"
| "write_clients os cfg buffer n (Some sock # socks) result w =
     (case write_client os cfg sock buffer n w of None \<Rightarrow> None
      | Some (Inl e) \<Rightarrow> Some (Inl e)
      | Some (Inr (per_client_result, w)) \<Rightarrow>
          write_clients os cfg buffer n socks per_client_result w)"

definition broadcast_write ::
  "'w os \<Rightarrow> SocketConfiguration \<Rightarrow> server_socket option list \<Rightarrow> byte list \<Rightarrow> size_t \<Rightarrow> 'w
   \<Rightarrow> (SocketResult \<times> 'w) result option" where
  "broadcast_write os cfg snapshot buffer n w =
     (if snapshot = [] then Some (Inr (mkResult SUCCESS 0, w))
      else write_clients os cfg buffer n snapshot (mkCode SUCCESS) w)"

subsection \<open>What the loop leaves alone\<close>


subsection \<open>One client as a channel\<close>








subsection \<open>A snapshot of clients\<close>



lemma write_clients_append:
  "write_clients os cfg buffer n (xs @ ys) r w =
     (case write_clients os cfg buffer n xs r w of None \<Rightarrow> None
      | Some (Inl e) \<Rightarrow> Some (Inl e)
      | Some (Inr (r, w)) \<Rightarrow> write_clients os cfg buffer n ys r w)"
proof (induction xs arbitrary: r w)
  case (Cons x xs)
  then show ?case by (cases x) (auto split: option.split sum.split)
qed simp

subsection \<open>Properties\<close>



definition sample_cfg :: SocketConfiguration where
  "sample_cfg = \<lparr>cfg_ip = zero_array 128, cfg_port = zero_array 16, cfg_pdu_size = 16,
     cfg_max_retries = 3, cfg_read_timeout = 2000, cfg_write_timeout = 2000,
     cfg_time_between_retries = 100, cfg_is_unix_domain = False\<rparr>"

definition client_at :: "fd \<Rightarrow> server_socket" where
  "client_at f = \<lparr>bs_result = mkResult SUCCESS f, bs_fd = f, ss_ip = ''127.0.0.1'', ss_port = 7\<rparr>"



text \<open>
  The result of a broadcast is that of its last client alone: whatever happened to the
  clients before it, closed and failed ones included, leaves no trace in the result.
\<close>

theorem broadcast_last_result:
  "broadcast_write os cfg (socks @ [Some s]) buffer n w =
     (case write_clients os cfg buffer n socks (mkCode SUCCESS) w of None \<Rightarrow> None
      | Some (Inl e) \<Rightarrow> Some (Inl e)
      | Some (Inr (_, w)) \<Rightarrow> write_client os cfg s buffer n w)"
  by (auto simp: broadcast_write_def write_clients_append split: option.split sum.split)

text \<open>
  C37. A client whose socket never becomes writable costs its retries and is reported as
  \<open>SUCCESS\<close>, with \<open>- 1\<close> bytes; nothing was sent.
\<close>

theorem broadcast_silent_timeout:
  assumes "\<And>w. sr_code (fst (SocketEventListener_wait os (bs_fd s, POLLOUT) (cfg_write_timeout cfg) w))
      = SOCKET_TIMEOUT" and "quiet os obs"
  shows "\<exists>w'. broadcast_write os cfg [Some s] buffer n w = Some (Inr (mkCode SUCCESS, w')) \<and> obs w' = obs w"
proof -
  let ?wait = "SocketEventListener_wait os (bs_fd s, POLLOUT) (cfg_write_timeout cfg)"
  have loop: "\<exists>w'. client_loop send ?wait m buffer n i 0 w = Some (Inr (mkCode SUCCESS, w')) \<and> obs w' = obs w"
    for send m i w
  proof (induction "m - i" arbitrary: i w)
    case 0
    then show ?case by (subst client_loop.simps) simp
  next
    case (Suc d)
    obtain r w1 where wait: "?wait w = (r, w1)" by fastforce
    then have "sr_code r = SOCKET_TIMEOUT" "obs w1 = obs w"
      using assms(1) [of w] wait_quiet [OF assms(2), of "(bs_fd s, POLLOUT)" "cfg_write_timeout cfg" w]
      by simp_all
    with wait Suc(1) [of "i + 1" w1] Suc(2) show ?case by (subst client_loop.simps) simp
  qed
  from loop [of "ServerActiveSocket_write os s" "unat (cfg_max_retries cfg)" 0 w]
  show ?thesis by (auto simp: broadcast_write_def write_client_def open_listener)
qed

theorem broadcast_silent_timeout_witness:
  "\<exists>w'. broadcast_write (null_os\<lparr>os_poll := (\<lambda>fds t w. ((0, map snd fds), w))\<rparr>) sample_cfg
      [Some (client_at 5)] [1, 2, 3] 3 (0 :: nat) = Some (Inr (mkCode SUCCESS, w')) \<and> w' = 0"
  by (rule broadcast_silent_timeout)
    (simp_all add: SocketEventListener_wait_def wait_with_def null_os_def quiet_def)

end
