(* ===== verification/Broadcast_Server.thy ===== *)
theory Broadcast_Server
  imports Broadcast_Write
begin

text \<open>
  \<^verbatim>\<open>SocketBroadcastServerImpl\<close>: the accept-monitor's thread and the thread of the caller as
  two program counters over one shared state. A step is what a thread does between two
  points at which the other can see the difference: a locked region, an operation of the
  listener (which has a lock of its own), a system call with a callback; \<^verbatim>\<open>write\<close>, which
  streams without the lock, stops before each of its waits, before each look at a client's
  socket and before each system call.
\<close>

subsection \<open>State\<close>

text \<open>
  \<^verbatim>\<open>BroadcastClient\<close>: a context and the container of its socket. Clients live on a heap and are
  freed with their last \<^verbatim>\<open>shared_ptr\<close>; the listener holds raw pointers to them and to the
  server's own context.
\<close>

type_synonym client_id = nat

record broadcast_client =
  bc_ctx :: event_context
  bc_container :: "server_socket option"

datatype broadcast_ctx = AcceptCtx | Client client_id

record 'w broadcast_handler =
  bh_connected :: "string \<Rightarrow> nat \<Rightarrow> 'w \<Rightarrow> 'w"
  bh_disconnected :: "string \<Rightarrow> nat \<Rightarrow> 'w \<Rightarrow> 'w"

text \<open>
  Where the monitor is: at the top of its loop; before the lock inside the listener's wait;
  inside the wait, with its copies of the two lists; with the contexts of the events still
  to handle. While it handles an \<^verbatim>\<open>ACCEPT\<close> it holds the new client until it is in the active
  list, then only the address it announces; while it handles a \<^verbatim>\<open>DISCONNECTED\<close> it first
  holds a raw pointer to the unregistered client, then, if it was in the active list, the
  client itself.
\<close>

datatype monitor_pc =
    M_Top
  | M_Poll
  | M_Wait "broadcast_ctx list" "(fd \<times> events) list"
  | M_Dispatch "broadcast_ctx list"
  | M_Accepted client_id string nat "broadcast_ctx list"
  | M_Announce client_id string nat "broadcast_ctx list"
  | M_Unlisted client_id string nat "broadcast_ctx list"
  | M_Erased client_id string nat "broadcast_ctx list"
  | M_End

text \<open>
  Where \<^verbatim>\<open>write\<close> is in its loop over one client, with the locals of that loop: the listener
  (whose descriptor is that of the time it was opened), the retries and \<^verbatim>\<open>written_size\<close>. It is
  about to look at the client, to wait for it, to read the socket's descriptor, or to call
  the kernel's \<^verbatim>\<open>send\<close> with the descriptor it has read.
\<close>

datatype write_pc =
    W_Next
  | W_Wait event_listener nat size_t
  | W_Send event_listener nat size_t
  | W_Call event_listener nat size_t fd

text \<open>
  Where the caller is: outside; in \<^verbatim>\<open>dropAll\<close>, holding the lock, with its vector \<open>dropped\<close> and
  those still registered, then without the lock, with those still to close; in \<^verbatim>\<open>write\<close>,
  with its snapshot, those still to write to (the first of them the current one), the
  buffer, the result so far and the place in the loop over the current one; in
  \<^verbatim>\<open>await\<close>, before the first and before the second lock; in \<^verbatim>\<open>awaitClose\<close>; joining the
  monitor in \<^verbatim>\<open>close\<close>; about to return a result.
\<close>

datatype caller_pc =
    C_Idle
  | C_Unlist "client_id list" "client_id list"
  | C_Drop "client_id list" "client_id list"
  | C_Write "client_id list" "client_id list" "byte list" SocketResult write_pc
  | C_Await
  | C_Await_Count
  | C_AwaitClose
  | C_Join
  | C_Return SocketResult

record 'w broadcast_server =
  br_cfg :: SocketConfiguration
  br_tls :: SocketTLSServerConfiguration
  br_socket :: "base_socket option"
  br_handler :: "'w broadcast_handler option"
  br_monitoring :: bool
  br_listener :: "broadcast_ctx multi_listener"
  br_server_ctx :: event_context
  br_active :: "client_id list"
  br_pending :: "client_id list"
  br_heap :: "client_id \<rightharpoonup> broadcast_client"
  br_next :: client_id
  br_monitor :: monitor_pc
  br_caller :: caller_pc

definition SocketBroadcastServerImpl_new ::
  "SocketConfiguration \<Rightarrow> SocketTLSServerConfiguration \<Rightarrow> 'w broadcast_server" where
  "SocketBroadcastServerImpl_new cfg tls =
     \<lparr>br_cfg = cfg, br_tls = tls, br_socket = None, br_handler = None, br_monitoring = False,
      br_listener = multi_listener_new, br_server_ctx = \<lparr>ec_fd = - 1, ec_type = UNDEFINED\<rparr>,
      br_active = [], br_pending = [], br_heap = Map.empty, br_next = 0,
      br_monitor = M_End, br_caller = C_Idle\<rparr>"

text \<open>The contexts as the listener sees them, and storing back the types its wait has written.\<close>

definition ctx_of :: "'w broadcast_server \<Rightarrow> broadcast_ctx ctx_heap" where
  "ctx_of sv c = (case c of AcceptCtx \<Rightarrow> Some (br_server_ctx sv)
                  | Client i \<Rightarrow> map_option bc_ctx (br_heap sv i))"

definition store_ctx :: "broadcast_ctx ctx_heap \<Rightarrow> 'w broadcast_server \<Rightarrow> 'w broadcast_server" where
  "store_ctx h sv =
     sv\<lparr>br_server_ctx := the (h AcceptCtx),
        br_heap := (\<lambda>i. map_option (\<lambda>c. c\<lparr>bc_ctx := the (h (Client i))\<rparr>) (br_heap sv i))\<rparr>"

text \<open>Who owns which clients, and what is left when the last owner of one is gone.\<close>

fun monitor_owns :: "monitor_pc \<Rightarrow> client_id set" where
  "monitor_owns (M_Accepted i ip port cs) = {i}"
| "monitor_owns (M_Erased i ip port cs) = {i}"
| "monitor_owns _ = {}"

fun caller_owns :: "caller_pc \<Rightarrow> client_id set" where
  "caller_owns (C_Unlist dropped rest) = set dropped"
| "caller_owns (C_Drop dropped rest) = set dropped"
| "caller_owns (C_Write snapshot rest buffer result pos) = set snapshot"
| "caller_owns _ = {}"

definition owned :: "'w broadcast_server \<Rightarrow> client_id set" where
  "owned sv = set (br_active sv) \<union> set (br_pending sv)
     \<union> monitor_owns (br_monitor sv) \<union> caller_owns (br_caller sv)"

definition sweep :: "'w broadcast_server \<Rightarrow> 'w broadcast_server" where
  "sweep sv = sv\<lparr>br_heap := br_heap sv |` owned sv\<rparr>"

text \<open>\<^verbatim>\<open>_clients_mtx\<close> is held across steps only while \<^verbatim>\<open>dropAll\<close> takes clients off the listener.\<close>

fun lock_free :: "caller_pc \<Rightarrow> bool" where
  "lock_free (C_Unlist dropped rest) = False"
| "lock_free _ = True"

subsection \<open>Opening and closing\<close>

text \<open>
  The steps before the server's state is touched are those of the request server's \<^verbatim>\<open>open\<close>,
  without its test for a running server.
\<close>

definition SocketBroadcastServerImpl_open ::
  "'w os \<Rightarrow> 'w broadcast_handler option \<Rightarrow> 'w broadcast_server \<Rightarrow> 'w
   \<Rightarrow> (SocketResult \<times> 'w broadcast_server \<times> 'w) result" where
  "SocketBroadcastServerImpl_open os handler sv w =
     (let cfg = br_cfg sv; ux = cfg_is_unix_domain cfg in
      bindR (PassiveSocketContainer_new os (ts_valid (br_tls sv)) ux w) (\<lambda>(s, w).
        let sv = sv\<lparr>br_socket := Some s\<rparr>; result = bs_result s in
        if sr_code result \<noteq> SUCCESS then Inr (result, sv, w) else
        bindR (c_str (cfg_ip cfg)) (\<lambda>ip.
        bindR (c_str (cfg_port cfg)) (\<lambda>port.
        bindR (SocketAddress_new os ip port True ux w) (\<lambda>(address, w).
          let result = sa_result address in
          if sr_code result \<noteq> SUCCESS then Inr (result, sv, w) else
          let (result, w) = PassiveSocket_bind os s address w in
          if sr_code result \<noteq> SUCCESS then Inr (result, sv, w) else
          let (result, w) = PassiveSocket_listen os s w in
          if sr_code result \<noteq> SUCCESS then Inr (result, sv, w) else
          let l = snd (SocketMultiEventListener_open (br_listener sv));
              sv = sv\<lparr>br_handler := handler, br_listener := l,
                      br_server_ctx := \<lparr>ec_fd = bs_fd s, ec_type = UNDEFINED\<rparr>\<rparr>
          in bindR (addEvent (ctx_of sv) AcceptCtx ACCEPT l) (\<lambda>l.
               let sv = sv\<lparr>br_listener := l\<rparr> in
               if br_monitoring sv then Inr (result, sv, w)
               else Inr (result, sv\<lparr>br_monitoring := True, br_monitor := M_Top\<rparr>, w)))))))"

text \<open>Closing the socket of a client, as all three places that do it write it.\<close>

definition close_client ::
  "'w os \<Rightarrow> client_id \<Rightarrow> 'w broadcast_server \<Rightarrow> 'w \<Rightarrow> ('w broadcast_server \<times> 'w) result" where
  "close_client os i sv w =
     (case br_heap sv i of None \<Rightarrow> Inl UseAfterFree
      | Some c \<Rightarrow>
         (case bc_container c of None \<Rightarrow> Inr (sv, w)
          | Some sock \<Rightarrow>
              let (sock, w) = ServerActiveSocket_close os sock w
              in Inr (sv\<lparr>br_heap := (br_heap sv)(i \<mapsto> c\<lparr>bc_container := Some sock\<rparr>)\<rparr>, w)))"

fun close_clients ::
  "'w os \<Rightarrow> client_id list \<Rightarrow> 'w broadcast_server \<Rightarrow> 'w \<Rightarrow> ('w broadcast_server \<times> 'w) result" where
  "close_clients os [] sv w = Inr (sv, w)"
| "close_clients os (i # is) sv w =
     bindR (close_client os i sv w) (\<lambda>(sv, w). close_clients os is sv w)"

text \<open>What \<^verbatim>\<open>close\<close> does once the monitor has been joined.\<close>

definition finish_close ::
  "'w os \<Rightarrow> 'w broadcast_server \<Rightarrow> 'w \<Rightarrow> ('w broadcast_server \<times> 'w) result" where
  "finish_close os sv w =
     bindR (close_clients os (br_active sv) sv w) (\<lambda>(sv, w).
       let sv = sv\<lparr>br_active := [], br_pending := [],
                   br_listener := SocketMultiEventListener_close (br_listener sv)\<rparr>;
           w = (case br_socket sv of None \<Rightarrow> w | Some s \<Rightarrow> snd (PassiveSocket_close os s w))
       in Inr (sv\<lparr>br_socket := None, br_handler := None, br_caller := C_Idle\<rparr>, w))"

subsection \<open>The monitor's steps\<close>

text \<open>
  What the application is told. The clients of the announcements are the model's names for
  them; the handler itself is given the address.
\<close>

datatype announcement = Connected client_id | Disconnected client_id

definition announce_connected ::
  "'w broadcast_server \<Rightarrow> client_id \<Rightarrow> string \<Rightarrow> nat \<Rightarrow> 'w \<Rightarrow> announcement list \<times> 'w" where
  "announce_connected sv i ip port w =
     (case br_handler sv of None \<Rightarrow> ([], w) | Some h \<Rightarrow> ([Connected i], bh_connected h ip port w))"

definition announce_disconnected ::
  "'w broadcast_server \<Rightarrow> client_id \<Rightarrow> string \<Rightarrow> nat \<Rightarrow> 'w \<Rightarrow> announcement list \<times> 'w" where
  "announce_disconnected sv i ip port w =
     (case br_handler sv of None \<Rightarrow> ([], w)
      | Some h \<Rightarrow> ([Disconnected i], bh_disconnected h ip port w))"

text \<open>\<^verbatim>\<open>snprintf(ip_buf, sizeof(ip_buf), "%s", ip)\<close> into 22 characters.\<close>

definition ip_text :: "server_socket \<Rightarrow> string" where
  "ip_text sock = take 21 (ss_ip sock)"

definition accept_client ::
  "'w os \<Rightarrow> broadcast_ctx list \<Rightarrow> 'w broadcast_server \<Rightarrow> 'w \<Rightarrow> ('w broadcast_server \<times> 'w) result" where
  "accept_client os cs sv w =
     (case br_socket sv of None \<Rightarrow> Inl NullDeref
      | Some s \<Rightarrow>
         let (sock, w) = PassiveSocket_accept os s w in
         if sr_code (bs_result sock) \<noteq> SUCCESS then Inr (sv\<lparr>br_monitor := M_Dispatch cs\<rparr>, w) else
         let w = setNoDelay os (bs_fd sock) w;
             i = br_next sv;
             client = \<lparr>bc_ctx = \<lparr>ec_fd = bs_fd sock, ec_type = UNDEFINED\<rparr>, bc_container = Some sock\<rparr>;
             sv = sv\<lparr>br_heap := (br_heap sv)(i \<mapsto> client), br_next := i + 1\<rparr>
         in bindR (addEvent (ctx_of sv) (Client i) READ (br_listener sv)) (\<lambda>l.
              Inr (sv\<lparr>br_listener := l,
                      br_monitor := M_Accepted i (ip_text sock) (ss_port sock) cs\<rparr>, w)))"

text \<open>Taking a client off the listener; its address is read from its container.\<close>

definition unlist ::
  "broadcast_ctx \<Rightarrow> 'w broadcast_server \<Rightarrow> 'w broadcast_server result" where
  "unlist c sv = bindR (removeEvent (ctx_of sv) c (br_listener sv)) (\<lambda>l. Inr (sv\<lparr>br_listener := l\<rparr>))"

definition client_lost ::
  "client_id \<Rightarrow> broadcast_ctx list \<Rightarrow> 'w broadcast_server \<Rightarrow> 'w broadcast_server result" where
  "client_lost i cs sv =
     bindR (unlist (Client i) sv) (\<lambda>sv.
       case br_heap sv i of None \<Rightarrow> Inl UseAfterFree
       | Some c \<Rightarrow>
          (case bc_container c of None \<Rightarrow> Inl Uninitialised
           | Some sock \<Rightarrow> Inr (sv\<lparr>br_monitor := M_Unlisted i (ip_text sock) (ss_port sock) cs\<rparr>)))"

definition dispatch_event ::
  "'w os \<Rightarrow> broadcast_ctx \<Rightarrow> broadcast_ctx list \<Rightarrow> 'w broadcast_server \<Rightarrow> 'w
   \<Rightarrow> ('w broadcast_server \<times> 'w) result" where
  "dispatch_event os c cs sv w =
     (case ctx_of sv c of None \<Rightarrow> Inl UseAfterFree
      | Some ec \<Rightarrow>
         (case ec_type ec of
            ACCEPT \<Rightarrow> accept_client os cs sv w
          | DISCONNECTED \<Rightarrow>
              (case c of AcceptCtx \<Rightarrow> Inl BadCast
               | Client i \<Rightarrow> bindR (client_lost i cs sv) (\<lambda>sv. Inr (sv, w)))
          | _ \<Rightarrow> Inr (sv\<lparr>br_monitor := M_Dispatch cs\<rparr>, w)))"

text \<open>What the monitor does after its wait.\<close>

definition after_wait ::
  "(SocketResult \<times> broadcast_ctx list \<times> broadcast_ctx ctx_heap \<times> 'w) \<Rightarrow> 'w broadcast_server
   \<Rightarrow> 'w broadcast_server \<times> 'w" where
  "after_wait r sv =
     (case r of (result, contexts, h, w) \<Rightarrow>
        let sv = store_ctx h sv in
        (if sr_code result = SOCKET_TIMEOUT then sv\<lparr>br_monitor := M_Top\<rparr>
         else if sr_code result \<noteq> SUCCESS then sv\<lparr>br_monitor := M_End\<rparr>
         else sv\<lparr>br_monitor := M_Dispatch contexts\<rparr>, w))"

text \<open>
  One step of the monitor: the announcements it makes, the new state and the new world;
  \<open>None\<close> if it waits for the lock or has ended.
\<close>

definition monitor_step ::
  "'w os \<Rightarrow> 'w broadcast_server \<Rightarrow> 'w
   \<Rightarrow> (announcement list \<times> 'w broadcast_server \<times> 'w) result option" where
  "monitor_step os sv w =
     (case br_monitor sv of
        M_Top \<Rightarrow>
          if \<not> br_monitoring sv then Some (Inr ([], sv\<lparr>br_monitor := M_End\<rparr>, w))
          else if \<not> lock_free (br_caller sv) then None
          else Some (Inr ([], sv\<lparr>br_pending := [], br_monitor := M_Poll\<rparr>, w))
      | M_Poll \<Rightarrow>
          Some (Inr ([], sv\<lparr>br_monitor := M_Wait (ml_contexts (br_listener sv))
                                               (ml_handle (br_listener sv))\<rparr>, w))
      | M_Wait contexts handle \<Rightarrow>
          Some (bindR (wait_snapshot os (ml_server (br_listener sv)) contexts handle
                         (cfg_read_timeout (br_cfg sv)) (ctx_of sv) w)
                  (\<lambda>r. Inr ([], after_wait r sv)))
      | M_Dispatch [] \<Rightarrow> Some (Inr ([], sv\<lparr>br_monitor := M_Top\<rparr>, w))
      | M_Dispatch (c # cs) \<Rightarrow> Some (bindR (dispatch_event os c cs sv w) (\<lambda>r. Inr ([], r)))
      | M_Accepted i ip port cs \<Rightarrow>
          if \<not> lock_free (br_caller sv) then None
          else Some (Inr ([], sv\<lparr>br_active := br_active sv @ [i],
                                 br_monitor := M_Announce i ip port cs\<rparr>, w))
      | M_Announce i ip port cs \<Rightarrow>
          let (ns, w) = announce_connected sv i ip port w
          in Some (Inr (ns, sv\<lparr>br_monitor := M_Dispatch cs\<rparr>, w))
      | M_Unlisted i ip port cs \<Rightarrow>
          if \<not> lock_free (br_caller sv) then None
          else if i \<in> set (br_active sv) then
            Some (Inr ([], sv\<lparr>br_active := remove_first (\<lambda>j. j = i) (br_active sv),
                              br_monitor := M_Erased i ip port cs\<rparr>, w))
          else Some (Inr ([], sv\<lparr>br_monitor := M_Dispatch cs\<rparr>, w))
      | M_Erased i ip port cs \<Rightarrow>
          Some (bindR (close_client os i sv w) (\<lambda>(sv, w).
            let (ns, w) = announce_disconnected sv i ip port w
            in Inr (ns, sv\<lparr>br_monitor := M_Dispatch cs\<rparr>, w)))
      | M_End \<Rightarrow> None)"

subsection \<open>The caller's steps\<close>

datatype call = Call_Write "byte list" | Call_DropAll | Call_Await | Call_AwaitClose | Call_Close

text \<open>
  Entering an operation: the first locked region of \<^verbatim>\<open>write\<close> and of \<^verbatim>\<open>dropAll\<close>. \<^verbatim>\<open>close\<close> of a
  server that is not monitoring has no thread to join, which is the same as a thread that
  has ended.
\<close>

fun start_call :: "call \<Rightarrow> 'w broadcast_server \<Rightarrow> 'w broadcast_server" where
  "start_call (Call_Write buffer) sv =
     sv\<lparr>br_caller := (if br_active sv = [] then C_Return (mkResult SUCCESS 0)
                      else C_Write (br_active sv) (br_active sv) buffer (mkCode SUCCESS) W_Next)\<rparr>"
| "start_call Call_DropAll sv =
     sv\<lparr>br_active := [], br_caller := C_Unlist (br_active sv) (br_active sv)\<rparr>"
| "start_call Call_Await sv = sv\<lparr>br_caller := C_Await\<rparr>"
| "start_call Call_AwaitClose sv = sv\<lparr>br_caller := C_AwaitClose\<rparr>"
| "start_call Call_Close sv = sv\<lparr>br_monitoring := False, br_caller := C_Join\<rparr>"

text \<open>The size of a buffer is a \<^verbatim>\<open>size_t\<close>.\<close>

fun call_ok :: "call \<Rightarrow> bool" where
  "call_ok (Call_Write buffer) \<longleftrightarrow> length buffer < 2 ^ 64"
| "call_ok _ \<longleftrightarrow> True"

definition drop_client ::
  "'w os \<Rightarrow> client_id \<Rightarrow> 'w broadcast_server \<Rightarrow> 'w
   \<Rightarrow> (announcement list \<times> 'w broadcast_server \<times> 'w) result" where
  "drop_client os i sv w =
     (case br_heap sv i of None \<Rightarrow> Inl UseAfterFree
      | Some c \<Rightarrow>
         let (ip, port) = (case bc_container c of None \<Rightarrow> ('''', 0)
                           | Some sock \<Rightarrow> (ip_text sock, ss_port sock))
         in bindR (close_client os i sv w) (\<lambda>(sv, w).
              let (ns, w) = announce_disconnected sv i ip port w in Inr (ns, sv, w)))"

text \<open>
  One step of \<^verbatim>\<open>write\<close> at its current client, without the lock: where it is next, or that it is
  done with the client and with which result. The listener of the loop keeps the number of
  the descriptor it was opened with, and \<^verbatim>\<open>send\<close> gets the one read before it, whatever the
  monitor does to the client in between.
\<close>

datatype write_turn = W_At write_pc | W_Done SocketResult

definition write_step ::
  "'w os \<Rightarrow> client_id \<Rightarrow> byte list \<Rightarrow> SocketResult \<Rightarrow> write_pc \<Rightarrow> 'w broadcast_server \<Rightarrow> 'w
   \<Rightarrow> (write_turn \<times> 'w) result" where
  "write_step os i buffer result pos sv w =
     (let n = of_nat (length buffer) :: size_t in
      case pos of
        W_Next \<Rightarrow>
          (case br_heap sv i of None \<Rightarrow> Inl UseAfterFree
           | Some c \<Rightarrow>
              (case bc_container c of None \<Rightarrow> Inr (W_Done result, w)
               | Some sock \<Rightarrow> bindR (SocketEventListener_open (bs_fd sock) WRITE)
                   (\<lambda>l. Inr (W_At (W_Wait l 0 0), w))))
      | W_Wait l k written \<Rightarrow>
          if k < unat (cfg_max_retries (br_cfg sv)) then
            let (r, w) = SocketEventListener_wait os l (cfg_write_timeout (br_cfg sv)) w in
            if sr_code r = SOCKET_TIMEOUT then Inr (W_At (W_Wait l (k + 1) written), w)
            else if sr_code r \<noteq> SUCCESS then
              Inr (W_Done (mkResult (sr_code r) (i32 (uint written))), w)
            else Inr (W_At (W_Send l k written), w)
          else Inr (W_Done (mkCode SUCCESS), w)
      | W_Send l k written \<Rightarrow>
          (case br_heap sv i of None \<Rightarrow> Inl UseAfterFree
           | Some c \<Rightarrow>
              (case bc_container c of None \<Rightarrow> Inl UseAfterFree
               | Some sock \<Rightarrow> Inr (W_At (W_Call l k written (bs_fd sock)), w)))
      | W_Call l k written f \<Rightarrow>
          bindR (read_mem buffer written (n - written)) (\<lambda>chunk.
            let (r, w) = socket_send os f chunk w in
            if sr_code r = SOCKET_TIMEOUT then Inr (W_At (W_Wait l (k + 1) written), w)
            else if sr_code r \<noteq> SUCCESS then
              Inr (W_Done (mkResult (sr_code r) (i32 (uint written))), w)
            else
              let written = written + size_of (sr_bytes r) in
              if n \<le> written then Inr (W_Done (mkResult SUCCESS (i32 (uint written))), w)
              else Inr (W_At (W_Wait l k written), w)))"

text \<open>The results of the two waits, once the wait is over.\<close>

definition await_result :: "'w broadcast_server \<Rightarrow> SocketResult option" where
  "await_result sv =
     (if \<not> br_monitoring sv then Some (mkCode SOCKET_CLOSED)
      else if br_active sv = [] then Some (mkCode SOCKET_TIMEOUT) else None)"

definition await_count :: "'w broadcast_server \<Rightarrow> SocketResult" where
  "await_count sv =
     (if \<not> br_monitoring sv then mkCode SOCKET_CLOSED
      else mkResult SUCCESS (i32 (int (length (br_active sv)))))"

definition awaitClose_result :: "'w broadcast_server \<Rightarrow> SocketResult" where
  "awaitClose_result sv =
     (if \<not> br_monitoring sv then mkCode SOCKET_CLOSED
      else if br_active sv \<noteq> [] then mkResult SOCKET_TIMEOUT (i32 (int (length (br_active sv))))
      else mkResult SUCCESS 0)"

text \<open>
  One step of the caller. \<open>expired\<close> says that the timeout of a wait has passed; without it a
  wait goes on until its predicate holds.
\<close>

definition caller_step ::
  "'w os \<Rightarrow> bool \<Rightarrow> 'w broadcast_server \<Rightarrow> 'w
   \<Rightarrow> (announcement list \<times> 'w broadcast_server \<times> 'w) result option" where
  "caller_step os expired sv w =
     (case br_caller sv of
        C_Idle \<Rightarrow> None
      | C_Unlist dropped [] \<Rightarrow>
          Some (Inr ([], sv\<lparr>br_pending := br_pending sv @ dropped,
                            br_caller := C_Drop dropped dropped\<rparr>, w))
      | C_Unlist dropped (i # rest) \<Rightarrow>
          Some (bindR (unlist (Client i) sv)
                  (\<lambda>sv. Inr ([], sv\<lparr>br_caller := C_Unlist dropped rest\<rparr>, w)))
      | C_Drop dropped [] \<Rightarrow> Some (Inr ([], sv\<lparr>br_caller := C_Idle\<rparr>, w))
      | C_Drop dropped (i # rest) \<Rightarrow>
          Some (bindR (drop_client os i sv w)
                  (\<lambda>(ns, sv, w). Inr (ns, sv\<lparr>br_caller := C_Drop dropped rest\<rparr>, w)))
      | C_Write snapshot [] buffer result pos \<Rightarrow>
          Some (Inr ([], sv\<lparr>br_caller := C_Return result\<rparr>, w))
      | C_Write snapshot (i # rest) buffer result pos \<Rightarrow>
          Some (bindR (write_step os i buffer result pos sv w) (\<lambda>(t, w).
            Inr ([], sv\<lparr>br_caller := (case t of
                   W_At pos \<Rightarrow> C_Write snapshot (i # rest) buffer result pos
                 | W_Done result \<Rightarrow> C_Write snapshot rest buffer result W_Next)\<rparr>, w)))
      | C_Await \<Rightarrow>
          if expired \<or> br_active sv \<noteq> [] \<or> \<not> br_monitoring sv then
            Some (Inr ([], sv\<lparr>br_caller := (case await_result sv of None \<Rightarrow> C_Await_Count
                                            | Some r \<Rightarrow> C_Return r)\<rparr>, w))
          else None
      | C_Await_Count \<Rightarrow> Some (Inr ([], sv\<lparr>br_caller := C_Return (await_count sv)\<rparr>, w))
      | C_AwaitClose \<Rightarrow>
          if expired \<or> br_active sv = [] \<or> \<not> br_monitoring sv then
            Some (Inr ([], sv\<lparr>br_caller := C_Return (awaitClose_result sv)\<rparr>, w))
          else None
      | C_Join \<Rightarrow>
          if br_monitor sv = M_End then Some (bindR (finish_close os sv w) (\<lambda>r. Inr ([], r)))
          else None
      | C_Return result \<Rightarrow> Some (Inr ([], sv\<lparr>br_caller := C_Idle\<rparr>, w)))"

subsection \<open>Executions\<close>

text \<open>
  After each step the clients without an owner are freed. An execution starts where \<^verbatim>\<open>open\<close>
  has returned; its log holds the announcements in order.
\<close>

inductive server_step ::
  "'w os \<Rightarrow> 'w broadcast_server \<times> 'w \<Rightarrow> announcement list \<Rightarrow> 'w broadcast_server \<times> 'w \<Rightarrow> bool"
  for os where
  monitor: "monitor_step os sv w = Some (Inr (ns, sv', w')) \<Longrightarrow>
     server_step os (sv, w) ns (sweep sv', w')"
| caller: "caller_step os expired sv w = Some (Inr (ns, sv', w')) \<Longrightarrow>
     server_step os (sv, w) ns (sweep sv', w')"
| call: "br_caller sv = C_Idle \<Longrightarrow> call_ok c \<Longrightarrow> server_step os (sv, w) [] (start_call c sv, w)"

inductive server_run ::
  "'w os \<Rightarrow> 'w broadcast_server \<times> 'w \<Rightarrow> announcement list \<Rightarrow> 'w broadcast_server \<times> 'w \<Rightarrow> bool"
  for os s0 where
  start: "server_run os s0 [] s0"
| step: "server_run os s0 log s \<Longrightarrow> server_step os s ns s' \<Longrightarrow> server_run os s0 (log @ ns) s'"

inductive_cases server_stepE: "server_step os s ns s'"

end
