(* ===== verification/Broadcast_Safety.thy ===== *)
theory Broadcast_Safety
  imports Broadcast_Server
begin

text \<open>
  The invariant of the broadcast server's two threads, and what follows from it for every
  execution of a session (from \<^verbatim>\<open>open\<close> to \<^verbatim>\<open>close\<close>): no freed client is touched, and each client
  is announced exactly once.
\<close>

subsection \<open>The environment\<close>

text \<open>
  The documented behaviour the server relies on: a new descriptor is one that was not open,
  \<^verbatim>\<open>close\<close> closes its own, nothing else opens or closes any. \<open>opened\<close> is the set of open
  descriptors.
\<close>

definition broadcast_os :: "'w os \<Rightarrow> ('w \<Rightarrow> fd set) \<Rightarrow> bool" where
  "broadcast_os os opened \<longleftrightarrow> quiet os opened
     \<and> (\<forall>s w r a w'. os_accept os s w = ((r, a), w') \<longrightarrow> - 1 \<le> r \<and> r < 2 ^ 31
          \<and> (if 0 \<le> r then r \<notin> opened w \<and> opened w' = insert r (opened w) else opened w' = opened w))
     \<and> (\<forall>s w. opened (os_close os s w) = opened w - {s})
     \<and> (\<forall>u w. - 1 \<le> fst (os_socket os u w) \<and> fst (os_socket os u w) < 2 ^ 31
          \<and> (0 \<le> fst (os_socket os u w) \<longrightarrow> fst (os_socket os u w) \<in> opened (snd (os_socket os u w))))
     \<and> (\<forall>s buf w. opened (snd (os_send os s buf w)) = opened w)
     \<and> (\<forall>s a w. opened (snd (os_bind os s a w)) = opened w)
     \<and> (\<forall>s w. opened (snd (os_listen os s w)) = opened w)
     \<and> (\<forall>ip port sv w. opened (snd (os_getaddrinfo os ip port sv w)) = opened w)
     \<and> (\<forall>s f w. opened (os_setfl os s f w) = opened w)
     \<and> (\<forall>s opt w. opened (os_setsockopt os s opt w) = opened w)"

definition quiet_handler :: "'w broadcast_handler option \<Rightarrow> ('w \<Rightarrow> fd set) \<Rightarrow> bool" where
  "quiet_handler handler opened \<longleftrightarrow>
     (case handler of None \<Rightarrow> True
      | Some h \<Rightarrow> \<forall>ip port w. opened (bh_connected h ip port w) = opened w
                           \<and> opened (bh_disconnected h ip port w) = opened w)"

subsection \<open>Descriptors and ownership\<close>

text \<open>The descriptor of a client whose socket has not been closed.\<close>

definition live_fd :: "(client_id \<rightharpoonup> broadcast_client) \<Rightarrow> client_id \<Rightarrow> fd option" where
  "live_fd heap i =
     (case heap i of None \<Rightarrow> None
      | Some c \<Rightarrow>
         (case bc_container c of None \<Rightarrow> None
          | Some sock \<Rightarrow>
              if bs_fd sock = ec_fd (bc_ctx c) \<and> 0 \<le> bs_fd sock then Some (bs_fd sock) else None))"

definition ctx_fd :: "fd \<Rightarrow> (client_id \<rightharpoonup> broadcast_client) \<Rightarrow> broadcast_ctx \<Rightarrow> fd" where
  "ctx_fd F heap c =
     (case c of AcceptCtx \<Rightarrow> F
      | Client i \<Rightarrow> (case heap i of None \<Rightarrow> - 1 | Some c \<Rightarrow> ec_fd (bc_ctx c)))"

text \<open>
  The clients that will still be announced as disconnected, each held in exactly one place:
  the active list, the rest of \<^verbatim>\<open>dropAll\<close>'s work, the monitor.
\<close>

fun to_drop :: "caller_pc \<Rightarrow> client_id list" where
  "to_drop (C_Unlist dropped rest) = dropped"
| "to_drop (C_Drop dropped rest) = rest"
| "to_drop _ = []"

fun held :: "monitor_pc \<Rightarrow> client_id list" where
  "held (M_Accepted i ip port cs) = [i]"
| "held (M_Erased i ip port cs) = [i]"
| "held _ = []"

definition tokens :: "'w broadcast_server \<Rightarrow> client_id list" where
  "tokens sv = br_active sv @ to_drop (br_caller sv) @ held (br_monitor sv)"

text \<open>The clients the listener may know, and those a context pointer of the monitor may mean.\<close>

fun still_listed :: "caller_pc \<Rightarrow> client_id list" where
  "still_listed (C_Unlist dropped rest) = rest"
| "still_listed _ = []"

fun detached :: "caller_pc \<Rightarrow> client_id list" where
  "detached (C_Unlist dropped rest) = dropped"
| "detached _ = []"

fun accepted :: "monitor_pc \<Rightarrow> client_id list" where
  "accepted (M_Accepted i ip port cs) = [i]"
| "accepted _ = []"

fun unlisted :: "monitor_pc \<Rightarrow> client_id set" where
  "unlisted (M_Unlisted i ip port cs) = {i}"
| "unlisted _ = {}"

definition listed :: "'w broadcast_server \<Rightarrow> client_id set" where
  "listed sv = set (br_active sv) \<union> set (still_listed (br_caller sv)) \<union> set (accepted (br_monitor sv))
     - unlisted (br_monitor sv)"

definition kept :: "'w broadcast_server \<Rightarrow> client_id set" where
  "kept sv = set (br_active sv) \<union> set (br_pending sv) \<union> set (detached (br_caller sv))"

subsection \<open>The parts of the invariant\<close>

definition events_kept :: "client_id set \<Rightarrow> broadcast_ctx list \<Rightarrow> bool" where
  "events_kept K cs \<longleftrightarrow> distinct cs \<and> (\<forall>i. Client i \<in> set cs \<longrightarrow> i \<in> K)"

fun monitor_ok :: "client_id set \<Rightarrow> (broadcast_ctx \<Rightarrow> fd) \<Rightarrow> monitor_pc \<Rightarrow> bool" where
  "monitor_ok K fd_of (M_Wait cs hs) \<longleftrightarrow> (\<forall>i. Client i \<in> set cs \<longrightarrow> i \<in> K)
     \<and> distinct (map fst hs) \<and> fst ` set hs \<subseteq> fd_of ` set cs"
| "monitor_ok K fd_of (M_Dispatch cs) \<longleftrightarrow> events_kept K cs"
| "monitor_ok K fd_of (M_Accepted i ip port cs) \<longleftrightarrow> events_kept K cs"
| "monitor_ok K fd_of (M_Announce i ip port cs) \<longleftrightarrow> events_kept K cs"
| "monitor_ok K fd_of (M_Unlisted i ip port cs) \<longleftrightarrow> events_kept K (Client i # cs)"
| "monitor_ok K fd_of (M_Erased i ip port cs) \<longleftrightarrow> Client i \<notin> set cs \<and> events_kept K cs"
| "monitor_ok K fd_of _ \<longleftrightarrow> True"

fun write_ok :: "nat \<Rightarrow> write_pc \<Rightarrow> bool" where
  "write_ok n (W_Call l k written f) \<longleftrightarrow> unat written \<le> n"
| "write_ok n (W_Wait l k written) \<longleftrightarrow> unat written \<le> n"
| "write_ok n (W_Send l k written) \<longleftrightarrow> unat written \<le> n"
| "write_ok n W_Next \<longleftrightarrow> True"

fun caller_ok :: "caller_pc \<Rightarrow> bool" where
  "caller_ok (C_Unlist dropped rest) \<longleftrightarrow> set rest \<subseteq> set dropped"
| "caller_ok (C_Drop dropped rest) \<longleftrightarrow> set rest \<subseteq> set dropped"
| "caller_ok (C_Write snapshot rest buffer result pos) \<longleftrightarrow> set rest \<subseteq> set snapshot
     \<and> length buffer < 2 ^ 64 \<and> write_ok (length buffer) pos"
| "caller_ok _ \<longleftrightarrow> True"

text \<open>
  The listener: no context twice, the accept context among them, clients only if they may be
  listed; every watched descriptor once, and that of a known context.
\<close>

definition listener_ok ::
  "fd \<Rightarrow> (client_id \<Rightarrow> fd option) \<Rightarrow> client_id set \<Rightarrow> broadcast_ctx multi_listener \<Rightarrow> bool" where
  "listener_ok F live L l \<longleftrightarrow> distinct (ml_contexts l) \<and> AcceptCtx \<in> set (ml_contexts l)
     \<and> (\<forall>i. Client i \<in> set (ml_contexts l) \<longrightarrow> i \<in> L)
     \<and> distinct (map fst (ml_handle l))
     \<and> (\<forall>f \<in> fst ` set (ml_handle l). f = F \<or> (\<exists>i. Client i \<in> set (ml_contexts l) \<and> live i = Some f))"

definition heap_ok ::
  "fd \<Rightarrow> fd set \<Rightarrow> client_id \<Rightarrow> (client_id \<rightharpoonup> broadcast_client) \<Rightarrow> bool" where
  "heap_ok F opened next heap \<longleftrightarrow> 0 \<le> F \<and> F \<in> opened \<and> (\<forall>i \<in> dom heap. i < next)
     \<and> (\<forall>i c. heap i = Some c \<longrightarrow> (\<exists>sock. bc_container c = Some sock
          \<and> (live_fd heap i = Some (bs_fd sock) \<or> bs_fd sock = - 1)))
     \<and> (\<forall>i f. live_fd heap i = Some f \<longrightarrow> f \<in> opened \<and> f \<noteq> F)
     \<and> (\<forall>i j f. live_fd heap i = Some f \<longrightarrow> live_fd heap j = Some f \<longrightarrow> i = j)"

definition token_ok :: "'w broadcast_server \<Rightarrow> bool" where
  "token_ok sv \<longleftrightarrow> distinct (tokens sv) \<and> (\<forall>i \<in> set (tokens sv). i < br_next sv) \<and> caller_ok (br_caller sv)"

definition server_inv :: "fd \<Rightarrow> ('w \<Rightarrow> fd set) \<Rightarrow> 'w broadcast_server \<Rightarrow> 'w \<Rightarrow> bool" where
  "server_inv F opened sv w \<longleftrightarrow> br_socket sv \<noteq> None \<and> ec_fd (br_server_ctx sv) = F
     \<and> quiet_handler (br_handler sv) opened
     \<and> token_ok sv
     \<and> heap_ok F (opened w) (br_next sv) (br_heap sv)
     \<and> owned sv \<subseteq> dom (br_heap sv)
     \<and> (\<forall>i \<in> listed sv. live_fd (br_heap sv) i \<noteq> None)
     \<and> listener_ok F (live_fd (br_heap sv)) (listed sv) (br_listener sv)
     \<and> monitor_ok (kept sv) (ctx_fd F (br_heap sv)) (br_monitor sv)"

lemmas server_defs = server_inv_def token_ok_def tokens_def owned_def listed_def kept_def

subsection \<open>The listener's operations\<close>

lemma listener_add:
  assumes "listener_ok F live L l" and "h (Client i) = Some ec" and "live i = Some (ec_fd ec)"
    and "i \<notin> L" and "ec_fd ec \<notin> fst ` set (ml_handle l)"
  shows "\<exists>l'. addEvent h (Client i) READ l = Inr l' \<and> listener_ok F live (insert i L) l'"
  using assms by (auto simp: listener_ok_def addEvent_def)

lemma listener_remove:
  assumes ok: "listener_ok F live L l" and "h (Client i) = Some ec"
    and live: "Client i \<in> set (ml_contexts l) \<Longrightarrow> live i = Some (ec_fd ec)"
  shows "\<exists>l'. removeEvent h (Client i) l = Inr l' \<and> listener_ok F live (L - {i}) l'"
proof -
  let ?hs = "remove_first (\<lambda>p. fst p = ec_fd ec) (ml_handle l)"
  let ?cs = "remove1 (Client i) (ml_contexts l)"
  have fds: "distinct (map fst (ml_handle l))" and cs: "distinct (ml_contexts l)"
    using ok by (simp_all add: listener_ok_def)
  have hs: "set ?hs = {p \<in> set (ml_handle l). fst p \<noteq> ec_fd ec}"
    by (rule set_remove_first_distinct [OF fds])
  have "f = F \<or> (\<exists>j. Client j \<in> set ?cs \<and> live j = Some f)" if f: "f \<in> fst ` set ?hs" for f
  proof -
    from f hs have "f \<in> fst ` set (ml_handle l)" "f \<noteq> ec_fd ec" by auto
    with ok obtain j where "f = F \<or> Client j \<in> set (ml_contexts l) \<and> live j = Some f"
      by (auto simp: listener_ok_def)
    with live \<open>f \<noteq> ec_fd ec\<close> cs show ?thesis by (cases "j = i") auto
  qed
  moreover have "distinct (map fst ?hs)"
    using distinct_remove_first [OF fds, of "\<lambda>f. f = ec_fd ec"]
      map_remove_first [of fst "\<lambda>f. f = ec_fd ec" "ml_handle l"] by simp
  ultimately show ?thesis
    using assms cs by (auto simp: removeEvent_def listener_ok_def remove_first_remove1)
qed

lemma listener_cong:
  "listener_ok F live L l \<Longrightarrow> (\<And>j. j \<in> L \<Longrightarrow> live' j = live j) \<Longrightarrow> listener_ok F live' L l"
  by (auto simp: listener_ok_def)

lemma listener_mono: "listener_ok F live L l \<Longrightarrow> L \<subseteq> L' \<Longrightarrow> listener_ok F live L' l"
  by (auto simp: listener_ok_def)

text \<open>
  The wait on its copies of the two lists: every descriptor has a context among the copies,
  so none is missing, and each context is reported once.
\<close>

lemma find_context_fd:
  assumes "\<And>c. c \<in> set cs \<Longrightarrow> h c \<noteq> None" and "\<exists>c \<in> set cs. map_option ec_fd (h c) = Some f"
  shows "\<exists>c ec. find_context h cs f = Inr (Some c) \<and> c \<in> set cs \<and> h c = Some ec \<and> ec_fd ec = f"
  using assms
proof (induction cs)
  case (Cons d cs)
  then obtain ed where "h d = Some ed" by fastforce
  with Cons show ?case by (cases "ec_fd ed = f") auto
qed simp

lemma collect_copies:
  assumes "\<And>c. c \<in> set cs \<Longrightarrow> h c \<noteq> None" and "distinct (map fst hs)"
    and "\<And>f. f \<in> fst ` set hs \<Longrightarrow> \<exists>c \<in> set cs. map_option ec_fd (h c) = Some f"
  shows "\<exists>evs h'. collect_events server cs (zip hs revs) h = Inr (evs, h') \<and> same_fds h h'
    \<and> distinct evs \<and> set evs \<subseteq> set cs
    \<and> (\<forall>c \<in> set evs. \<exists>f \<in> fst ` set hs. map_option ec_fd (h c) = Some f)"
  using assms
proof (induction hs arbitrary: revs h)
  case Nil
  then show ?case by auto
next
  case (Cons p hs)
  show ?case
  proof (cases revs)
    case Nil
    then show ?thesis by auto
  next
    case (Cons r revs')
    have sub: "\<And>f. f \<in> fst ` set hs \<Longrightarrow> \<exists>c \<in> set cs. map_option ec_fd (h c) = Some f"
      using Cons.prems(3) by simp
    have dist: "distinct (map fst hs)" "fst p \<notin> fst ` set hs" using Cons.prems(2) by auto
    show ?thesis
    proof (cases "r = 0")
      case True
      with Cons.IH [OF Cons.prems(1) dist(1) sub, of revs'] \<open>revs = r # revs'\<close>
      show ?thesis by (cases p) auto
    next
      case False
      obtain c ec where c: "find_context h cs (fst p) = Inr (Some c)" "c \<in> set cs" "h c = Some ec"
          "ec_fd ec = fst p"
        using find_context_fd [of cs h "fst p"] Cons.prems(1,3) by auto
      let ?h1 = "h(c \<mapsto> ec\<lparr>ec_type := event_type server (fst p) r (ec_type ec)\<rparr>)"
      have same: "same_fds h ?h1" using c(3) by (simp add: same_fds_def)
      then have fd: "map_option ec_fd (?h1 d) = map_option ec_fd (h d)" for d
        by (simp add: same_fds_def)
      have "\<And>d. d \<in> set cs \<Longrightarrow> ?h1 d \<noteq> None" using Cons.prems(1) by simp
      moreover have "\<And>f. f \<in> fst ` set hs \<Longrightarrow> \<exists>d \<in> set cs. map_option ec_fd (?h1 d) = Some f"
        unfolding fd using sub .
      ultimately obtain evs h' where rest: "collect_events server cs (zip hs revs') ?h1 = Inr (evs, h')"
          "same_fds ?h1 h'" "distinct evs" "set evs \<subseteq> set cs"
          "\<forall>d \<in> set evs. \<exists>f \<in> fst ` set hs. map_option ec_fd (?h1 d) = Some f"
        using Cons.IH [of ?h1 revs'] dist(1) by blast
      have "c \<notin> set evs"
      proof
        assume "c \<in> set evs"
        then obtain f where "f \<in> fst ` set hs" "map_option ec_fd (h c) = Some f"
          using rest(5) unfolding fd by blast
        with c(3,4) dist(2) show False by simp
      qed
      moreover have "same_fds h h'" by (rule same_fds_trans [OF same rest(2)])
      ultimately show ?thesis
        using rest c False \<open>revs = r # revs'\<close> unfolding fd by (cases p) auto
    qed
  qed
qed

subsection \<open>The heap of clients\<close>

lemma live_fd_cases:
  "live_fd heap i = Some f \<longleftrightarrow>
     (\<exists>c sock. heap i = Some c \<and> bc_container c = Some sock \<and> bs_fd sock = f
        \<and> ec_fd (bc_ctx c) = f \<and> 0 \<le> f)"
  by (auto simp: live_fd_def split: option.splits)

lemma live_fd_restrict [simp]:
  "live_fd (heap |` A) i = (if i \<in> A then live_fd heap i else None)"
  by (simp add: live_fd_def restrict_map_def)

lemma ctx_fd_restrict: "i \<in> A \<Longrightarrow> ctx_fd F (heap |` A) (Client i) = ctx_fd F heap (Client i)"
  by (simp add: ctx_fd_def restrict_map_def)

lemma restrict_Some: "(m |` A) x = Some y \<longleftrightarrow> x \<in> A \<and> m x = Some y"
  by (simp add: restrict_map_def)

lemma heap_ok_restrict: "heap_ok F O1 n heap \<Longrightarrow> heap_ok F O1 n (heap |` A)"
  unfolding heap_ok_def by (auto simp: restrict_Some split: if_splits)

lemma heap_ok_mono: "heap_ok F O1 n heap \<Longrightarrow> O1 \<subseteq> O2 \<Longrightarrow> heap_ok F O2 n heap"
  unfolding heap_ok_def by blast

text \<open>A change of event types changes no descriptor and no container.\<close>

definition client_view ::
  "(client_id \<rightharpoonup> broadcast_client) \<Rightarrow> client_id \<rightharpoonup> fd \<times> server_socket option" where
  "client_view heap i = map_option (\<lambda>c. (ec_fd (bc_ctx c), bc_container c)) (heap i)"

lemma live_fd_view:
  "live_fd heap i =
     (case client_view heap i of Some (f, Some sock) \<Rightarrow>
        if bs_fd sock = f \<and> 0 \<le> bs_fd sock then Some (bs_fd sock) else None
      | _ \<Rightarrow> None)"
  by (simp add: live_fd_def client_view_def split: option.split)

lemma ctx_fd_view:
  "ctx_fd F heap c =
     (case c of AcceptCtx \<Rightarrow> F
      | Client i \<Rightarrow> (case client_view heap i of None \<Rightarrow> - 1 | Some (f, sock) \<Rightarrow> f))"
  by (simp add: ctx_fd_def client_view_def split: option.split broadcast_ctx.split)

lemma same_view:
  assumes "client_view heap' = client_view heap"
  shows "live_fd heap' = live_fd heap" and "ctx_fd F heap' = ctx_fd F heap" and "dom heap' = dom heap"
    and "heap_ok F O1 n heap' \<longleftrightarrow> heap_ok F O1 n heap"
proof -
  have eq: "map_option (\<lambda>c. (ec_fd (bc_ctx c), bc_container c)) (heap' i)
      = map_option (\<lambda>c. (ec_fd (bc_ctx c), bc_container c)) (heap i)" for i
    using fun_cong [OF assms, of i] by (simp add: client_view_def)
  show live: "live_fd heap' = live_fd heap" by (rule ext) (simp add: live_fd_view assms)
  show "ctx_fd F heap' = ctx_fd F heap" by (rule ext) (simp only: ctx_fd_view assms)
  show dom: "dom heap' = dom heap"
  proof (rule set_eqI)
    fix i
    show "i \<in> dom heap' \<longleftrightarrow> i \<in> dom heap" using eq [of i] by (cases "heap i") auto
  qed
  have "(\<forall>c. heap' i = Some c \<longrightarrow> (\<exists>sock. bc_container c = Some sock \<and> P i sock))
      \<longleftrightarrow> (\<forall>c. heap i = Some c \<longrightarrow> (\<exists>sock. bc_container c = Some sock \<and> P i sock))" for i P
    using eq [of i] by (cases "heap i"; cases "heap' i") auto
  from this [where P = "\<lambda>i sock. live_fd heap i = Some (bs_fd sock) \<or> bs_fd sock = - 1"]
  have "(\<forall>i c. heap' i = Some c \<longrightarrow> (\<exists>sock. bc_container c = Some sock
          \<and> (live_fd heap i = Some (bs_fd sock) \<or> bs_fd sock = - 1)))
      \<longleftrightarrow> (\<forall>i c. heap i = Some c \<longrightarrow> (\<exists>sock. bc_container c = Some sock
          \<and> (live_fd heap i = Some (bs_fd sock) \<or> bs_fd sock = - 1)))"
    by (rule arg_cong [where f = All, OF ext])
  then show "heap_ok F O1 n heap' \<longleftrightarrow> heap_ok F O1 n heap"
    by (simp only: heap_ok_def live dom)
qed

lemma live_fd_upd:
  "live_fd (heap(i \<mapsto> c)) = (live_fd heap)(i :=
     (case bc_container c of None \<Rightarrow> None
      | Some sock \<Rightarrow> if bs_fd sock = ec_fd (bc_ctx c) \<and> 0 \<le> bs_fd sock then Some (bs_fd sock) else None))"
  by (rule ext) (simp add: live_fd_def)

lemma heap_ok_add:
  assumes "heap_ok F O1 n heap" and "bc_container c = Some sock" and "ec_fd (bc_ctx c) = bs_fd sock"
    and "0 \<le> bs_fd sock" and "bs_fd sock \<notin> O1"
  shows "heap_ok F (insert (bs_fd sock) O1) (n + 1) (heap(n \<mapsto> c))"
proof -
  have "n \<notin> dom heap" using assms(1) unfolding heap_ok_def by blast
  then have n: "live_fd heap n = None" by (simp add: live_fd_def domIff)
  show ?thesis
    using assms n unfolding heap_ok_def live_fd_upd by (auto simp: less_Suc_eq)
qed

lemma heap_ok_close:
  assumes ok: "heap_ok F O1 n heap" and c: "heap i = Some c" "bc_container c = Some sock"
  shows "heap_ok F (O1 - {bs_fd sock}) n (heap(i \<mapsto> c\<lparr>bc_container := Some (sock\<lparr>bs_fd := - 1\<rparr>)\<rparr>))"
proof -
  have sock: "live_fd heap i = Some (bs_fd sock) \<or> bs_fd sock = - 1"
    using ok c unfolding heap_ok_def by fastforce
  have f: "bs_fd sock \<noteq> F" using ok sock unfolding heap_ok_def by fastforce
  have "f \<noteq> bs_fd sock" if "live_fd heap j = Some f" "j \<noteq> i" for j f
  proof -
    have "0 \<le> f" using that(1) by (auto simp: live_fd_cases)
    with sock that ok show ?thesis unfolding heap_ok_def by auto
  qed
  moreover have "i < n" using ok c(1) unfolding heap_ok_def by blast
  ultimately show ?thesis
    using ok f unfolding heap_ok_def live_fd_upd by auto
qed

subsection \<open>What the calls do to the descriptors\<close>

lemma broadcast_osD:
  assumes "broadcast_os os opened"
  shows "os_accept os s w = ((r, a), w') \<Longrightarrow> - 1 \<le> r \<and> r < 2 ^ 31
          \<and> (if 0 \<le> r then r \<notin> opened w \<and> opened w' = insert r (opened w) else opened w' = opened w)"
    and "opened (os_close os s w) = opened w - {s}"
    and "opened (os_setfl os s f w) = opened w"
    and "opened (os_setsockopt os s opt w) = opened w"
    and "opened (snd (os_send os s buf w)) = opened w"
    and "opened (snd (os_poll os fds t w)) = opened w"
    and "quiet os opened"
  using assms unfolding broadcast_os_def quiet_def by simp_all

lemma accept_opened:
  assumes os: "broadcast_os os opened" and acc: "PassiveSocket_accept os s w = (sock, w')"
  shows "opened w \<subseteq> opened w' \<and> (sr_code (bs_result sock) = SUCCESS \<longrightarrow>
     0 \<le> bs_fd sock \<and> bs_fd sock \<notin> opened w \<and> opened w' = insert (bs_fd sock) (opened w))"
proof -
  obtain r a w1 where raw: "os_accept os (bs_fd s) w = ((r, a), w1)" by (metis prod.exhaust)
  note r = broadcast_osD(1) [OF os raw]
  then have "i32 r = r" by (intro i32_small) simp_all
  moreover have "opened (setNonBlockingMode os r v) = opened v" for v
    by (simp add: setNonBlockingMode_def broadcast_osD(3) [OF os])
  ultimately show ?thesis
    using acc raw r
    by (auto simp: PassiveSocket_accept_def ServerActiveSocket_new_def Let_def result_simps
        split: if_splits)
qed

lemma announce_opened:
  "quiet_handler (br_handler sv) opened \<Longrightarrow> announce_connected sv i ip port w = (ns, w') \<Longrightarrow>
   opened w' = opened w"
  "quiet_handler (br_handler sv) opened \<Longrightarrow> announce_disconnected sv i ip port w = (ns, w') \<Longrightarrow>
   opened w' = opened w"
  by (auto simp: quiet_handler_def announce_connected_def announce_disconnected_def split: option.splits)

subsection \<open>Freeing and lists\<close>

lemma listed_owned: "caller_ok (br_caller sv) \<Longrightarrow> listed sv \<subseteq> owned sv"
  unfolding listed_def owned_def
  by (cases "br_caller sv"; cases "br_monitor sv") auto

lemma kept_owned: "kept sv \<subseteq> owned sv"
  unfolding kept_def owned_def by (cases "br_caller sv") auto

lemma monitor_ok_restrict:
  "K \<subseteq> A \<Longrightarrow> monitor_ok K (ctx_fd F heap) m \<Longrightarrow> monitor_ok K (ctx_fd F (heap |` A)) m"
proof (cases m)
  case (M_Wait cs hs)
  assume "K \<subseteq> A" and ok: "monitor_ok K (ctx_fd F heap) m"
  then have "ctx_fd F (heap |` A) c = ctx_fd F heap c" if "c \<in> set cs" for c
    using that M_Wait by (cases c) (auto simp: ctx_fd_restrict ctx_fd_def)
  then have "ctx_fd F (heap |` A) ` set cs = ctx_fd F heap ` set cs" by (rule image_cong [OF refl])
  with ok M_Wait show ?thesis by simp
qed simp_all

lemma sweep_inv:
  assumes "server_inv F opened sv w"
  shows "server_inv F opened (sweep sv) w"
proof -
  have l: "listed sv \<subseteq> owned sv" and k: "kept sv \<subseteq> owned sv"
    using assms listed_owned [of sv] kept_owned [of sv] by (simp_all add: server_inv_def token_ok_def)
  have eqs: "token_ok (sweep sv) = token_ok sv" "owned (sweep sv) = owned sv"
    "listed (sweep sv) = listed sv" "kept (sweep sv) = kept sv"
    by (simp_all add: sweep_def server_defs)
  have "listener_ok F (live_fd (br_heap sv |` owned sv)) (listed sv) (br_listener sv)"
    by (rule listener_cong [of F "live_fd (br_heap sv)"]) (use assms l in \<open>auto simp: server_inv_def\<close>)
  moreover have "monitor_ok (kept sv) (ctx_fd F (br_heap sv |` owned sv)) (br_monitor sv)"
    using assms k monitor_ok_restrict by (auto simp: server_inv_def)
  ultimately show ?thesis
    using assms l unfolding server_inv_def eqs by (auto simp: sweep_def heap_ok_restrict)
qed

subsection \<open>The monitor keeps the invariant\<close>

lemma events_kept_mono: "events_kept K cs \<Longrightarrow> K \<subseteq> K' \<Longrightarrow> events_kept K' cs"
  by (auto simp: events_kept_def)

lemma events_kept_Cons:
  "events_kept K (c # cs) \<longleftrightarrow> c \<notin> set cs \<and> (\<forall>i. c = Client i \<longrightarrow> i \<in> K) \<and> events_kept K cs"
  by (auto simp: events_kept_def)

lemma monitor_ok_mono: "monitor_ok K fd_of m \<Longrightarrow> K \<subseteq> K' \<Longrightarrow> monitor_ok K' fd_of m"
  by (cases m) (auto simp: events_kept_def)

text \<open>Moves of the monitor between pcs that hold and list the same clients.\<close>

lemma inv_move:
  assumes "server_inv F opened sv w"
    and "held m = held (br_monitor sv)" and "accepted m = accepted (br_monitor sv)"
    and "unlisted m = unlisted (br_monitor sv)"
    and "monitor_owns m \<subseteq> monitor_owns (br_monitor sv)"
    and "monitor_ok (kept sv) (ctx_fd F (br_heap sv)) m"
  shows "server_inv F opened (sv\<lparr>br_monitor := m\<rparr>) w"
  using assms by (auto simp: server_defs)

lemma inv_world: "server_inv F opened sv w \<Longrightarrow> opened w \<subseteq> opened w' \<Longrightarrow> server_inv F opened sv w'"
  by (auto simp: server_inv_def heap_ok_mono)

lemma copy_lists_ok:
  assumes "server_inv F opened sv w" and "br_monitor sv = M_Poll"
  shows "monitor_ok (kept sv) (ctx_fd F (br_heap sv))
    (M_Wait (ml_contexts (br_listener sv)) (ml_handle (br_listener sv)))"
proof -
  let ?l = "br_listener sv"
  have l: "listener_ok F (live_fd (br_heap sv)) (listed sv) ?l" and co: "caller_ok (br_caller sv)"
    using assms(1) by (simp_all add: server_inv_def token_ok_def)
  have "listed sv \<subseteq> kept sv"
    using co assms(2) by (cases "br_caller sv") (auto simp: listed_def kept_def)
  then have "\<forall>i. Client i \<in> set (ml_contexts ?l) \<longrightarrow> i \<in> kept sv"
    using l by (auto simp: listener_ok_def)
  moreover have "f \<in> ctx_fd F (br_heap sv) ` set (ml_contexts ?l)" if "f \<in> fst ` set (ml_handle ?l)" for f
  proof -
    have F: "ctx_fd F (br_heap sv) AcceptCtx = F" by (simp add: ctx_fd_def)
    from l that consider "f = F" | i where "Client i \<in> set (ml_contexts ?l)" "live_fd (br_heap sv) i = Some f"
      by (auto simp: listener_ok_def)
    then show ?thesis
    proof cases
      case 1
      have "AcceptCtx \<in> set (ml_contexts ?l)" using l by (simp add: listener_ok_def)
      from imageI [OF this, of "ctx_fd F (br_heap sv)"] 1 F show ?thesis by simp
    next
      case 2
      then have "ctx_fd F (br_heap sv) (Client i) = f" by (auto simp: live_fd_cases ctx_fd_def)
      with imageI [OF 2(1), of "ctx_fd F (br_heap sv)"] show ?thesis by simp
    qed
  qed
  ultimately show ?thesis using l by (auto simp: listener_ok_def)
qed

lemma ctx_of_fd:
  assumes "ec_fd (br_server_ctx sv) = F" and "c = AcceptCtx \<or> (\<exists>i. c = Client i \<and> i \<in> dom (br_heap sv))"
  shows "map_option ec_fd (ctx_of sv c) = Some (ctx_fd F (br_heap sv) c)"
  using assms by (auto simp: ctx_of_def ctx_fd_def)

lemma store_ctx_view:
  assumes "same_fds (ctx_of sv) h"
  shows "client_view (br_heap (store_ctx h sv)) = client_view (br_heap sv)"
    and "ec_fd (br_server_ctx (store_ctx h sv)) = ec_fd (br_server_ctx sv)"
proof -
  have h: "map_option ec_fd (h c) = map_option ec_fd (ctx_of sv c)" for c
    using assms by (simp add: same_fds_def)
  show "client_view (br_heap (store_ctx h sv)) = client_view (br_heap sv)"
  proof (rule ext)
    fix i
    show "client_view (br_heap (store_ctx h sv)) i = client_view (br_heap sv) i"
      using h [of "Client i"]
      by (cases "br_heap sv i") (auto simp: client_view_def store_ctx_def ctx_of_def)
  qed
  show "ec_fd (br_server_ctx (store_ctx h sv)) = ec_fd (br_server_ctx sv)"
    using h [of AcceptCtx] by (auto simp: store_ctx_def ctx_of_def)
qed

lemma store_ctx_frame [simp]:
  "br_socket (store_ctx h sv) = br_socket sv" "br_handler (store_ctx h sv) = br_handler sv"
  "br_active (store_ctx h sv) = br_active sv" "br_pending (store_ctx h sv) = br_pending sv"
  "br_next (store_ctx h sv) = br_next sv" "br_listener (store_ctx h sv) = br_listener sv"
  "br_monitor (store_ctx h sv) = br_monitor sv" "br_caller (store_ctx h sv) = br_caller sv"
  "br_monitoring (store_ctx h sv) = br_monitoring sv" "br_cfg (store_ctx h sv) = br_cfg sv"
  by (simp_all add: store_ctx_def)

lemma inv_store:
  assumes inv: "server_inv F opened sv w" and "same_fds (ctx_of sv) h"
  shows "server_inv F opened (store_ctx h sv) w"
proof -
  note view = store_ctx_view [OF assms(2)]
  have "tokens (store_ctx h sv) = tokens sv" "owned (store_ctx h sv) = owned sv"
    "listed (store_ctx h sv) = listed sv" "kept (store_ctx h sv) = kept sv"
    by (simp_all add: tokens_def owned_def listed_def kept_def)
  with inv view(2) same_view [OF view(1)] show ?thesis by (simp add: server_inv_def token_ok_def)
qed

lemma wait_copies:
  assumes inv: "server_inv F opened sv w" and os: "broadcast_os os opened"
    and m: "br_monitor sv = M_Wait cs hs"
  shows "\<exists>r. wait_snapshot os srv cs hs t (ctx_of sv) w = Inr r
    \<and> server_inv F opened (fst (after_wait r sv)) (snd (after_wait r sv))"
proof -
  obtain ret revs w1 where poll: "os_poll os hs t w = ((ret, revs), w1)" by (metis prod.exhaust)
  have o1: "opened w1 = opened w" using broadcast_osD(6) [OF os, of hs t w] poll by simp
  have ok: "\<forall>i. Client i \<in> set cs \<longrightarrow> i \<in> kept sv" "distinct (map fst hs)"
      "fst ` set hs \<subseteq> ctx_fd F (br_heap sv) ` set cs"
    and F: "ec_fd (br_server_ctx sv) = F" and own: "owned sv \<subseteq> dom (br_heap sv)"
    using inv m by (simp_all add: server_inv_def)
  have alive: "map_option ec_fd (ctx_of sv c) = Some (ctx_fd F (br_heap sv) c)" if "c \<in> set cs" for c
    by (rule ctx_of_fd [OF F], cases c) (use that ok(1) kept_owned [of sv] own in blast)+
  have c1: "ctx_of sv c \<noteq> None" if "c \<in> set cs" for c using alive [OF that] by auto
  have c2: "\<exists>c \<in> set cs. map_option ec_fd (ctx_of sv c) = Some f" if "f \<in> fst ` set hs" for f
  proof -
    from subsetD [OF ok(3) that] obtain c where "f = ctx_fd F (br_heap sv) c" "c \<in> set cs" by (rule imageE)
    with alive show ?thesis by (intro bexI [of _ c]) simp_all
  qed
  obtain evs h' where col: "collect_events srv cs (zip hs revs) (ctx_of sv) = Inr (evs, h')"
      "same_fds (ctx_of sv) h'" "distinct evs" "set evs \<subseteq> set cs"
    using collect_copies [OF c1 ok(2) c2, of srv revs] by blast
  have move: "server_inv F opened ((store_ctx h sv)\<lparr>br_monitor := m'\<rparr>) w1"
    if "same_fds (ctx_of sv) h" and "monitor_ok (kept sv) (\<lambda>_. 0) m'"
      and "m' = M_Top \<or> m' = M_End \<or> (\<exists>es. m' = M_Dispatch es)" for h m'
  proof (rule inv_move)
    show "server_inv F opened (store_ctx h sv) w1"
      by (rule inv_world [OF inv_store [OF inv that(1)]]) (simp add: o1)
    have "kept (store_ctx h sv) = kept sv" by (simp add: kept_def)
    then show "monitor_ok (kept (store_ctx h sv)) (ctx_fd F (br_heap (store_ctx h sv))) m'"
      using that(2,3) by auto
  qed (use that(3) m in auto)
  have "events_kept (kept sv) evs" using col ok(1) by (auto simp: events_kept_def)
  then show ?thesis
    using poll col move [of "ctx_of sv"] move [of h']
    by (auto simp: wait_snapshot_def after_wait_def Let_def)
qed

lemma inv_fresh:
  assumes "server_inv F opened sv w"
  shows "br_next sv \<notin> dom (br_heap sv)" and "br_next sv \<notin> owned sv" and "br_next sv \<notin> listed sv"
    and "br_next sv \<notin> set (tokens sv)" and "listed sv \<subseteq> dom (br_heap sv)"
proof -
  have co: "caller_ok (br_caller sv)" and tok: "\<forall>i \<in> set (tokens sv). i < br_next sv"
    and dom: "\<forall>i \<in> dom (br_heap sv). i < br_next sv" and own: "owned sv \<subseteq> dom (br_heap sv)"
    using assms by (simp_all add: server_inv_def token_ok_def heap_ok_def)
  show d: "br_next sv \<notin> dom (br_heap sv)" using dom by blast
  show o: "br_next sv \<notin> owned sv" using d own by blast
  show "br_next sv \<notin> listed sv" using o listed_owned [OF co] by blast
  show "br_next sv \<notin> set (tokens sv)" using tok by blast
  show "listed sv \<subseteq> dom (br_heap sv)" using listed_owned [OF co] own by blast
qed

lemma accept_inv:
  assumes inv: "server_inv F opened sv w" and os: "broadcast_os os opened"
    and m: "br_monitor sv = M_Dispatch (c # cs)"
  shows "\<exists>sv' w'. accept_client os cs sv w = Inr (sv', w') \<and> server_inv F opened sv' w'"
proof -
  obtain s where s: "br_socket sv = Some s" using inv by (auto simp: server_inv_def)
  obtain sock w1 where acc: "PassiveSocket_accept os s w = (sock, w1)" by fastforce
  note o = accept_opened [OF os acc]
  have ev: "events_kept (kept sv) cs" using inv m by (simp add: server_inv_def events_kept_Cons)
  show ?thesis
  proof (cases "sr_code (bs_result sock) = SUCCESS")
    case False
    have "server_inv F opened (sv\<lparr>br_monitor := M_Dispatch cs\<rparr>) w1"
      by (rule inv_move) (use inv_world [OF inv] o ev m in auto)
    with False s acc show ?thesis by (simp add: accept_client_def)
  next
    case True
    let ?f = "bs_fd sock" and ?i = "br_next sv" and ?w = "setNoDelay os (bs_fd sock) w1"
    let ?c = "\<lparr>bc_ctx = \<lparr>ec_fd = ?f, ec_type = UNDEFINED\<rparr>, bc_container = Some sock\<rparr>"
    let ?heap = "(br_heap sv)(?i \<mapsto> ?c)"
    let ?sv = "sv\<lparr>br_heap := ?heap, br_next := ?i + 1\<rparr>"
    have f: "0 \<le> ?f" "?f \<notin> opened w" "opened w1 = insert ?f (opened w)" using o True by simp_all
    have ow: "opened ?w = opened w1" by (simp add: setNoDelay_def broadcast_osD(4) [OF os])
    note fresh = inv_fresh [OF inv]
    have live: "live_fd ?heap = (live_fd (br_heap sv))(?i := Some ?f)"
      using f(1) by (simp add: live_fd_upd)
    have l: "listener_ok F (live_fd (br_heap sv)) (listed sv) (br_listener sv)"
      and hp: "heap_ok F (opened w) ?i (br_heap sv)"
      using inv by (simp_all add: server_inv_def)
    have "?f \<notin> fst ` set (ml_handle (br_listener sv))"
    proof
      assume "?f \<in> fst ` set (ml_handle (br_listener sv))"
      then have "?f = F \<or> (\<exists>i. live_fd (br_heap sv) i = Some ?f)" using l by (auto simp: listener_ok_def)
      then have "?f \<in> opened w" using hp unfolding heap_ok_def by blast
      with f(2) show False by simp
    qed
    moreover have "listener_ok F (live_fd ?heap) (listed sv) (br_listener sv)"
      by (rule listener_cong [OF l]) (use fresh(3) live in auto)
    ultimately obtain l' where add: "addEvent (ctx_of ?sv) (Client ?i) READ (br_listener sv) = Inr l'"
        "listener_ok F (live_fd ?heap) (insert ?i (listed sv)) l'"
      using listener_add [of F "live_fd ?heap" "listed sv" "br_listener sv" "ctx_of ?sv" ?i
          "\<lparr>ec_fd = ?f, ec_type = UNDEFINED\<rparr>"] fresh(3) live
      by (auto simp: ctx_of_def)
    have hp': "heap_ok F (opened ?w) (?i + 1) ?heap"
      using heap_ok_add [OF hp, of ?c sock] f ow by simp
    let ?sv' = "?sv\<lparr>br_listener := l', br_monitor := M_Accepted ?i (ip_text sock) (ss_port sock) cs\<rparr>"
    have eqs: "tokens ?sv' = tokens sv @ [?i]" "owned ?sv' = insert ?i (owned sv)"
      "listed ?sv' = insert ?i (listed sv)" "kept ?sv' = kept sv"
      using m by (auto simp: tokens_def owned_def listed_def kept_def)
    have "server_inv F opened ?sv' ?w"
      using inv fresh add(2) hp' ev live
      unfolding server_inv_def token_ok_def eqs by (auto simp: less_Suc_eq)
    moreover have "accept_client os cs sv w = Inr (?sv', ?w)"
      using s acc True add(1) by (simp add: accept_client_def Let_def)
    ultimately show ?thesis by blast
  qed
qed

lemma unlist_ok:
  assumes inv: "server_inv F opened sv w" and "i \<in> dom (br_heap sv)"
  shows "\<exists>l'. unlist (Client i) sv = Inr (sv\<lparr>br_listener := l'\<rparr>)
    \<and> listener_ok F (live_fd (br_heap sv)) (listed sv - {i}) l'"
proof -
  obtain c where c: "br_heap sv i = Some c" using assms(2) by auto
  have l: "listener_ok F (live_fd (br_heap sv)) (listed sv) (br_listener sv)"
    and live: "\<forall>i \<in> listed sv. live_fd (br_heap sv) i \<noteq> None"
    using inv by (simp_all add: server_inv_def)
  have "live_fd (br_heap sv) i = Some (ec_fd (bc_ctx c))"
    if "Client i \<in> set (ml_contexts (br_listener sv))"
  proof -
    from l that have "i \<in> listed sv" by (simp add: listener_ok_def)
    with live obtain f where "live_fd (br_heap sv) i = Some f" by blast
    with c show ?thesis by (auto simp: live_fd_cases)
  qed
  with listener_remove [OF l, of "ctx_of sv" i "bc_ctx c"] c show ?thesis
    by (auto simp: unlist_def ctx_of_def)
qed

lemma client_lost_inv:
  assumes inv: "server_inv F opened sv w" and m: "br_monitor sv = M_Dispatch (Client i # cs)"
  shows "\<exists>sv'. client_lost i cs sv = Inr sv' \<and> server_inv F opened sv' w"
proof -
  have ev: "events_kept (kept sv) (Client i # cs)" using inv m by (simp add: server_inv_def)
  then have "i \<in> kept sv" by (simp add: events_kept_def)
  then have "i \<in> dom (br_heap sv)" using inv kept_owned [of sv] by (auto simp: server_inv_def)
  then obtain c where c: "br_heap sv i = Some c" by auto
  then obtain sock where sock: "bc_container c = Some sock"
    using inv unfolding server_inv_def heap_ok_def by blast
  obtain l' where l': "unlist (Client i) sv = Inr (sv\<lparr>br_listener := l'\<rparr>)"
      "listener_ok F (live_fd (br_heap sv)) (listed sv - {i}) l'"
    using unlist_ok [OF inv \<open>i \<in> dom (br_heap sv)\<close>] by blast
  have "server_inv F opened (sv\<lparr>br_listener := l', br_monitor := M_Unlisted i ip port cs\<rparr>) w"
    for ip port
  proof -
    let ?sv = "sv\<lparr>br_listener := l', br_monitor := M_Unlisted i ip port cs\<rparr>"
    have eqs: "tokens ?sv = tokens sv" "owned ?sv = owned sv" "listed ?sv = listed sv - {i}"
      "kept ?sv = kept sv"
      using m by (auto simp: tokens_def owned_def listed_def kept_def)
    show ?thesis using inv l'(2) ev unfolding server_inv_def token_ok_def eqs by simp
  qed
  with l'(1) c sock show ?thesis by (simp add: client_lost_def)
qed

lemma close_inv:
  assumes inv: "server_inv F opened sv w" and os: "broadcast_os os opened"
    and "i \<in> dom (br_heap sv)" and out: "i \<notin> listed sv"
  shows "\<exists>h w'. close_client os i sv w = Inr (sv\<lparr>br_heap := h\<rparr>, w')
    \<and> server_inv F opened (sv\<lparr>br_heap := h\<rparr>) w'"
proof -
  obtain c where c: "br_heap sv i = Some c" using assms(3) by auto
  then obtain sock where sock: "bc_container c = Some sock"
    using inv unfolding server_inv_def heap_ok_def by blast
  let ?h = "(br_heap sv)(i \<mapsto> c\<lparr>bc_container := Some (sock\<lparr>bs_fd := - 1\<rparr>)\<rparr>)"
  let ?w = "os_close os (bs_fd sock) w"
  have hp: "heap_ok F (opened ?w) (br_next sv) ?h"
    using inv heap_ok_close [of F "opened w" "br_next sv" "br_heap sv" i c sock] c sock
    by (simp add: server_inv_def broadcast_osD(2) [OF os])
  have live: "live_fd ?h = (live_fd (br_heap sv))(i := None)" by (simp add: live_fd_upd)
  have "listener_ok F (live_fd ?h) (listed sv) (br_listener sv)"
    by (rule listener_cong [of F "live_fd (br_heap sv)"])
      (use inv out live in \<open>auto simp: server_inv_def\<close>)
  moreover have "ctx_fd F ?h = ctx_fd F (br_heap sv)"
    using c by (auto simp: ctx_fd_def fun_eq_iff split: broadcast_ctx.split)
  moreover have "dom ?h = dom (br_heap sv)" using assms(3) by auto
  moreover have "\<forall>j \<in> listed sv. live_fd ?h j \<noteq> None"
    using inv out live by (auto simp: server_inv_def)
  moreover have eqs: "tokens (sv\<lparr>br_heap := ?h\<rparr>) = tokens sv" "owned (sv\<lparr>br_heap := ?h\<rparr>) = owned sv"
    "listed (sv\<lparr>br_heap := ?h\<rparr>) = listed sv" "kept (sv\<lparr>br_heap := ?h\<rparr>) = kept sv"
    by (simp_all add: tokens_def owned_def listed_def kept_def)
  ultimately have "server_inv F opened (sv\<lparr>br_heap := ?h\<rparr>) ?w"
    using inv hp unfolding server_inv_def token_ok_def eqs by simp
  with c sock show ?thesis
    by (auto simp: close_client_def ServerActiveSocket_close_def)
qed

text \<open>
  A closed server; and what a step may end in: the one fault is the cast of the server's own
  context.
\<close>

definition closed_ok :: "'w broadcast_server \<Rightarrow> bool" where
  "closed_ok sv \<longleftrightarrow> br_socket sv = None \<and> br_monitor sv = M_End \<and> br_active sv = []
     \<and> caller_owns (br_caller sv) = {} \<and> caller_ok (br_caller sv)"

text \<open>The monitor is about to handle a failure of the listening socket itself.\<close>

definition listener_failed :: "'w broadcast_server \<Rightarrow> bool" where
  "listener_failed sv =
     (case br_monitor sv of
        M_Dispatch (AcceptCtx # cs) \<Rightarrow> ec_type (br_server_ctx sv) = DISCONNECTED
      | _ \<Rightarrow> False)"

definition step_ok ::
  "fault set \<Rightarrow> fd \<Rightarrow> ('w \<Rightarrow> fd set) \<Rightarrow> (announcement list \<times> 'w broadcast_server \<times> 'w) result option \<Rightarrow> bool" where
  "step_ok E F opened r \<longleftrightarrow>
     (case r of None \<Rightarrow> True
      | Some (Inl e) \<Rightarrow> e \<in> E
      | Some (Inr (ns, sv, w)) \<Rightarrow> server_inv F opened sv w \<or> closed_ok sv)"

lemma inv_announce:
  assumes "server_inv F opened sv w"
    and "announce_connected sv i ip port w = (ns, w') \<or> announce_disconnected sv i ip port w = (ns, w')"
  shows "server_inv F opened sv w'"
  by (rule inv_world [OF assms(1)])
    (use assms announce_opened [of sv opened] in \<open>auto simp: server_inv_def\<close>)

lemma push_inv:
  assumes inv: "server_inv F opened sv w" and m: "br_monitor sv = M_Accepted i ip port cs"
  shows "server_inv F opened (sv\<lparr>br_active := br_active sv @ [i], br_monitor := M_Announce i ip port cs\<rparr>) w"
proof -
  let ?sv = "sv\<lparr>br_active := br_active sv @ [i], br_monitor := M_Announce i ip port cs\<rparr>"
  have eqs: "owned ?sv = owned sv" "listed ?sv = listed sv" "kept ?sv = insert i (kept sv)"
    "distinct (tokens ?sv) = distinct (tokens sv)" "set (tokens ?sv) = set (tokens sv)"
    using m by (auto simp: tokens_def owned_def listed_def kept_def)
  have "events_kept (kept sv) cs" using inv m by (simp add: server_inv_def)
  then have "events_kept (insert i (kept sv)) cs" by (rule events_kept_mono) blast
  with inv show ?thesis unfolding server_inv_def token_ok_def eqs by simp
qed

lemma erase_inv:
  assumes inv: "server_inv F opened sv w" and m: "br_monitor sv = M_Unlisted i ip port cs"
    and i: "i \<in> set (br_active sv)"
  shows "server_inv F opened (sv\<lparr>br_active := remove_first (\<lambda>j. j = i) (br_active sv),
                                 br_monitor := M_Erased i ip port cs\<rparr>) w"
proof -
  let ?sv = "sv\<lparr>br_active := remove_first (\<lambda>j. j = i) (br_active sv), br_monitor := M_Erased i ip port cs\<rparr>"
  have dist: "distinct (tokens sv)" using inv by (simp add: server_inv_def token_ok_def)
  then have a: "set (remove1 i (br_active sv)) = set (br_active sv) - {i}"
    by (simp add: tokens_def)
  have out: "i \<notin> set (to_drop (br_caller sv))" using dist i by (auto simp: tokens_def)
  have ev: "Client i \<notin> set cs" "events_kept (kept sv) cs"
    using inv m by (simp_all add: server_inv_def events_kept_Cons)
  have "events_kept (kept ?sv) cs"
    using ev a by (auto simp: events_kept_def kept_def remove_first_remove1)
  moreover have own: "owned ?sv = owned sv" using m i a by (auto simp: owned_def remove_first_remove1)
  moreover have "set (still_listed (br_caller sv)) \<subseteq> set (to_drop (br_caller sv))"
    using inv by (cases "br_caller sv") (auto simp: server_inv_def token_ok_def)
  then have "listed ?sv = listed sv"
    using m a out by (auto simp: listed_def remove_first_remove1)
  moreover have "distinct (tokens ?sv)" "set (tokens ?sv) = set (tokens sv)"
    using dist m i a out by (auto simp: tokens_def remove_first_remove1)
  ultimately show ?thesis using inv ev(1) unfolding server_inv_def token_ok_def by auto
qed

lemma dispatch_ok:
  assumes inv: "server_inv F opened sv w" and os: "broadcast_os os opened"
    and m: "br_monitor sv = M_Dispatch (c # cs)"
  shows "case dispatch_event os c cs sv w of Inl e \<Rightarrow> e = BadCast \<and> listener_failed sv
    | Inr (sv', w') \<Rightarrow> server_inv F opened sv' w'"
proof -
  have ev: "events_kept (kept sv) (c # cs)" using inv m by (simp add: server_inv_def)
  have skip: "server_inv F opened (sv\<lparr>br_monitor := M_Dispatch cs\<rparr>) w"
    by (rule inv_move [OF inv]) (use m ev in \<open>simp_all add: events_kept_Cons\<close>)
  have "ctx_of sv c \<noteq> None"
    using ev inv kept_owned [of sv] by (cases c) (auto simp: ctx_of_def events_kept_def server_inv_def)
  then obtain ec where ec: "ctx_of sv c = Some ec" by blast
  show ?thesis
  proof (cases "ec_type ec")
    case ACCEPT
    with accept_inv [OF inv os m] ec show ?thesis by (auto simp: dispatch_event_def)
  next
    case DISCONNECTED
    with client_lost_inv [OF inv] m ec show ?thesis
      by (cases c) (fastforce simp: dispatch_event_def listener_failed_def ctx_of_def)+
  qed (use ec skip in \<open>simp_all add: dispatch_event_def\<close>)
qed

lemma erased_out:
  assumes "server_inv F opened sv w" and "br_monitor sv = M_Erased i ip port cs"
  shows "i \<notin> listed sv" and "i \<in> dom (br_heap sv)"
proof -
  have "set (still_listed (br_caller sv)) \<subseteq> set (to_drop (br_caller sv))"
    using assms by (cases "br_caller sv") (auto simp: server_inv_def token_ok_def)
  then show "i \<notin> listed sv"
    using assms by (auto simp: server_inv_def token_ok_def tokens_def listed_def)
  show "i \<in> dom (br_heap sv)" using assms by (auto simp: server_inv_def owned_def)
qed

lemma monitor_step_ok:
  assumes inv: "server_inv F opened sv w" and os: "broadcast_os os opened"
  shows "step_ok {e. e = BadCast \<and> listener_failed sv} F opened (monitor_step os sv w)"
proof (cases "br_monitor sv")
  case M_Top
  have "server_inv F opened (sv\<lparr>br_monitor := M_End\<rparr>) w"
    by (rule inv_move [OF inv]) (simp_all add: M_Top)
  moreover have "server_inv F opened (sv\<lparr>br_pending := [], br_monitor := M_Poll\<rparr>) w"
  proof -
    let ?sv = "sv\<lparr>br_pending := [], br_monitor := M_Poll\<rparr>"
    have "tokens ?sv = tokens sv" "owned ?sv \<subseteq> owned sv" "listed ?sv = listed sv"
      using M_Top by (auto simp: tokens_def owned_def listed_def)
    with inv show ?thesis unfolding server_inv_def token_ok_def by auto
  qed
  ultimately show ?thesis by (simp add: monitor_step_def M_Top step_ok_def)
next
  case M_Poll
  have "server_inv F opened
      (sv\<lparr>br_monitor := M_Wait (ml_contexts (br_listener sv)) (ml_handle (br_listener sv))\<rparr>) w"
    by (rule inv_move [OF inv])
      (use copy_lists_ok [OF inv M_Poll] in \<open>simp_all add: M_Poll del: monitor_ok.simps\<close>)
  then show ?thesis by (simp add: monitor_step_def M_Poll step_ok_def)
next
  case (M_Wait cs hs)
  from wait_copies [OF inv os M_Wait, of "ml_server (br_listener sv)" "cfg_read_timeout (br_cfg sv)"]
  show ?thesis by (auto simp: monitor_step_def M_Wait step_ok_def split: prod.splits)
next
  case (M_Dispatch evs)
  show ?thesis
  proof (cases evs)
    case Nil
    have "server_inv F opened (sv\<lparr>br_monitor := M_Top\<rparr>) w"
      by (rule inv_move [OF inv]) (simp_all add: M_Dispatch)
    then show ?thesis by (simp add: monitor_step_def M_Dispatch Nil step_ok_def)
  next
    case (Cons c cs)
    from dispatch_ok [OF inv os M_Dispatch [unfolded Cons]]
    show ?thesis
      by (cases "dispatch_event os c cs sv w")
        (auto simp: monitor_step_def M_Dispatch Cons step_ok_def split: prod.splits)
  qed
next
  case (M_Accepted i ip port cs)
  with push_inv [OF inv M_Accepted] show ?thesis by (simp add: monitor_step_def step_ok_def)
next
  case (M_Announce i ip port cs)
  obtain ns w1 where an: "announce_connected sv i ip port w = (ns, w1)" by fastforce
  have "server_inv F opened (sv\<lparr>br_monitor := M_Dispatch cs\<rparr>) w1"
  proof (rule inv_move)
    show "server_inv F opened sv w1" using inv_announce [OF inv] an by blast
  qed (use inv in \<open>simp_all add: M_Announce server_inv_def\<close>)
  with an show ?thesis by (simp add: monitor_step_def M_Announce step_ok_def)
next
  case (M_Unlisted i ip port cs)
  have "server_inv F opened (sv\<lparr>br_monitor := M_Dispatch cs\<rparr>) w"
    if "lock_free (br_caller sv)" "i \<notin> set (br_active sv)"
  proof -
    let ?sv = "sv\<lparr>br_monitor := M_Dispatch cs\<rparr>"
    have "still_listed (br_caller sv) = []" using that(1) by (cases "br_caller sv") simp_all
    with that(2) M_Unlisted have eqs: "tokens ?sv = tokens sv" "owned ?sv = owned sv"
        "listed ?sv = listed sv" "kept ?sv = kept sv"
      by (auto simp: tokens_def owned_def listed_def kept_def)
    have "events_kept (kept sv) cs" using inv M_Unlisted by (simp add: server_inv_def events_kept_Cons)
    with inv show ?thesis unfolding server_inv_def token_ok_def eqs by simp
  qed
  with erase_inv [OF inv M_Unlisted] show ?thesis
    by (simp add: monitor_step_def M_Unlisted step_ok_def)
next
  case (M_Erased i ip port cs)
  obtain h w1 where cl: "close_client os i sv w = Inr (sv\<lparr>br_heap := h\<rparr>, w1)"
      and inv1: "server_inv F opened (sv\<lparr>br_heap := h\<rparr>) w1"
    using close_inv [OF inv os erased_out(2,1) [OF inv M_Erased]] by blast
  obtain ns w2 where an: "announce_disconnected (sv\<lparr>br_heap := h\<rparr>) i ip port w1 = (ns, w2)" by fastforce
  have inv2: "server_inv F opened (sv\<lparr>br_heap := h\<rparr>) w2" using inv_announce [OF inv1] an by blast
  have ev: "events_kept (kept sv) cs" using inv M_Erased by (simp add: server_inv_def)
  let ?sv = "sv\<lparr>br_heap := h, br_monitor := M_Dispatch cs\<rparr>"
  have eqs: "listed ?sv = listed (sv\<lparr>br_heap := h\<rparr>)" "kept ?sv = kept sv" "owned ?sv \<subseteq> owned (sv\<lparr>br_heap := h\<rparr>)"
    and tok: "distinct (tokens ?sv)" "set (tokens ?sv) \<subseteq> set (tokens sv)"
    using M_Erased inv by (auto simp: listed_def kept_def owned_def tokens_def server_inv_def token_ok_def)
  have "server_inv F opened ?sv w2"
    using inv2 ev eqs tok unfolding server_inv_def token_ok_def by (auto simp: kept_def tokens_def)
  with cl an show ?thesis by (simp add: monitor_step_def M_Erased step_ok_def)
next
  case M_End
  then show ?thesis by (simp add: monitor_step_def step_ok_def)
qed

subsection \<open>The caller keeps the invariant\<close>

text \<open>Moves of the caller between pcs that hold the same clients.\<close>

lemma inv_caller_move:
  assumes "server_inv F opened sv w"
    and "to_drop c = to_drop (br_caller sv)" and "still_listed c = still_listed (br_caller sv)"
    and "detached c = detached (br_caller sv)" and "caller_owns c \<subseteq> owned sv" and "caller_ok c"
  shows "server_inv F opened (sv\<lparr>br_caller := c\<rparr>) w"
proof -
  let ?sv = "sv\<lparr>br_caller := c\<rparr>"
  have "tokens ?sv = tokens sv" "listed ?sv = listed sv" "kept ?sv = kept sv" "owned ?sv \<subseteq> owned sv"
    using assms by (auto simp: tokens_def listed_def kept_def owned_def)
  with assms show ?thesis unfolding server_inv_def token_ok_def by auto
qed

lemma unlist_step_inv:
  assumes inv: "server_inv F opened sv w" and c: "br_caller sv = C_Unlist dropped (i # rest)"
  shows "\<exists>sv'. unlist (Client i) sv = Inr sv'
    \<and> server_inv F opened (sv'\<lparr>br_caller := C_Unlist dropped rest\<rparr>) w"
proof -
  have "i \<in> dom (br_heap sv)" using inv c by (auto simp: server_inv_def token_ok_def owned_def)
  then obtain l' where l': "unlist (Client i) sv = Inr (sv\<lparr>br_listener := l'\<rparr>)"
      "listener_ok F (live_fd (br_heap sv)) (listed sv - {i}) l'"
    using unlist_ok [OF inv] by blast
  let ?sv = "sv\<lparr>br_listener := l', br_caller := C_Unlist dropped rest\<rparr>"
  have eqs: "tokens ?sv = tokens sv" "owned ?sv = owned sv" "kept ?sv = kept sv"
    using c by (simp_all add: tokens_def owned_def kept_def)
  have "listed sv - {i} \<subseteq> listed ?sv" "listed ?sv \<subseteq> listed sv"
    using c by (auto simp: listed_def)
  moreover from this l'(2) have "listener_ok F (live_fd (br_heap sv)) (listed ?sv) l'"
    by (blast intro: listener_mono)
  ultimately have "server_inv F opened ?sv w"
    using inv c unfolding server_inv_def token_ok_def eqs by auto
  with l'(1) show ?thesis by simp
qed

lemma handover_inv:
  assumes inv: "server_inv F opened sv w" and c: "br_caller sv = C_Unlist dropped []"
  shows "server_inv F opened (sv\<lparr>br_pending := br_pending sv @ dropped, br_caller := C_Drop dropped dropped\<rparr>) w"
proof -
  let ?sv = "sv\<lparr>br_pending := br_pending sv @ dropped, br_caller := C_Drop dropped dropped\<rparr>"
  have eqs: "tokens ?sv = tokens sv" "owned ?sv = owned sv" "kept ?sv = kept sv" "listed ?sv = listed sv"
    using c by (auto simp: tokens_def owned_def kept_def listed_def)
  with inv show ?thesis unfolding server_inv_def token_ok_def eqs by simp
qed

lemma drop_step_inv:
  assumes inv: "server_inv F opened sv w" and os: "broadcast_os os opened"
    and c: "br_caller sv = C_Drop dropped (i # rest)"
  shows "\<exists>ns sv' w'. drop_client os i sv w = Inr (ns, sv', w')
    \<and> server_inv F opened (sv'\<lparr>br_caller := C_Drop dropped rest\<rparr>) w'"
proof -
  have i: "i \<in> dom (br_heap sv)" using inv c by (auto simp: server_inv_def token_ok_def owned_def)
  then obtain cl where cl: "br_heap sv i = Some cl" by auto
  then obtain sock where sock: "bc_container cl = Some sock"
    using inv unfolding server_inv_def heap_ok_def by blast
  have dist: "distinct (tokens sv)" using inv by (simp add: server_inv_def token_ok_def)
  have "set (accepted (br_monitor sv)) \<subseteq> set (held (br_monitor sv))" by (cases "br_monitor sv") auto
  then have out: "i \<notin> listed sv" using dist c by (auto simp: listed_def tokens_def)
  obtain h w1 where close: "close_client os i sv w = Inr (sv\<lparr>br_heap := h\<rparr>, w1)"
      and inv1: "server_inv F opened (sv\<lparr>br_heap := h\<rparr>) w1"
    using close_inv [OF inv os i out] by blast
  obtain ns w2 where an: "announce_disconnected (sv\<lparr>br_heap := h\<rparr>) i (ip_text sock) (ss_port sock) w1
      = (ns, w2)" by fastforce
  have inv2: "server_inv F opened (sv\<lparr>br_heap := h\<rparr>) w2" using inv_announce [OF inv1] an by blast
  let ?sv = "sv\<lparr>br_heap := h, br_caller := C_Drop dropped rest\<rparr>"
  have eqs: "listed ?sv = listed (sv\<lparr>br_heap := h\<rparr>)" "kept ?sv = kept (sv\<lparr>br_heap := h\<rparr>)"
      "owned ?sv = owned (sv\<lparr>br_heap := h\<rparr>)"
    and tok: "distinct (tokens ?sv)" "set (tokens ?sv) \<subseteq> set (tokens (sv\<lparr>br_heap := h\<rparr>))"
    using c dist by (auto simp: listed_def kept_def owned_def tokens_def)
  have "server_inv F opened ?sv w2"
    using inv2 tok c unfolding server_inv_def token_ok_def eqs by auto
  with close an cl sock show ?thesis by (simp add: drop_client_def)
qed

text \<open>
  One step of \<^verbatim>\<open>write\<close>: the client is still there, the rest of the buffer is inside it, no
  descriptor is opened or closed, and the position stays within the buffer.
\<close>

lemma write_step_opened:
  assumes os: "broadcast_os os opened" and "write_step os i buffer result pos sv w = Inr (t, w')"
  shows "opened w' = opened w"
proof -
  have wait: "opened (snd (SocketEventListener_wait os l t v)) = opened v" for l t v
    by (rule wait_quiet [OF broadcast_osD(7) [OF os]])
  have send: "opened (snd (socket_send os f chunk v)) = opened v" for f chunk v
    using broadcast_osD(5) [OF os, of f chunk v]
    by (cases "os_send os f chunk v") (simp add: socket_send_def)
  show ?thesis
  proof (cases pos)
    case W_Next
    with assms(2) show ?thesis
      by (auto simp: write_step_def bindR_Inr_iff split: option.splits)
  next
    case (W_Wait l k written)
    with assms(2) wait [of l "cfg_write_timeout (br_cfg sv)" w] show ?thesis
      by (auto simp: write_step_def split: if_splits prod.splits)
  next
    case (W_Send l k written)
    with assms(2) show ?thesis by (auto simp: write_step_def split: option.splits)
  next
    case (W_Call l k written f)
    with assms(2) obtain chunk where chunk: "read_mem buffer written (of_nat (length buffer) - written) = Inr chunk"
      by (auto simp: write_step_def bindR_Inr_iff Let_def)
    with W_Call assms(2) send [of f chunk w] show ?thesis
      by (auto simp: write_step_def Let_def split: if_splits prod.splits)
  qed
qed

lemma write_step_runs:
  assumes heap: "br_heap sv i = Some c" "bc_container c = Some sock"
    and len: "length buffer < 2 ^ 64" and pos: "write_ok (length buffer) pos"
  shows "\<exists>t w'. write_step os i buffer result pos sv w = Inr (t, w')
    \<and> (\<forall>pos'. t = W_At pos' \<longrightarrow> write_ok (length buffer) pos')"
proof (cases pos)
  case W_Next
  with heap show ?thesis by (simp add: write_step_def open_listener)
next
  case (W_Wait l k written)
  with pos show ?thesis by (auto simp: write_step_def split: prod.split)
next
  case (W_Send l k written)
  with heap pos show ?thesis by (simp add: write_step_def)
next
  case (W_Call l k written f)
  let ?n = "of_nat (length buffer) :: size_t"
  have n: "unat ?n = length buffer" using len by (rule unat_of_nat_size)
  have wr: "written \<le> ?n" using pos W_Call n by (simp add: word_le_nat_alt)
  then have "read_mem buffer written (?n - written) = Inr (drop (unat written) buffer)"
    by (simp add: read_mem_def n unat_sub_size word_le_nat_alt)
  moreover have "unat v \<le> length buffer" if "\<not> ?n \<le> v" for v
    using that n by (simp add: word_le_nat_alt)
  ultimately show ?thesis
    using W_Call pos by (auto simp: write_step_def Let_def split: prod.split)
qed

lemma write_step_ok:
  assumes inv: "server_inv F opened sv w" and os: "broadcast_os os opened"
    and c: "br_caller sv = C_Write snapshot (i # rest) buffer result pos"
  shows "\<exists>t w'. write_step os i buffer result pos sv w = Inr (t, w')
    \<and> server_inv F opened (sv\<lparr>br_caller := (case t of
           W_At pos \<Rightarrow> C_Write snapshot (i # rest) buffer result pos
         | W_Done result \<Rightarrow> C_Write snapshot rest buffer result W_Next)\<rparr>) w'"
proof -
  have cal: "caller_ok (br_caller sv)" "i \<in> dom (br_heap sv)"
    using inv c by (auto simp: server_inv_def token_ok_def owned_def)
  then obtain cl where cl: "br_heap sv i = Some cl" by auto
  then obtain sock where sock: "bc_container cl = Some sock"
    using inv unfolding server_inv_def heap_ok_def by blast
  have pos: "length buffer < 2 ^ 64" "write_ok (length buffer) pos" using cal(1) c by simp_all
  obtain t w' where step: "write_step os i buffer result pos sv w = Inr (t, w')"
      "\<forall>pos'. t = W_At pos' \<longrightarrow> write_ok (length buffer) pos'"
    using write_step_runs [OF cl sock pos] by blast
  have "opened w' = opened w" by (rule write_step_opened [OF os step(1)])
  then have inv': "server_inv F opened sv w'" using inv_world [OF inv] by simp
  have "server_inv F opened (sv\<lparr>br_caller := (case t of
           W_At pos \<Rightarrow> C_Write snapshot (i # rest) buffer result pos
         | W_Done result \<Rightarrow> C_Write snapshot rest buffer result W_Next)\<rparr>) w'"
    by (rule inv_caller_move [OF inv'])
      (use c cal(1) step(2) in \<open>auto simp: owned_def split: write_turn.split\<close>)
  with step(1) show ?thesis by blast
qed

lemma close_clients_ok:
  assumes "set is \<subseteq> dom (br_heap sv)" and "\<forall>i \<in> set is. \<forall>c. br_heap sv i = Some c \<longrightarrow> bc_container c \<noteq> None"
  shows "\<exists>h w'. close_clients os is sv w = Inr (sv\<lparr>br_heap := h\<rparr>, w')"
  using assms
proof (induction "is" arbitrary: sv w)
  case Nil
  have "sv = sv\<lparr>br_heap := br_heap sv\<rparr>" by simp
  then show ?case by (metis close_clients.simps(1))
next
  case (Cons i "is")
  then obtain c sock where c: "br_heap sv i = Some c" "bc_container c = Some sock" by auto
  let ?h = "(br_heap sv)(i \<mapsto> c\<lparr>bc_container := Some (sock\<lparr>bs_fd := - 1\<rparr>)\<rparr>)"
  have "close_client os i sv w = Inr (sv\<lparr>br_heap := ?h\<rparr>, os_close os (bs_fd sock) w)"
    using c by (simp add: close_client_def ServerActiveSocket_close_def)
  moreover have "\<exists>h w'. close_clients os is (sv\<lparr>br_heap := ?h\<rparr>) (os_close os (bs_fd sock) w)
      = Inr (sv\<lparr>br_heap := ?h\<rparr>\<lparr>br_heap := h\<rparr>, w')"
    by (rule Cons.IH) (use Cons.prems in auto)
  ultimately show ?case by auto
qed

lemma finish_close_ok:
  assumes inv: "server_inv F opened sv w" and "br_monitor sv = M_End"
  shows "\<exists>sv' w'. finish_close os sv w = Inr (sv', w') \<and> closed_ok sv'"
proof -
  have "set (br_active sv) \<subseteq> dom (br_heap sv)"
    using inv by (auto simp: server_inv_def owned_def)
  moreover have "\<forall>i \<in> set (br_active sv). \<forall>c. br_heap sv i = Some c \<longrightarrow> bc_container c \<noteq> None"
    using inv unfolding server_inv_def heap_ok_def by blast
  ultimately obtain h w1 where "close_clients os (br_active sv) sv w = Inr (sv\<lparr>br_heap := h\<rparr>, w1)"
    using close_clients_ok [of "br_active sv" sv os w] by blast
  with assms(2) show ?thesis by (simp add: finish_close_def Let_def closed_ok_def)
qed

lemma caller_step_ok:
  assumes inv: "server_inv F opened sv w" and os: "broadcast_os os opened"
  shows "step_ok {} F opened (caller_step os expired sv w)"
proof (cases "br_caller sv")
  case (C_Unlist dropped rest)
  show ?thesis
  proof (cases rest)
    case Nil
    from handover_inv [OF inv C_Unlist [unfolded Nil]] show ?thesis
      by (simp add: caller_step_def C_Unlist Nil step_ok_def)
  next
    case (Cons i js)
    from unlist_step_inv [OF inv C_Unlist [unfolded Cons]] show ?thesis
      by (auto simp: caller_step_def C_Unlist Cons step_ok_def)
  qed
next
  case (C_Drop dropped rest)
  show ?thesis
  proof (cases rest)
    case Nil
    have "server_inv F opened (sv\<lparr>br_caller := C_Idle\<rparr>) w"
      by (rule inv_caller_move [OF inv]) (simp_all add: C_Drop Nil)
    then show ?thesis by (simp add: caller_step_def C_Drop Nil step_ok_def)
  next
    case (Cons i js)
    from drop_step_inv [OF inv os C_Drop [unfolded Cons]] show ?thesis
      by (auto simp: caller_step_def C_Drop Cons step_ok_def)
  qed
next
  case (C_Write snapshot rest buffer result pos)
  show ?thesis
  proof (cases rest)
    case Nil
    have "server_inv F opened (sv\<lparr>br_caller := C_Return result\<rparr>) w"
      by (rule inv_caller_move [OF inv]) (simp_all add: C_Write Nil)
    then show ?thesis by (simp add: caller_step_def C_Write Nil step_ok_def)
  next
    case (Cons i js)
    from write_step_ok [OF inv os C_Write [unfolded Cons]] show ?thesis
      by (auto simp: caller_step_def C_Write Cons step_ok_def)
  qed
next
  case C_Join
  from finish_close_ok [OF inv, of os] show ?thesis
    by (auto simp: caller_step_def C_Join step_ok_def)
qed (auto simp: caller_step_def step_ok_def Let_def split: option.split intro!: inv_caller_move [OF inv])

lemma start_call_inv:
  assumes inv: "server_inv F opened sv w" and idle: "br_caller sv = C_Idle" and "call_ok c"
  shows "server_inv F opened (start_call c sv) w"
proof (cases c)
  case (Call_Write buffer)
  with assms show ?thesis by (auto simp: owned_def intro!: inv_caller_move [OF inv])
next
  case Call_DropAll
  let ?sv = "sv\<lparr>br_active := [], br_caller := C_Unlist (br_active sv) (br_active sv)\<rparr>"
  have eqs: "tokens ?sv = tokens sv" "owned ?sv = owned sv" "listed ?sv = listed sv" "kept ?sv = kept sv"
    using idle by (auto simp: tokens_def owned_def listed_def kept_def)
  have "server_inv F opened ?sv w" using inv unfolding server_inv_def token_ok_def eqs by simp
  then show ?thesis by (simp add: Call_DropAll)
next
  case Call_Close
  have "server_inv F opened (sv\<lparr>br_monitoring := False\<rparr>) w" using inv by (simp add: server_defs)
  then have "server_inv F opened (sv\<lparr>br_monitoring := False\<rparr>\<lparr>br_caller := C_Join\<rparr>) w"
    by (rule inv_caller_move) (simp_all add: idle)
  then show ?thesis by (simp add: Call_Close)
qed (use idle in \<open>auto intro!: inv_caller_move [OF inv]\<close>)

lemma closed_steps:
  assumes "closed_ok sv"
  shows "monitor_step os sv w = None" and "step_ok {} F opened (caller_step os expired sv w)"
    and "caller_step os expired sv w = Some (Inr (ns, sv', w')) \<Longrightarrow> ns = [] \<and> closed_ok sv'"
    and "br_caller sv = C_Idle \<Longrightarrow> call_ok c \<Longrightarrow> closed_ok (start_call c sv)"
    and "closed_ok (sweep sv)"
proof -
  have c: "br_socket sv = None" "br_monitor sv = M_End" "br_active sv = []"
      "caller_owns (br_caller sv) = {}" "caller_ok (br_caller sv)"
    using assms by (simp_all add: closed_ok_def)
  show "monitor_step os sv w = None" by (simp add: monitor_step_def c)
  have step: "case caller_step os expired sv w of None \<Rightarrow> True | Some (Inl e) \<Rightarrow> False
      | Some (Inr (ns, sv', w')) \<Rightarrow> ns = [] \<and> closed_ok sv'"
    using c by (cases "br_caller sv")
      (auto simp: caller_step_def closed_ok_def finish_close_def Let_def split: option.split)
  then show "step_ok {} F opened (caller_step os expired sv w)"
    by (auto simp: step_ok_def split: option.splits sum.splits)
  show "caller_step os expired sv w = Some (Inr (ns, sv', w')) \<Longrightarrow> ns = [] \<and> closed_ok sv'"
    using step by simp
  show "br_caller sv = C_Idle \<Longrightarrow> call_ok c \<Longrightarrow> closed_ok (start_call c sv)"
    using c by (cases c) (auto simp: closed_ok_def)
  show "closed_ok (sweep sv)" using c by (simp add: closed_ok_def sweep_def)
qed

end
