(* ===== verification/Broadcast_Session.thy ===== *)
theory Broadcast_Session
  imports Broadcast_Safety
begin

text \<open>
  Sessions of the broadcast server, from \<^verbatim>\<open>open\<close> on: the invariant holds in every reachable
  state, whatever the interleaving of the two threads, and so does a second one about the
  announcements made so far; the caller's operations alone, \<^verbatim>\<open>dropAll\<close> and \<^verbatim>\<open>write\<close>, end.
\<close>

subsection \<open>A successful open\<close>

lemma new_socket_open:
  assumes os: "broadcast_os os opened" and new: "PassiveSocket_new os u w = (s, w')"
    and ok: "sr_code (bs_result s) = SUCCESS"
  shows "0 \<le> bs_fd s" and "bs_fd s \<in> opened w'"
proof -
  obtain r w1 where r: "os_socket os u w = (r, w1)" by fastforce
  have "\<forall>u w. - 1 \<le> fst (os_socket os u w) \<and> fst (os_socket os u w) < 2 ^ 31
      \<and> (0 \<le> fst (os_socket os u w) \<longrightarrow> fst (os_socket os u w) \<in> opened (snd (os_socket os u w)))"
    using os unfolding broadcast_os_def by (elim conjE)
  from this [THEN spec, of u, THEN spec, of w] r
  have fd: "- 1 \<le> r" "r < 2 ^ 31" "0 \<le> r \<Longrightarrow> r \<in> opened w1" by simp_all
  then have i32: "i32 r = r" by (intro i32_small) simp_all
  have "\<not> r < 0"
    using new ok r i32
    by (auto simp: PassiveSocket_new_def open_stream_socket_def result_simps)
  moreover from this have "s = \<lparr>bs_result = mkCode SUCCESS, bs_fd = r\<rparr> \<and> w' = setNonBlockingMode os r w1"
    using new r i32 by (simp add: PassiveSocket_new_def open_stream_socket_def)
  ultimately show "0 \<le> bs_fd s" and "bs_fd s \<in> opened w'"
    using fd(3) by (simp_all add: setNonBlockingMode_def broadcast_osD(3) [OF os])
qed

lemma address_opened:
  assumes "broadcast_os os opened" and "SocketAddress_new os ip port server u w = Inr (a, w')"
  shows "opened w' = opened w"
proof -
  have "opened (snd (os_getaddrinfo os ip' port server w)) = opened w" for ip'
    using assms(1) by (simp add: broadcast_os_def)
  then show ?thesis using assms(2)
    by (auto simp: SocketAddress_new_def bindR_Inr_iff split: prod.splits sum.splits if_splits)
      (metis snd_conv)+
qed

lemma bind_listen_opened:
  assumes "broadcast_os os opened"
  shows "PassiveSocket_bind os s a w = (r, w') \<Longrightarrow> opened w' = opened w"
    and "PassiveSocket_listen os s w = (r, w') \<Longrightarrow> opened w' = opened w"
proof -
  have set: "opened (os_setsockopt os f opt v) = opened v" for f opt v
    by (rule broadcast_osD(4) [OF assms])
  have bind: "opened (snd (os_bind os f b v)) = opened v" for f b v
    using assms by (simp add: broadcast_os_def)
  have listen: "opened (snd (os_listen os f v)) = opened v" for f v
    using assms by (simp add: broadcast_os_def)
  show "PassiveSocket_bind os s a w = (r, w') \<Longrightarrow> opened w' = opened w"
    using bind [of "bs_fd s" "sa_view a" "os_setsockopt os (bs_fd s) (SO_REUSEADDR 1) w"] set
    by (auto simp: PassiveSocket_bind_def Let_def split: prod.splits if_splits)
  show "PassiveSocket_listen os s w = (r, w') \<Longrightarrow> opened w' = opened w"
    using listen [of "bs_fd s" w]
    by (auto simp: PassiveSocket_listen_def Let_def split: prod.splits if_splits)
qed

lemma opened_session:
  assumes os: "broadcast_os os opened" and h: "quiet_handler handler opened"
    and op: "SocketBroadcastServerImpl_open os handler (SocketBroadcastServerImpl_new cfg tls) w
        = Inr (result, sv, w')" and ok: "sr_code result = SUCCESS"
  shows "\<exists>F. server_inv F opened sv w' \<and> br_handler sv = handler \<and> br_next sv = 0
    \<and> br_monitor sv = M_Top \<and> br_caller sv = C_Idle \<and> br_active sv = []
    \<and> br_heap sv = Map.empty \<and> (\<exists>s. br_socket sv = Some s \<and> bs_fd s = F)"
proof -
  let ?ux = "cfg_is_unix_domain cfg"
  obtain s w1 where s: "PassiveSocketContainer_new os (ts_valid tls) ?ux w = Inr (s, w1)"
    using op by (auto simp: SocketBroadcastServerImpl_open_def SocketBroadcastServerImpl_new_def
        Let_def bindR_Inr_iff)
  have sok: "sr_code (bs_result s) = SUCCESS"
    using op ok s by (auto simp: SocketBroadcastServerImpl_open_def SocketBroadcastServerImpl_new_def
        Let_def split: if_splits)
  with op s obtain ip port a w2 where a: "c_str (cfg_ip cfg) = Inr ip"
      "c_str (cfg_port cfg) = Inr port" "SocketAddress_new os ip port True ?ux w1 = Inr (a, w2)"
    by (auto simp: SocketBroadcastServerImpl_open_def SocketBroadcastServerImpl_new_def
        Let_def bindR_Inr_iff)
  obtain rb wb where b: "PassiveSocket_bind os s a w2 = (rb, wb)" by fastforce
  obtain rl wl where l: "PassiveSocket_listen os s wb = (rl, wl)" by fastforce
  have new: "PassiveSocket_new os ?ux w = (s, w1)"
    using s by (auto simp: PassiveSocketContainer_new_def split: if_splits)
  note fd = new_socket_open [OF os new sok]
  have "opened w' = opened w1"
    using op ok s sok a b l address_opened [OF os a(3)] bind_listen_opened(1) [OF os b]
      bind_listen_opened(2) [OF os l]
    by (auto simp: SocketBroadcastServerImpl_open_def SocketBroadcastServerImpl_new_def Let_def
        bindR_Inr_iff split: if_splits)
  moreover have "sv = (SocketBroadcastServerImpl_new cfg tls)\<lparr>br_socket := Some s,
      br_handler := handler, br_server_ctx := \<lparr>ec_fd = bs_fd s, ec_type = UNDEFINED\<rparr>,
      br_listener := \<lparr>ml_server = bs_fd s, ml_contexts = [AcceptCtx], ml_handle = [(bs_fd s, POLLIN)]\<rparr>,
      br_monitoring := True, br_monitor := M_Top\<rparr>"
    using op ok s sok a b l
    by (auto simp: SocketBroadcastServerImpl_open_def SocketBroadcastServerImpl_new_def Let_def
        bindR_Inr_iff addEvent_def ctx_of_def SocketMultiEventListener_open_def
        multi_listener_new_def split: if_splits)
  ultimately show ?thesis using fd h
    by (simp add: SocketBroadcastServerImpl_new_def server_defs heap_ok_def listener_ok_def live_fd_def)
qed

subsection \<open>The announcements made so far\<close>

text \<open>A client the monitor has accepted and not announced yet.\<close>

fun unannounced :: "monitor_pc \<Rightarrow> client_id set" where
  "unannounced (M_Accepted i ip port cs) = {i}"
| "unannounced (M_Announce i ip port cs) = {i}"
| "unannounced _ = {}"

definition log_ok :: "announcement list \<Rightarrow> 'w broadcast_server \<Rightarrow> bool" where
  "log_ok log sv \<longleftrightarrow> br_handler sv \<noteq> None
     \<and> (\<forall>i \<in> unannounced (br_monitor sv). i < br_next sv)
     \<and> (\<forall>i. count_list log (Connected i)
          = of_bool (i < br_next sv \<and> i \<notin> unannounced (br_monitor sv)))
     \<and> (\<forall>i. count_list log (Disconnected i) = of_bool (i < br_next sv \<and> i \<notin> set (tokens sv)))"

lemma log_move:
  assumes "log_ok log sv" and "br_handler sv' = br_handler sv" and "br_next sv' = br_next sv"
    and "unannounced (br_monitor sv') = unannounced (br_monitor sv)"
    and "set (tokens sv') = set (tokens sv)"
  shows "log_ok log sv'"
  using assms by (simp add: log_ok_def)

lemma sweep_frame [simp]:
  "br_handler (sweep sv) = br_handler sv" "br_next (sweep sv) = br_next sv"
  "br_monitor (sweep sv) = br_monitor sv" "tokens (sweep sv) = tokens sv"
  "br_socket (sweep sv) = br_socket sv" "br_caller (sweep sv) = br_caller sv"
  "br_active (sweep sv) = br_active sv"
  by (simp_all add: sweep_def tokens_def)

lemma close_client_frame:
  "close_client os i sv w = Inr (sv', w') \<Longrightarrow> \<exists>h. sv' = sv\<lparr>br_heap := h\<rparr>"
  by (auto simp: close_client_def Let_def split: option.splits prod.splits)
    (metis (mono_tags, lifting) broadcast_server.surjective broadcast_server.update_convs(10))

lemma drop_client_frame:
  assumes "drop_client os i sv w = Inr (ns, sv', w')"
  shows "\<exists>h ip port w1. sv' = sv\<lparr>br_heap := h\<rparr> \<and> close_client os i sv w = Inr (sv', w1)
    \<and> announce_disconnected (sv\<lparr>br_heap := h\<rparr>) i ip port w1 = (ns, w')"
proof -
  obtain c where c: "br_heap sv i = Some c" using assms by (cases "br_heap sv i") (auto simp: drop_client_def)
  obtain ip port where "(case bc_container c of None \<Rightarrow> ('''', 0)
      | Some sock \<Rightarrow> (ip_text sock, ss_port sock)) = (ip, port)" by fastforce
  note addr = this
  with assms c obtain sv1 w1 where cl: "close_client os i sv w = Inr (sv1, w1)"
    by (auto simp: drop_client_def bindR_Inr_iff)
  with assms c addr have "announce_disconnected sv1 i ip port w1 = (ns, w')" "sv' = sv1"
    by (auto simp: drop_client_def split: prod.splits)
  note this cl
  with close_client_frame [OF cl] show ?thesis by blast
qed

lemma log_accept:
  assumes "log_ok log sv" and "token_ok sv" and m: "br_monitor sv = M_Dispatch (c # cs)"
    and acc: "accept_client os cs sv w = Inr (sv', w')"
  shows "log_ok log sv'"
proof -
  obtain s where "br_socket sv = Some s" using acc by (cases "br_socket sv") (auto simp: accept_client_def)
  moreover obtain sock w1 where "PassiveSocket_accept os s w = (sock, w1)" by fastforce
  ultimately have s: "br_socket sv = Some s" "PassiveSocket_accept os s w = (sock, w1)" by simp_all
  show ?thesis
  proof (cases "sr_code (bs_result sock) = SUCCESS")
    case False
    with acc s assms(1) m show ?thesis
      by (auto simp: accept_client_def log_ok_def tokens_def)
  next
    case True
    with acc s obtain h l ip port where sv': "sv' = sv\<lparr>br_heap := h, br_next := br_next sv + 1,
        br_listener := l, br_monitor := M_Accepted (br_next sv) ip port cs\<rparr>"
      by (auto simp: accept_client_def Let_def bindR_Inr_iff)
    have "set (tokens sv') = insert (br_next sv) (set (tokens sv))"
      using m by (auto simp: sv' tokens_def)
    with assms(1) m show ?thesis by (auto simp: sv' log_ok_def less_Suc_eq)
  qed
qed

lemma log_drop:
  assumes log: "log_ok log sv" and tok: "token_ok sv" and i: "i \<in> set (tokens sv)"
    and same: "br_handler sv' = br_handler sv" "br_next sv' = br_next sv"
      "unannounced (br_monitor sv') = unannounced (br_monitor sv)"
    and rest: "set (tokens sv') = set (tokens sv) - {i}"
    and an: "announce_disconnected sv i ip port w = (ns, w')"
  shows "log_ok (log @ ns) sv'"
proof -
  have "ns = [Disconnected i]" using an log by (auto simp: announce_disconnected_def log_ok_def)
  moreover have "i < br_next sv" using tok i by (simp add: token_ok_def)
  ultimately show ?thesis using log i by (auto simp: log_ok_def same rest)
qed

lemma log_dispatch:
  assumes log: "log_ok log sv" and tok: "token_ok sv" and m: "br_monitor sv = M_Dispatch (c # cs)"
    and d: "dispatch_event os c cs sv w = Inr (sv', w')"
  shows "log_ok log sv'"
proof -
  have skip: "log_ok log (sv\<lparr>br_monitor := M_Dispatch cs\<rparr>)"
    by (rule log_move [OF log]) (simp_all add: m tokens_def)
  have lost: "log_ok log sv'" if "client_lost i cs sv = Inr sv'" for i
  proof -
    from that obtain l where l: "unlist (Client i) sv = Inr (sv\<lparr>br_listener := l\<rparr>)"
      by (auto simp: client_lost_def unlist_def bindR_Inr_iff)
    with that obtain ip port where "sv' = sv\<lparr>br_listener := l, br_monitor := M_Unlisted i ip port cs\<rparr>"
      by (auto simp: client_lost_def split: option.splits)
    then show ?thesis by (intro log_move [OF log]) (simp_all add: m tokens_def)
  qed
  obtain ec where "ctx_of sv c = Some ec" using d by (cases "ctx_of sv c") (auto simp: dispatch_event_def)
  then show ?thesis
    using d skip lost log_accept [OF log tok m, of os w sv' w']
    by (cases "ec_type ec"; cases c) (auto simp: dispatch_event_def bindR_Inr_iff)
qed

lemma log_monitor:
  assumes log: "log_ok log sv" and tok: "token_ok sv"
    and step: "monitor_step os sv w = Some (Inr (ns, sv', w'))"
  shows "log_ok (log @ ns) sv'"
proof (cases "br_monitor sv")
  case M_Top
  with step log show ?thesis
    by (auto simp: monitor_step_def tokens_def split: if_splits intro!: log_move [OF log])
next
  case M_Poll
  with step log show ?thesis by (auto simp: monitor_step_def tokens_def intro!: log_move [OF log])
next
  case (M_Wait contexts handle)
  with step obtain r where ns: "ns = []" and r: "after_wait r sv = (sv', w')"
    by (auto simp: monitor_step_def bindR_Inr_iff)
  obtain result cs h w1 where "r = (result, cs, h, w1)" by (cases r) auto
  with r have "br_handler sv' = br_handler sv" "br_next sv' = br_next sv" "tokens sv' = tokens sv"
      "unannounced (br_monitor sv') = unannounced (br_monitor sv)"
    using M_Wait by (auto simp: after_wait_def Let_def store_ctx_def tokens_def split: if_splits)
  then show ?thesis unfolding ns by (simp add: log_move [OF log])
next
  case (M_Dispatch evs)
  show ?thesis
  proof (cases evs)
    case Nil
    with step M_Dispatch log show ?thesis
      by (auto simp: monitor_step_def tokens_def intro!: log_move [OF log])
  next
    case (Cons c cs)
    then have "dispatch_event os c cs sv w = Inr (sv', w')" "ns = []"
      using step M_Dispatch by (auto simp: monitor_step_def bindR_Inr_iff)
    with log_dispatch [OF log tok M_Dispatch [unfolded Cons], of os w sv' w'] show ?thesis by simp
  qed
next
  case (M_Accepted i ip port cs)
  with step log show ?thesis
    by (auto simp: monitor_step_def tokens_def split: if_splits intro!: log_move [OF log])
next
  case (M_Announce i ip port cs)
  with step log have "ns = [Connected i]" "sv' = sv\<lparr>br_monitor := M_Dispatch cs\<rparr>"
    by (auto simp: monitor_step_def announce_connected_def log_ok_def)
  with log M_Announce show ?thesis by (auto simp: log_ok_def tokens_def)
next
  case (M_Unlisted i ip port cs)
  have "distinct (br_active sv)" using tok by (simp add: token_ok_def tokens_def)
  with step M_Unlisted show ?thesis
    by (auto simp: monitor_step_def tokens_def remove_first_remove1 split: if_splits
        intro!: log_move [OF log])
next
  case (M_Erased i ip port cs)
  with step obtain sv1 w1 where cl: "close_client os i sv w = Inr (sv1, w1)"
    by (auto simp: monitor_step_def bindR_Inr_iff)
  with close_client_frame [OF cl] step M_Erased obtain h
    where ns: "announce_disconnected (sv\<lparr>br_heap := h\<rparr>) i ip port w1 = (ns, w')"
      and sv': "sv' = sv\<lparr>br_heap := h, br_monitor := M_Dispatch cs\<rparr>"
    by (auto simp: monitor_step_def split: prod.splits)
  have "distinct (tokens sv)" using tok by (simp add: token_ok_def)
  then have "set (tokens sv') = set (tokens sv) - {i}" "i \<in> set (tokens sv)"
    using M_Erased by (auto simp: sv' tokens_def)
  moreover have "log_ok log (sv\<lparr>br_heap := h\<rparr>)" "token_ok (sv\<lparr>br_heap := h\<rparr>)"
    using log tok by (simp_all add: log_ok_def token_ok_def tokens_def)
  ultimately show ?thesis using log_drop [of log "sv\<lparr>br_heap := h\<rparr>" i sv', OF _ _ _ _ _ _ _ ns]
    by (simp add: sv' M_Erased tokens_def)
next
  case M_End
  with step show ?thesis by (simp add: monitor_step_def)
qed

text \<open>Where a step of \<^verbatim>\<open>write\<close> leaves the caller.\<close>

definition writing ::
  "client_id list \<Rightarrow> client_id \<Rightarrow> client_id list \<Rightarrow> byte list \<Rightarrow> SocketResult \<Rightarrow> write_turn \<Rightarrow> caller_pc" where
  "writing snapshot i rest buffer result t =
     (case t of W_At pos \<Rightarrow> C_Write snapshot (i # rest) buffer result pos
      | W_Done result \<Rightarrow> C_Write snapshot rest buffer result W_Next)"

lemma write_frame:
  assumes "caller_step os expired sv w = Some (Inr (ns, sv', w'))"
    and "br_caller sv = C_Write snapshot (i # rest) buffer result pos"
  shows "\<exists>t. write_step os i buffer result pos sv w = Inr (t, w') \<and> ns = []
    \<and> sv' = sv\<lparr>br_caller := writing snapshot i rest buffer result t\<rparr>"
  using assms by (auto simp: caller_step_def bindR_Inr_iff writing_def)

lemma writing_tokens: "to_drop (writing snapshot i rest buffer result t) = []"
  by (cases t) (simp_all add: writing_def)

lemma log_caller:
  assumes log: "log_ok log sv" and tok: "token_ok sv"
    and step: "caller_step os expired sv w = Some (Inr (ns, sv', w'))" and "br_socket sv' \<noteq> None"
  shows "log_ok (log @ ns) sv'"
proof (cases "br_caller sv")
  case (C_Unlist dropped rest)
  show ?thesis
  proof (cases rest)
    case Nil
    with step C_Unlist show ?thesis
      by (auto simp: caller_step_def tokens_def intro!: log_move [OF log])
  next
    case (Cons i js)
    with step C_Unlist show ?thesis
      by (auto simp: caller_step_def tokens_def unlist_def bindR_Inr_iff intro!: log_move [OF log])
  qed
next
  case (C_Drop dropped rest)
  show ?thesis
  proof (cases rest)
    case Nil
    with step C_Drop show ?thesis
      by (auto simp: caller_step_def tokens_def intro!: log_move [OF log])
  next
    case (Cons i js)
    with step C_Drop obtain h ip port w1
      where ns: "announce_disconnected (sv\<lparr>br_heap := h\<rparr>) i ip port w1 = (ns, w')"
        and sv': "sv' = sv\<lparr>br_heap := h, br_caller := C_Drop dropped js\<rparr>"
      by (auto simp: caller_step_def bindR_Inr_iff dest!: drop_client_frame)
    have "distinct (tokens sv)" using tok by (simp add: token_ok_def)
    then have "set (tokens sv') = set (tokens sv) - {i}" "i \<in> set (tokens sv)"
      using C_Drop Cons by (auto simp: sv' tokens_def)
    moreover have "log_ok log (sv\<lparr>br_heap := h\<rparr>)" "token_ok (sv\<lparr>br_heap := h\<rparr>)"
      using log tok by (simp_all add: log_ok_def token_ok_def tokens_def)
    ultimately show ?thesis using log_drop [of log "sv\<lparr>br_heap := h\<rparr>" i sv', OF _ _ _ _ _ _ _ ns]
      by (simp add: sv' tokens_def)
  qed
next
  case (C_Write snapshot rest buffer result pos)
  show ?thesis
  proof (cases rest)
    case Nil
    with step C_Write show ?thesis
      by (auto simp: caller_step_def tokens_def intro!: log_move [OF log])
  next
    case (Cons i js)
    from write_frame [OF step C_Write [unfolded Cons]] C_Write show ?thesis
      by (auto simp: tokens_def writing_tokens intro!: log_move [OF log])
  qed
next
  case C_Join
  with step assms(4) show ?thesis
    by (auto simp: caller_step_def finish_close_def bindR_Inr_iff Let_def split: if_splits)
qed (use step in \<open>auto simp: caller_step_def tokens_def split: if_splits option.splits
      intro!: log_move [OF log]\<close>)

lemma log_call:
  assumes "log_ok log sv" and "br_caller sv = C_Idle"
  shows "log_ok log (start_call c sv)"
  by (rule log_move [OF assms(1)]) (use assms(2) in \<open>cases c; auto simp: tokens_def\<close>)+

subsection \<open>Every reachable state\<close>

text \<open>
  A session is open or closed; \<open>announcing\<close> says that it was opened with a handler.
\<close>

definition session_inv ::
  "bool \<Rightarrow> fd \<Rightarrow> ('w \<Rightarrow> fd set) \<Rightarrow> announcement list \<Rightarrow> 'w broadcast_server \<times> 'w \<Rightarrow> bool" where
  "session_inv announcing F opened log s \<longleftrightarrow> (case s of (sv, w) \<Rightarrow>
     server_inv F opened sv w \<and> (announcing \<longrightarrow> log_ok log sv)
     \<or> closed_ok sv \<and> (announcing \<longrightarrow> (\<forall>a. count_list log a \<le> 1)))"

lemma log_count: "log_ok log sv \<Longrightarrow> count_list log a \<le> 1"
  by (cases a) (simp_all add: log_ok_def)

lemma log_sweep: "log_ok log (sweep sv) = log_ok log sv"
  by (simp add: log_ok_def)

lemma closing_silent:
  assumes "caller_step os expired sv w = Some (Inr (ns, sv', w'))" and "closed_ok sv'"
    and "br_socket sv \<noteq> None"
  shows "ns = []"
  using assms
  by (auto simp: caller_step_def closed_ok_def bindR_Inr_iff unlist_def
      dest!: drop_client_frame split: caller_pc.splits list.splits option.splits if_splits)

lemma session_monitor:
  assumes os: "broadcast_os os opened" and inv: "session_inv h F opened log (sv, w)"
    and step: "monitor_step os sv w = Some (Inr (ns, sv', w'))"
  shows "session_inv h F opened (log @ ns) (sweep sv', w')"
proof (cases "closed_ok sv")
  case True
  with closed_steps(1) [OF True] step show ?thesis by simp
next
  case False
  with inv have sv: "server_inv F opened sv w" "h \<longrightarrow> log_ok log sv" by (auto simp: session_inv_def)
  then have "token_ok sv" by (simp add: server_inv_def)
  with log_monitor [OF _ this step] sv(2) have log: "h \<longrightarrow> log_ok (log @ ns) sv'" by blast
  from monitor_step_ok [OF sv(1) os] step have "server_inv F opened sv' w' \<or> closed_ok sv'"
    by (simp add: step_ok_def)
  then show ?thesis
  proof
    assume "server_inv F opened sv' w'"
    from sweep_inv [OF this] log show ?thesis by (simp add: session_inv_def log_sweep)
  next
    assume "closed_ok sv'"
    from closed_steps(5) [OF this] log show ?thesis by (auto simp: session_inv_def dest: log_count)
  qed
qed

lemma session_caller:
  assumes os: "broadcast_os os opened" and inv: "session_inv h F opened log (sv, w)"
    and step: "caller_step os expired sv w = Some (Inr (ns, sv', w'))"
  shows "session_inv h F opened (log @ ns) (sweep sv', w')"
proof (cases "closed_ok sv")
  case True
  from inv have "h \<longrightarrow> (\<forall>a. count_list log a \<le> 1)"
    by (auto simp: session_inv_def dest: log_count)
  with closed_steps(3) [OF True step] closed_steps(5) [of sv'] show ?thesis
    by (simp add: session_inv_def)
next
  case False
  with inv have sv: "server_inv F opened sv w" "h \<longrightarrow> log_ok log sv" by (auto simp: session_inv_def)
  then have tok: "token_ok sv" and sock: "br_socket sv \<noteq> None" by (simp_all add: server_inv_def)
  from caller_step_ok [OF sv(1) os, of expired] step
  have "server_inv F opened sv' w' \<or> closed_ok sv'" by (simp add: step_ok_def)
  then show ?thesis
  proof
    assume inv': "server_inv F opened sv' w'"
    then have "br_socket sv' \<noteq> None" by (simp add: server_inv_def)
    with log_caller [OF _ tok step] sv(2) have "h \<longrightarrow> log_ok (log @ ns) sv'" by blast
    with sweep_inv [OF inv'] show ?thesis by (simp add: session_inv_def log_sweep)
  next
    assume closed: "closed_ok sv'"
    from closing_silent [OF step closed sock] closed_steps(5) [OF closed] sv(2) show ?thesis
      by (auto simp: session_inv_def dest: log_count)
  qed
qed

lemma session_call:
  assumes inv: "session_inv h F opened log (sv, w)" and "br_caller sv = C_Idle" and "call_ok c"
  shows "session_inv h F opened log (start_call c sv, w)"
  using inv start_call_inv [of F opened sv w c] closed_steps(4) [of sv c] log_call [of log sv c] assms(2,3)
  by (auto simp: session_inv_def)

lemma session_run:
  assumes os: "broadcast_os os opened" and "server_run os s0 log s" and "session_inv h F opened [] s0"
  shows "session_inv h F opened log s"
  using assms(2)
proof (induction rule: server_run.induct)
  case (step log s ns s')
  from step.hyps(2) show ?case
  proof (cases rule: server_step.cases)
    case (monitor sv w sv' w')
    with session_monitor [OF os] step.IH show ?thesis by blast
  next
    case (caller expired sv w sv' w')
    with session_caller [OF os] step.IH show ?thesis by blast
  next
    case (call sv c w)
    with session_call step.IH show ?thesis by auto
  qed
qed (rule assms(3))

lemma session_start:
  assumes "broadcast_os os opened" and "quiet_handler handler opened"
    and "SocketBroadcastServerImpl_open os handler (SocketBroadcastServerImpl_new cfg tls) w
        = Inr (result, sv, w')" and "sr_code result = SUCCESS"
  shows "\<exists>F. session_inv (handler \<noteq> None) F opened [] (sv, w')"
  using opened_session [OF assms] by (auto simp: session_inv_def log_ok_def)

subsection \<open>Schedules\<close>

text \<open>
  An execution written down: whose turn it is. \<open>None\<close> if the thread has to wait.
\<close>

datatype turn = Monitor | Caller bool | Enter call

definition take_turn ::
  "'w os \<Rightarrow> turn \<Rightarrow> 'w broadcast_server \<Rightarrow> 'w
   \<Rightarrow> (announcement list \<times> 'w broadcast_server \<times> 'w) result option" where
  "take_turn os t sv w =
     (case t of
        Monitor \<Rightarrow> map_option (\<lambda>r. bindR r (\<lambda>(ns, sv, w). Inr (ns, sweep sv, w))) (monitor_step os sv w)
      | Caller expired \<Rightarrow>
          map_option (\<lambda>r. bindR r (\<lambda>(ns, sv, w). Inr (ns, sweep sv, w))) (caller_step os expired sv w)
      | Enter c \<Rightarrow>
          if br_caller sv = C_Idle \<and> call_ok c then Some (Inr ([], start_call c sv, w)) else None)"

fun play ::
  "'w os \<Rightarrow> turn list \<Rightarrow> 'w broadcast_server \<Rightarrow> 'w
   \<Rightarrow> (announcement list \<times> 'w broadcast_server \<times> 'w) result option" where
  "play os [] sv w = Some (Inr ([], sv, w))"
| "play os (t # ts) sv w =
     (case take_turn os t sv w of None \<Rightarrow> None
      | Some (Inl e) \<Rightarrow> Some (Inl e)
      | Some (Inr (ns, sv, w)) \<Rightarrow>
          map_option (\<lambda>r. bindR r (\<lambda>(ms, sv, w). Inr (ns @ ms, sv, w))) (play os ts sv w))"

lemma take_turn_step:
  "take_turn os t sv w = Some (Inr (ns, sv', w')) \<Longrightarrow> server_step os (sv, w) ns (sv', w')"
  by (cases t) (auto simp: take_turn_def bindR_Inr_iff split: if_splits intro: server_step.intros)

lemma play_run:
  "server_run os s0 log (sv, w) \<Longrightarrow> play os ts sv w = Some (Inr (ns, sv', w')) \<Longrightarrow>
   server_run os s0 (log @ ns) (sv', w')"
proof (induction ts arbitrary: log sv w ns)
  case (Cons t ts)
  then obtain n1 sv1 w1 n2 where t: "take_turn os t sv w = Some (Inr (n1, sv1, w1))"
      and ts: "play os ts sv1 w1 = Some (Inr (n2, sv', w'))" and ns: "ns = n1 @ n2"
    by (auto simp: bindR_Inr_iff split: option.splits sum.splits)
  have "server_run os s0 (log @ n1) (sv1, w1)"
    by (rule server_run.step [OF Cons.prems(1) take_turn_step [OF t]])
  from Cons.IH [OF this ts] show ?case by (simp add: ns)
qed simp

lemma play_append:
  assumes "play os ts sv w = Some (Inr (ns, sv1, w1))" and "play os us sv1 w1 = Some (Inr (ms, sv2, w2))"
  shows "play os (ts @ us) sv w = Some (Inr (ns @ ms, sv2, w2))"
  using assms(1)
proof (induction ts arbitrary: sv w ns)
  case Nil
  with assms(2) show ?case by simp
next
  case (Cons t ts)
  then obtain n1 sv0 w0 n2 where "take_turn os t sv w = Some (Inr (n1, sv0, w0))"
      "play os ts sv0 w0 = Some (Inr (n2, sv1, w1))" "ns = n1 @ n2"
    by (auto simp: bindR_Inr_iff split: option.splits sum.splits)
  with Cons.IH show ?case by auto
qed

subsection \<open>The caller alone\<close>

definition caller_turns :: "nat \<Rightarrow> turn list" where
  "caller_turns n = replicate n (Caller False)"

lemma caller_turns_simps [simp]:
  "caller_turns 0 = []" "caller_turns (Suc n) = Caller False # caller_turns n"
  by (simp_all add: caller_turns_def)

lemma caller_turns_add: "caller_turns (m + n) = caller_turns m @ caller_turns n"
  by (simp add: caller_turns_def replicate_add)

lemma caller_turn:
  "caller_step os False sv w = Some (Inr (ns, sv', w')) \<Longrightarrow>
   take_turn os (Caller False) sv w = Some (Inr (ns, sweep sv', w'))"
  by (simp add: take_turn_def)

lemma unlist_turns:
  assumes "server_inv F opened sv w" and "br_caller sv = C_Unlist dropped rest"
    and "br_handler sv \<noteq> None"
  shows "\<exists>sv'. play os (caller_turns (length rest)) sv w = Some (Inr ([], sv', w))
    \<and> server_inv F opened sv' w \<and> br_caller sv' = C_Unlist dropped []
    \<and> br_active sv' = br_active sv \<and> br_handler sv' = br_handler sv
    \<and> br_monitor sv' = br_monitor sv"
  using assms
proof (induction rest arbitrary: sv)
  case (Cons i rest)
  obtain sv1 where sv1: "unlist (Client i) sv = Inr sv1"
      "server_inv F opened (sv1\<lparr>br_caller := C_Unlist dropped rest\<rparr>) w"
    using unlist_step_inv [OF Cons.prems(1,2)] by blast
  then have frame: "br_active sv1 = br_active sv" "br_handler sv1 = br_handler sv"
      "br_monitor sv1 = br_monitor sv"
    by (auto simp: unlist_def bindR_Inr_iff)
  let ?sv = "sweep (sv1\<lparr>br_caller := C_Unlist dropped rest\<rparr>)"
  have turn: "take_turn os (Caller False) sv w = Some (Inr ([], ?sv, w))"
    by (rule caller_turn) (simp add: caller_step_def Cons.prems(2) sv1(1))
  from Cons.IH [of ?sv] sweep_inv [OF sv1(2)] Cons.prems(3) frame turn show ?case by auto
qed auto

lemma drop_turns:
  assumes os: "broadcast_os os opened" and "server_inv F opened sv w"
    and "br_caller sv = C_Drop dropped rest" and "br_handler sv \<noteq> None"
  shows "\<exists>sv' w'. play os (caller_turns (length rest)) sv w
      = Some (Inr (map Disconnected rest, sv', w'))
    \<and> server_inv F opened sv' w' \<and> br_caller sv' = C_Drop dropped []
    \<and> br_active sv' = br_active sv \<and> br_handler sv' = br_handler sv
    \<and> br_monitor sv' = br_monitor sv"
  using assms(2-)
proof (induction rest arbitrary: sv w)
  case (Cons i rest)
  obtain ns sv1 w1 where sv1: "drop_client os i sv w = Inr (ns, sv1, w1)"
      "server_inv F opened (sv1\<lparr>br_caller := C_Drop dropped rest\<rparr>) w1"
    using drop_step_inv [OF Cons.prems(1) os Cons.prems(2)] by blast
  from drop_client_frame [OF sv1(1)] Cons.prems(3)
  have frame: "br_active sv1 = br_active sv" "br_handler sv1 = br_handler sv" "ns = [Disconnected i]"
      "br_monitor sv1 = br_monitor sv"
    by (auto simp: announce_disconnected_def)
  let ?sv = "sweep (sv1\<lparr>br_caller := C_Drop dropped rest\<rparr>)"
  have turn: "take_turn os (Caller False) sv w = Some (Inr ([Disconnected i], ?sv, w1))"
    by (rule caller_turn) (simp add: caller_step_def Cons.prems(2) sv1(1) frame(3))
  from Cons.IH [of ?sv w1] sweep_inv [OF sv1(2)] Cons.prems(3) frame turn show ?case by auto
qed auto

lemma drop_all_turns:
  assumes os: "broadcast_os os opened" and inv: "server_inv F opened sv w"
    and idle: "br_caller sv = C_Idle" and h: "br_handler sv \<noteq> None"
  shows "\<exists>sv' w'. play os (Enter Call_DropAll # caller_turns (2 * length (br_active sv) + 2)) sv w
      = Some (Inr (map Disconnected (br_active sv), sv', w'))
    \<and> br_caller sv' = C_Idle \<and> br_active sv' = []
    \<and> br_monitor sv' = br_monitor sv \<and> br_handler sv' = br_handler sv"
proof -
  let ?as = "br_active sv"
  let ?sv0 = "start_call Call_DropAll sv"
  have inv0: "server_inv F opened ?sv0 w" by (rule start_call_inv [OF inv idle]) simp
  obtain sv1 where sv1: "play os (caller_turns (length ?as)) ?sv0 w = Some (Inr ([], sv1, w))"
      "server_inv F opened sv1 w" "br_caller sv1 = C_Unlist ?as []" "br_active sv1 = []"
      "br_handler sv1 = br_handler sv" "br_monitor sv1 = br_monitor sv"
    using unlist_turns [OF inv0, of ?as ?as os] h by auto
  let ?sv2 = "sweep (sv1\<lparr>br_pending := br_pending sv1 @ ?as, br_caller := C_Drop ?as ?as\<rparr>)"
  have sv2: "take_turn os (Caller False) sv1 w = Some (Inr ([], ?sv2, w))"
    by (rule caller_turn) (simp add: caller_step_def sv1(3))
  obtain sv3 w3 where sv3: "play os (caller_turns (length ?as)) ?sv2 w
      = Some (Inr (map Disconnected ?as, sv3, w3))" "br_caller sv3 = C_Drop ?as []" "br_active sv3 = []"
      "br_handler sv3 = br_handler sv" "br_monitor sv3 = br_monitor sv"
    using drop_turns [OF os sweep_inv [OF handover_inv [OF sv1(2,3)]], of ?as ?as] h sv1(4-6) by auto
  let ?sv4 = "sweep (sv3\<lparr>br_caller := C_Idle\<rparr>)"
  have sv4: "take_turn os (Caller False) sv3 w3 = Some (Inr ([], ?sv4, w3))"
    by (rule caller_turn) (simp add: caller_step_def sv3(2))
  have "play os (caller_turns (length ?as + 1)) ?sv2 w = Some (Inr (map Disconnected ?as, ?sv4, w3))"
    using play_append [OF sv3(1), of "[Caller False]" "[]" ?sv4 w3] sv4
    by (simp add: caller_turns_def replicate_append_same [symmetric])
  then have "play os (caller_turns (length ?as + 2)) sv1 w = Some (Inr (map Disconnected ?as, ?sv4, w3))"
    using sv2 by simp
  from play_append [OF sv1(1) this]
  have "play os (caller_turns (length ?as) @ caller_turns (length ?as + 2)) ?sv0 w
      = Some (Inr (map Disconnected ?as, ?sv4, w3))"
    by simp
  moreover have eq: "2 * length ?as + 2 = length ?as + (length ?as + 2)" by simp
  ultimately have "play os (caller_turns (2 * length ?as + 2)) ?sv0 w
      = Some (Inr (map Disconnected ?as, ?sv4, w3))"
    unfolding eq caller_turns_add by simp
  moreover have "take_turn os (Enter Call_DropAll) sv w = Some (Inr ([], ?sv0, w))"
    using idle by (simp add: take_turn_def)
  ultimately have "play os (Enter Call_DropAll # caller_turns (2 * length ?as + 2)) sv w
      = Some (Inr (map Disconnected ?as, ?sv4, w3))"
    by (simp del: start_call.simps)
  moreover have "br_caller ?sv4 = C_Idle" "br_active ?sv4 = []" "br_monitor ?sv4 = br_monitor sv"
      "br_handler ?sv4 = br_handler sv" using sv3 by simp_all
  ultimately show ?thesis by blast
qed

text \<open>The sockets of a list of clients, as \<^verbatim>\<open>write\<close> finds them in its snapshot.\<close>

definition sockets_of :: "'w broadcast_server \<Rightarrow> client_id list \<Rightarrow> server_socket option list" where
  "sockets_of sv js = map (\<lambda>i. bc_container (the (br_heap sv i))) js"

text \<open>
  What the caller's steps keep of the clients of a snapshot when nobody else steps in
  between, and one of its steps in \<^verbatim>\<open>write\<close>.
\<close>

definition same_clients :: "client_id list \<Rightarrow> 'w broadcast_server \<Rightarrow> 'w broadcast_server \<Rightarrow> bool" where
  "same_clients snapshot sv sv' \<longleftrightarrow>
     br_cfg sv' = br_cfg sv \<and> (\<forall>i \<in> set snapshot. br_heap sv' i = br_heap sv i)"

lemma same_clients_trans:
  "same_clients snapshot sv sv1 \<Longrightarrow> same_clients snapshot sv1 sv2 \<Longrightarrow> same_clients snapshot sv sv2"
  by (simp add: same_clients_def)

lemma write_turn:
  assumes "br_caller sv = C_Write snapshot (i # rest) buffer result pos"
    and "write_step os i buffer result pos sv w = Inr (t, w1)"
  shows "\<exists>sv1. br_caller sv1 = writing snapshot i rest buffer result t \<and> same_clients snapshot sv sv1
    \<and> (\<forall>ts ns sv' w'. play os ts sv1 w1 = Some (Inr (ns, sv', w')) \<longrightarrow>
         play os (Caller False # ts) sv w = Some (Inr (ns, sv', w')))"
proof -
  let ?sv = "sweep (sv\<lparr>br_caller := writing snapshot i rest buffer result t\<rparr>)"
  have "take_turn os (Caller False) sv w = Some (Inr ([], ?sv, w1))"
    by (rule caller_turn) (simp add: caller_step_def assms writing_def [symmetric])
  moreover have "same_clients snapshot sv ?sv"
    by (auto simp: same_clients_def sweep_def owned_def writing_def split: write_turn.split)
  ultimately show ?thesis by (intro exI [of _ ?sv]) simp
qed

text \<open>
  The caller alone gets from one state to another one, in which it is at \<open>pc\<close> and the clients
  of the snapshot are as they were.
\<close>

definition reaches ::
  "'w os \<Rightarrow> client_id list \<Rightarrow> 'w broadcast_server \<Rightarrow> 'w \<Rightarrow> caller_pc \<Rightarrow> 'w \<Rightarrow> bool" where
  "reaches os snapshot sv w pc w' \<longleftrightarrow>
     (\<exists>n sv'. play os (caller_turns n) sv w = Some (Inr ([], sv', w'))
        \<and> br_caller sv' = pc \<and> same_clients snapshot sv sv')"

lemma reaches_done: "br_caller sv = pc \<Longrightarrow> reaches os snapshot sv w pc w"
  unfolding reaches_def by (intro exI [of _ 0] exI [of _ sv]) (simp add: same_clients_def)

lemma reaches_step:
  assumes "br_caller sv = C_Write snapshot (i # rest) buffer result pos"
    and "write_step os i buffer result pos sv w = Inr (t, w1)"
    and rest: "\<And>sv1. br_caller sv1 = writing snapshot i rest buffer result t \<Longrightarrow>
        same_clients snapshot sv sv1 \<Longrightarrow> reaches os snapshot sv1 w1 pc w'"
  shows "reaches os snapshot sv w pc w'"
proof -
  obtain sv1 where sv1: "br_caller sv1 = writing snapshot i rest buffer result t" "same_clients snapshot sv sv1"
      "\<forall>ts ns sv' w'. play os ts sv1 w1 = Some (Inr (ns, sv', w')) \<longrightarrow>
         play os (Caller False # ts) sv w = Some (Inr (ns, sv', w'))"
    using write_turn [OF assms(1,2)] by blast
  from rest [OF sv1(1,2)] obtain n sv' where n: "play os (caller_turns n) sv1 w1 = Some (Inr ([], sv', w'))"
      "br_caller sv' = pc" "same_clients snapshot sv1 sv'" unfolding reaches_def by blast
  from sv1(3) n(1) have "play os (Caller False # caller_turns n) sv w = Some (Inr ([], sv', w'))" by blast
  then have "play os (caller_turns (Suc n)) sv w = Some (Inr ([], sv', w'))" by simp
  with same_clients_trans [OF sv1(2) n(3)] n(2) show ?thesis unfolding reaches_def by blast
qed

lemma reaches_trans:
  assumes "reaches os snapshot sv w pc1 w1"
    and "\<And>sv1. br_caller sv1 = pc1 \<Longrightarrow> same_clients snapshot sv sv1 \<Longrightarrow> reaches os snapshot sv1 w1 pc w'"
  shows "reaches os snapshot sv w pc w'"
proof -
  from assms(1) obtain m sv1 where m: "play os (caller_turns m) sv w = Some (Inr ([], sv1, w1))"
      "br_caller sv1 = pc1" "same_clients snapshot sv sv1" unfolding reaches_def by blast
  from assms(2) [OF m(2,3)] obtain n sv' where n: "play os (caller_turns n) sv1 w1 = Some (Inr ([], sv', w'))"
      "br_caller sv' = pc" "same_clients snapshot sv1 sv'" unfolding reaches_def by blast
  from play_append [OF m(1) n(1)] have "play os (caller_turns (m + n)) sv w = Some (Inr ([], sv', w'))"
    by (simp add: caller_turns_add)
  with same_clients_trans [OF m(3) n(3)] n(2) show ?thesis unfolding reaches_def by blast
qed

text \<open>The steps over one client compute its loop, whatever the number of rounds.\<close>

lemma client_loop_turns:
  assumes loop: "client_loop (ServerActiveSocket_write os sock) (SocketEventListener_wait os l t)
      m buffer (of_nat (length buffer)) k written w = Some (Inr (r, w'))"
    and "br_caller sv = C_Write snapshot (i # rest) buffer result (W_Wait l k written)"
    and "i \<in> set snapshot" and "br_heap sv i = Some c" and "bc_container c = Some sock"
    and "t = cfg_write_timeout (br_cfg sv)" and "m = unat (cfg_max_retries (br_cfg sv))"
  shows "reaches os snapshot sv w (C_Write snapshot rest buffer r W_Next) w'"
proof -
  let ?n = "of_nat (length buffer) :: size_t"
  let ?send = "ServerActiveSocket_write os sock" and ?wait = "SocketEventListener_wait os l t"
  let ?at = "\<lambda>(sv :: 'a broadcast_server) k written. br_caller sv = C_Write snapshot (i # rest) buffer result (W_Wait l k written)
      \<and> br_heap sv i = Some c \<and> cfg_write_timeout (br_cfg sv) = t \<and> unat (cfg_max_retries (br_cfg sv)) = m"
  let ?goal = "\<lambda>sv w. reaches os snapshot sv w (C_Write snapshot rest buffer r W_Next) w'"
  let ?P = "\<lambda>send wait m' (buffer' :: byte list) n' k written w (y :: (SocketResult \<times> 'a) result).
      send = ?send \<longrightarrow> wait = ?wait \<longrightarrow> m' = m \<longrightarrow> buffer' = buffer \<longrightarrow> n' = ?n \<longrightarrow> y = Inr (r, w') \<longrightarrow>
      (\<forall>sv. ?at sv k written \<longrightarrow> ?goal sv w)"
  have "?P ?send ?wait m buffer ?n k written w (Inr (r, w'))"
  proof (rule client_loop.raw_induct [of ?P, OF _ loop], goal_cases)
    case (1 f send wait m' buffer' n' k written w y)
    show ?case
    proof (intro impI allI)
      fix sv
      assume eqs: "send = ?send" "wait = ?wait" "m' = m" "buffer' = buffer" "n' = ?n" "y = Inr (r, w')"
        and sv: "?at sv k written"
      note step = 1(2) [unfolded eqs]
      have IH: "?goal sv1 v" if "f ?send ?wait m buffer ?n k' wr v = Some (Inr (r, w'))" "?at sv1 k' wr" for k' wr v sv1
        using 1(1) [of ?send ?wait m buffer ?n k' wr v "Inr (r, w')"] that by blast
      have keep: "br_heap sv1 i = Some c \<and> cfg_write_timeout (br_cfg sv1) = t
          \<and> unat (cfg_max_retries (br_cfg sv1)) = m" if "same_clients snapshot sv sv1" for sv1
        using that sv assms(3) by (simp add: same_clients_def)
      have pc: "br_caller sv = C_Write snapshot (i # rest) buffer result (W_Wait l k written)" using sv by blast
      show "?goal sv w"
      proof (cases "k < m")
        case False
        then have "write_step os i buffer result (W_Wait l k written) sv w = Inr (W_Done (mkCode SUCCESS), w)"
          using sv by (simp add: write_step_def)
        moreover have "r = mkCode SUCCESS" "w' = w" using step False by simp_all
        ultimately show ?thesis
          by (intro reaches_step [OF pc]) (auto simp: writing_def intro: reaches_done)
      next
        case k: True
        obtain r1 w1 where wait: "?wait w = (r1, w1)" by fastforce
        show ?thesis
        proof (cases "sr_code r1 = SUCCESS")
          case False
          show ?thesis
          proof (cases "sr_code r1 = SOCKET_TIMEOUT")
            case True
            then have "write_step os i buffer result (W_Wait l k written) sv w
                = Inr (W_At (W_Wait l (k + 1) written), w1)"
              using sv k wait by (simp add: write_step_def)
            moreover have "f ?send ?wait m buffer ?n (k + 1) written w1 = Some (Inr (r, w'))"
              using step k wait True by simp
            ultimately show ?thesis
              by (intro reaches_step [OF pc]) (auto simp: writing_def dest: keep intro!: IH)
          next
            case fail: False
            then have "write_step os i buffer result (W_Wait l k written) sv w
                = Inr (W_Done (mkResult (sr_code r1) (i32 (uint written))), w1)"
              using sv k wait False by (simp add: write_step_def)
            moreover have "r = mkResult (sr_code r1) (i32 (uint written))" "w' = w1"
              using step k wait False fail by simp_all
            ultimately show ?thesis
              by (intro reaches_step [OF pc]) (auto simp: writing_def intro: reaches_done)
          qed
        next
          case ready: True
          then have first: "write_step os i buffer result (W_Wait l k written) sv w
              = Inr (W_At (W_Send l k written), w1)"
            using sv k wait by (simp add: write_step_def)
          have call: "?goal sv2 w1"
            if pc2: "br_caller sv2 = C_Write snapshot (i # rest) buffer result (W_Call l k written (bs_fd sock))"
              and same2: "same_clients snapshot sv sv2" for sv2
          proof -
            obtain chunk where chunk: "read_mem buffer written (?n - written) = Inr chunk"
              using step k wait ready by (cases "read_mem buffer written (?n - written)") simp_all
            obtain r2 w2 where send: "?send chunk w1 = (r2, w2)" by fastforce
            then have raw: "socket_send os (bs_fd sock) chunk w1 = (r2, w2)"
              by (simp add: ServerActiveSocket_write_def)
            note rest = step [unfolded wait prod.case Let_def chunk sum.case send]
            let ?wr = "written + size_of (sr_bytes r2)"
            consider (timeout) "sr_code r2 = SOCKET_TIMEOUT"
              | (fail) "sr_code r2 \<noteq> SOCKET_TIMEOUT" "sr_code r2 \<noteq> SUCCESS"
              | (full) "sr_code r2 = SUCCESS" "?n \<le> ?wr"
              | (more) "sr_code r2 = SUCCESS" "\<not> ?n \<le> ?wr" by blast
            then show ?thesis
            proof cases
              case timeout
              then have "write_step os i buffer result (W_Call l k written (bs_fd sock)) sv2 w1
                  = Inr (W_At (W_Wait l (k + 1) written), w2)"
                by (simp add: write_step_def chunk raw)
              moreover have "f ?send ?wait m buffer ?n (k + 1) written w2 = Some (Inr (r, w'))"
                using rest k ready timeout by simp
              ultimately show ?thesis
                by (intro reaches_step [OF pc2])
                  (auto simp: writing_def dest!: same_clients_trans [OF same2] keep intro!: IH)
            next
              case fail
              then have "write_step os i buffer result (W_Call l k written (bs_fd sock)) sv2 w1
                  = Inr (W_Done (mkResult (sr_code r2) (i32 (uint written))), w2)"
                by (simp add: write_step_def chunk raw)
              moreover have "r = mkResult (sr_code r2) (i32 (uint written))" "w' = w2"
                using rest k ready fail by simp_all
              ultimately show ?thesis
                by (intro reaches_step [OF pc2]) (auto simp: writing_def intro: reaches_done)
            next
              case full
              then have "write_step os i buffer result (W_Call l k written (bs_fd sock)) sv2 w1
                  = Inr (W_Done (mkResult SUCCESS (i32 (uint ?wr))), w2)"
                by (simp add: write_step_def chunk raw Let_def)
              moreover have "r = mkResult SUCCESS (i32 (uint ?wr))" "w' = w2"
                using rest k ready full by simp_all
              ultimately show ?thesis
                by (intro reaches_step [OF pc2]) (auto simp: writing_def intro: reaches_done)
            next
              case more
              then have "write_step os i buffer result (W_Call l k written (bs_fd sock)) sv2 w1
                  = Inr (W_At (W_Wait l k ?wr), w2)"
                by (simp add: write_step_def chunk raw Let_def)
              moreover have "f ?send ?wait m buffer ?n k ?wr w2 = Some (Inr (r, w'))"
                using rest k ready more by simp
              ultimately show ?thesis
                by (intro reaches_step [OF pc2])
                  (auto simp: writing_def dest!: same_clients_trans [OF same2] keep intro!: IH)
            qed
          qed
          have second: "?goal sv1 w1"
            if pc1: "br_caller sv1 = C_Write snapshot (i # rest) buffer result (W_Send l k written)"
              and same1: "same_clients snapshot sv sv1" for sv1
          proof (rule reaches_step [OF pc1])
            show "write_step os i buffer result (W_Send l k written) sv1 w1
                = Inr (W_At (W_Call l k written (bs_fd sock)), w1)"
              using keep [OF same1] assms(5) by (simp add: write_step_def)
          qed (auto simp: writing_def intro: call same_clients_trans [OF same1])
          show ?thesis
            by (rule reaches_step [OF pc first]) (auto simp: writing_def intro: second)
        qed
      qed
    qed
  qed
  with assms(2,4,6,7) show ?thesis by simp
qed

lemma write_turns:
  assumes "set snapshot \<subseteq> dom (br_heap sv)" and "set rest \<subseteq> set snapshot"
    and "br_caller sv = C_Write snapshot rest buffer result W_Next"
    and "write_clients os (br_cfg sv) buffer (of_nat (length buffer)) (sockets_of sv rest) result w
      = Some (Inr (r, w'))"
  shows "reaches os snapshot sv w (C_Write snapshot [] buffer r W_Next) w'"
  using assms
proof (induction rest arbitrary: sv result w)
  case Nil
  then show ?case by (auto simp: sockets_of_def intro: reaches_done)
next
  case (Cons i rest)
  let ?n = "of_nat (length buffer) :: size_t"
  obtain c where c: "br_heap sv i = Some c" using Cons.prems(1,2) by auto
  have socks: "sockets_of sv (i # rest) = bc_container c # sockets_of sv rest" by (simp add: sockets_of_def c)
  have tail: "reaches os snapshot sv1 w1 (C_Write snapshot [] buffer r W_Next) w'"
    if "br_caller sv1 = C_Write snapshot rest buffer r1 W_Next" and same: "same_clients snapshot sv sv1"
      and out: "write_clients os (br_cfg sv) buffer ?n (sockets_of sv rest) r1 w1 = Some (Inr (r, w'))"
    for sv1 r1 w1
  proof (rule Cons.IH [OF _ _ that(1)])
    have heap: "br_heap sv1 j = br_heap sv j" if "j \<in> set snapshot" for j
      using that same by (simp add: same_clients_def)
    then show "set snapshot \<subseteq> dom (br_heap sv1)" using Cons.prems(1) by (auto simp: dom_def)
    show "set rest \<subseteq> set snapshot" using Cons.prems(2) by simp
    have "sockets_of sv1 rest = sockets_of sv rest"
      using heap Cons.prems(2) by (auto simp: sockets_of_def)
    then show "write_clients os (br_cfg sv1) buffer ?n (sockets_of sv1 rest) r1 w1 = Some (Inr (r, w'))"
      using out same by (simp add: same_clients_def)
  qed
  show ?case
  proof (cases "bc_container c")
    case None
    then have "write_step os i buffer result W_Next sv w = Inr (W_Done result, w)"
      by (simp add: write_step_def c)
    moreover have "write_clients os (br_cfg sv) buffer ?n (sockets_of sv rest) result w = Some (Inr (r, w'))"
      using Cons.prems(4) None by (simp add: socks)
    ultimately show ?thesis
      by (intro reaches_step [OF Cons.prems(3)]) (auto simp: writing_def intro: tail)
  next
    case (Some sock)
    let ?l = "(bs_fd sock, POLLOUT)"
    have first: "write_step os i buffer result W_Next sv w = Inr (W_At (W_Wait ?l 0 0), w)"
      by (simp add: write_step_def c Some open_listener)
    obtain r1 w1 where client: "write_client os (br_cfg sv) sock buffer ?n w = Some (Inr (r1, w1))"
        and out: "write_clients os (br_cfg sv) buffer ?n (sockets_of sv rest) r1 w1 = Some (Inr (r, w'))"
      using Cons.prems(4) by (auto simp: socks Some split: option.splits sum.splits)
    have loop: "reaches os snapshot sv1 w (C_Write snapshot rest buffer r1 W_Next) w1"
      if "br_caller sv1 = C_Write snapshot (i # rest) buffer result (W_Wait ?l 0 0)"
        and "same_clients snapshot sv sv1" for sv1
      by (rule client_loop_turns [OF _ that(1) _ _ Some])
        (use client that(2) c Cons.prems(2) in
          \<open>simp_all add: write_client_def open_listener same_clients_def\<close>)
    have "reaches os snapshot sv1 w (C_Write snapshot [] buffer r W_Next) w'"
      if "br_caller sv1 = C_Write snapshot (i # rest) buffer result (W_Wait ?l 0 0)"
        and "same_clients snapshot sv sv1" for sv1
      by (rule reaches_trans [OF loop [OF that]])
        (use that(2) out in \<open>auto intro: tail same_clients_trans\<close>)
    then show ?thesis
      by (intro reaches_step [OF Cons.prems(3) first]) (simp_all add: writing_def)
  qed
qed

lemma write_call_turns:
  assumes inv: "server_inv F opened sv w" and idle: "br_caller sv = C_Idle" and len: "length buffer < 2 ^ 64"
    and ref: "broadcast_write os (br_cfg sv) (sockets_of sv (br_active sv)) buffer (of_nat (length buffer)) w
      = Some (Inr (r, w'))"
  shows "\<exists>n sv'. play os (Enter (Call_Write buffer) # caller_turns n) sv w
      = Some (Inr ([], sv', w')) \<and> br_caller sv' = C_Return r"
proof -
  let ?as = "br_active sv"
  let ?sv0 = "start_call (Call_Write buffer) sv"
  have enter: "take_turn os (Enter (Call_Write buffer)) sv w = Some (Inr ([], ?sv0, w))"
    using idle len by (simp add: take_turn_def)
  have "\<exists>n sv'. play os (caller_turns n) ?sv0 w = Some (Inr ([], sv', w')) \<and> br_caller sv' = C_Return r"
  proof (cases "?as = []")
    case True
    with ref have "r = mkResult SUCCESS 0" "w' = w" by (simp_all add: broadcast_write_def sockets_of_def)
    with True show ?thesis by (intro exI [of _ 0] exI [of _ ?sv0]) simp
  next
    case False
    have "set ?as \<subseteq> dom (br_heap sv)" using inv by (auto simp: server_inv_def owned_def)
    moreover have "write_clients os (br_cfg sv) buffer (of_nat (length buffer)) (sockets_of sv ?as)
        (mkCode SUCCESS) w = Some (Inr (r, w'))"
      using ref False by (simp add: broadcast_write_def sockets_of_def)
    ultimately have "reaches os ?as ?sv0 w (C_Write ?as [] buffer r W_Next) w'"
      using False by (intro write_turns) (simp_all add: sockets_of_def)
    then obtain n sv1 where n: "play os (caller_turns n) ?sv0 w = Some (Inr ([], sv1, w'))"
        "br_caller sv1 = C_Write ?as [] buffer r W_Next" unfolding reaches_def by blast
    let ?sv2 = "sweep (sv1\<lparr>br_caller := C_Return r\<rparr>)"
    have "take_turn os (Caller False) sv1 w' = Some (Inr ([], ?sv2, w'))"
      by (rule caller_turn) (simp add: caller_step_def n(2))
    then have "play os (caller_turns 1) sv1 w' = Some (Inr ([], ?sv2, w'))" by simp
    from play_append [OF n(1) this] have "play os (caller_turns (n + 1)) ?sv0 w = Some (Inr ([], ?sv2, w'))"
      by (simp only: caller_turns_add append_Nil)
    moreover have "br_caller ?sv2 = C_Return r" by simp
    ultimately show ?thesis by blast
  qed
  then obtain n sv' where "play os (caller_turns n) ?sv0 w = Some (Inr ([], sv', w'))"
      "br_caller sv' = C_Return r" by blast
  with enter show ?thesis by (intro exI [of _ n] exI [of _ sv']) (simp del: start_call.simps)
qed

subsection \<open>A concrete session\<close>

text \<open>
  A kernel whose descriptors are a set: the listening socket is 3; it accepts one client, as
  5, always reports the listening socket, and any other as writable if that is asked.
\<close>

definition session_os :: "fd set os" where
  "session_os = null_os\<lparr>
     os_socket := (\<lambda>u S. (3, insert 3 S)),
     os_bind := (\<lambda>s a S. (0, S)),
     os_listen := (\<lambda>s S. (0, S)),
     os_getaddrinfo := (\<lambda>ip port server S. (Inr [], S)),
     os_accept := (\<lambda>s S. if 5 \<in> S then ((- 1, \<lparr>sin_addr = 0, sin_port = 0\<rparr>), S)
                       else ((5, \<lparr>sin_addr = 0, sin_port = 0\<rparr>), insert 5 S)),
     os_close := (\<lambda>s S. S - {s}),
     os_send := (\<lambda>s buf S. (int (length buf), S)),
     os_poll := (\<lambda>fds t S. ((1, map (\<lambda>p. if fst p = 3 then POLLIN else snd p AND POLLOUT) fds), S))\<rparr>"

definition silent_handler :: "'w broadcast_handler" where
  "silent_handler = \<lparr>bh_connected = (\<lambda>ip port w. w), bh_disconnected = (\<lambda>ip port w. w)\<rparr>"

definition no_tls :: SocketTLSServerConfiguration where
  "no_tls = SocketTLSServerConfiguration_new [] [] [] None None None AUTH_MODE_NONE None"

lemma session_env: "broadcast_os session_os id" "quiet_handler (Some silent_handler) id"
  by (auto simp: broadcast_os_def quiet_def session_os_def null_os_def quiet_handler_def silent_handler_def
      split: if_splits)

definition opened_server :: "'w broadcast_handler option \<Rightarrow> 'w broadcast_server" where
  "opened_server handler = (SocketBroadcastServerImpl_new sample_cfg no_tls)\<lparr>
     br_socket := Some \<lparr>bs_result = mkCode SUCCESS, bs_fd = 3\<rparr>, br_handler := handler,
     br_server_ctx := \<lparr>ec_fd = 3, ec_type = UNDEFINED\<rparr>,
     br_listener := \<lparr>ml_server = 3, ml_contexts = [AcceptCtx], ml_handle = [(3, POLLIN)]\<rparr>,
     br_monitoring := True, br_monitor := M_Top\<rparr>"

lemma no_tls_valid: "\<not> ts_valid no_tls"
  by (simp add: ts_valid_def no_tls_def SocketTLSServerConfiguration_new_def or_bits_def)

lemma zero_array_strings: "c_str (zero_array 128) = Inr ''''" "c_str (zero_array 16) = Inr ''''"
  by (simp_all add: c_str_def zero_array_def)

lemma session_opens:
  "SocketBroadcastServerImpl_open session_os handler (SocketBroadcastServerImpl_new sample_cfg no_tls) {}
     = Inr (mkCode SUCCESS, opened_server handler, {3})"
  by (simp add: SocketBroadcastServerImpl_open_def SocketBroadcastServerImpl_new_def sample_cfg_def
      PassiveSocketContainer_new_def PassiveSocket_new_def open_stream_socket_def session_os_def
      null_os_def setNonBlockingMode_def SocketAddress_new_def write_zero_bytes PassiveSocket_bind_def
      PassiveSocket_listen_def addEvent_def ctx_of_def SocketMultiEventListener_open_def
      multi_listener_new_def opened_server_def no_tls_valid zero_array_strings i32_small Let_def)

lemmas session_eval = take_turn_def monitor_step_def opened_server_def SocketBroadcastServerImpl_new_def
  sweep_def owned_def wait_snapshot_def session_os_def null_os_def ctx_of_def event_type_def has_event_def
  poll_consts after_wait_def store_ctx_def dispatch_event_def accept_client_def PassiveSocket_accept_def
  ServerActiveSocket_new_def setNonBlockingMode_def setNoDelay_def addEvent_def ip_text_def
  announce_connected_def silent_handler_def result_simps

lemma first_client:
  "\<exists>sv. play session_os [Monitor, Monitor, Monitor, Monitor, Monitor, Monitor]
      (opened_server (Some silent_handler)) {3} = Some (Inr ([Connected 0], sv, {3, 5}))
    \<and> br_active sv = [0] \<and> br_caller sv = C_Idle \<and> br_monitor sv = M_Dispatch [] \<and> br_next sv = 1
    \<and> br_socket sv \<noteq> None \<and> br_cfg sv = sample_cfg
    \<and> map_option bs_fd (bc_container (the (br_heap sv 0))) = Some 5"
  by (simp add: session_eval insert_commute)

subsection \<open>Properties\<close>

text \<open>
  C1. Whatever the interleaving of the monitor's steps and the caller's, neither thread
  touches a freed client, a missing socket or memory outside a buffer, in any state a session
  can reach; the one fault there is, is the monitor's treatment of a failed listening socket,
  whose context it takes for a client (\<open>BadCast\<close>). While the session is open no client is
  listed twice; the socket of every client holds \<open>- 1\<close> or a descriptor of its own, which is
  open, not the listening one, and in no other client's socket.
\<close>

theorem broadcast_safe:
  assumes "broadcast_os os opened" and "quiet_handler handler opened"
    and "SocketBroadcastServerImpl_open os handler (SocketBroadcastServerImpl_new cfg tls) w0
        = Inr (result, sv0, w1)" and "sr_code result = SUCCESS"
    and "server_run os (sv0, w1) log (sv, w)"
  shows "(monitor_step os sv w = Some (Inl e) \<longrightarrow> e = BadCast \<and> listener_failed sv)
    \<and> caller_step os expired sv w \<noteq> Some (Inl e)
    \<and> (br_socket sv \<noteq> None \<longrightarrow> distinct (br_active sv)
       \<and> (\<forall>i c. br_heap sv i = Some c \<longrightarrow> (\<exists>sock. bc_container c = Some sock
             \<and> (bs_fd sock = - 1 \<or> live_fd (br_heap sv) i = Some (bs_fd sock))))
       \<and> (\<forall>i f. live_fd (br_heap sv) i = Some f \<longrightarrow>
             f \<in> opened w \<and> f \<noteq> ec_fd (br_server_ctx sv)
             \<and> (\<forall>j. live_fd (br_heap sv) j = Some f \<longrightarrow> j = i)))"
proof -
  obtain F where "session_inv (handler \<noteq> None) F opened [] (sv0, w1)"
    using session_start [OF assms(1-4)] by blast
  with session_run [OF assms(1,5)] have "server_inv F opened sv w \<or> closed_ok sv"
    by (auto simp: session_inv_def)
  then show ?thesis
  proof
    assume inv: "server_inv F opened sv w"
    then have heap: "heap_ok F (opened w) (br_next sv) (br_heap sv)" "ec_fd (br_server_ctx sv) = F"
        "distinct (br_active sv)"
      by (simp_all add: server_inv_def token_ok_def tokens_def)
    have "monitor_step os sv w = Some (Inl e) \<longrightarrow> e = BadCast \<and> listener_failed sv"
        "caller_step os expired sv w \<noteq> Some (Inl e)"
      using monitor_step_ok [OF inv assms(1)] caller_step_ok [OF inv assms(1), of expired]
      by (auto simp: step_ok_def)
    moreover have "\<exists>sock. bc_container c = Some sock
        \<and> (bs_fd sock = - 1 \<or> live_fd (br_heap sv) i = Some (bs_fd sock))" if "br_heap sv i = Some c" for i c
      using heap(1) that unfolding heap_ok_def by blast
    moreover have "f \<in> opened w \<and> f \<noteq> F \<and> (\<forall>j. live_fd (br_heap sv) j = Some f \<longrightarrow> j = i)"
      if "live_fd (br_heap sv) i = Some f" for i f
      using heap(1) that unfolding heap_ok_def by blast
    ultimately show ?thesis using heap(2,3) by blast
  next
    assume closed: "closed_ok sv"
    from closed_steps(1) [OF closed, of os w] closed_steps(2) [OF closed, of 0 opened os expired w] closed
    show ?thesis by (auto simp: step_ok_def closed_ok_def)
  qed
qed

theorem broadcast_safe_witness:
  "\<exists>sv. play session_os [Monitor, Monitor, Monitor, Monitor, Monitor, Monitor]
      (opened_server (Some silent_handler)) {3} = Some (Inr ([Connected 0], sv, {3, 5}))
    \<and> br_active sv = [0] \<and> monitor_step session_os sv {3, 5} \<noteq> Some (Inl UseAfterFree)"
proof -
  obtain sv where sv: "play session_os [Monitor, Monitor, Monitor, Monitor, Monitor, Monitor]
      (opened_server (Some silent_handler)) {3} = Some (Inr ([Connected 0], sv, {3, 5}))"
      "br_active sv = [0]"
    using first_client by blast
  have "server_run session_os (opened_server (Some silent_handler), {3}) [Connected 0] (sv, {3, 5})"
    using play_run [OF server_run.start sv(1)] by simp
  from broadcast_safe [OF session_env session_opens _ this, of UseAfterFree False] sv show ?thesis by auto
qed

text \<open>
  C13. Each client is announced as connected once, when the monitor has taken it over, and as
  disconnected once, when it is neither in the active list nor in the hands of \<^verbatim>\<open>dropAll\<close> or of
  the monitor any more: at every moment of an open session the announcements made so far are
  exactly these, and no announcement is ever made twice.
\<close>

theorem broadcast_announcements:
  assumes "broadcast_os os opened" and "quiet_handler (Some h) opened"
    and "SocketBroadcastServerImpl_open os (Some h) (SocketBroadcastServerImpl_new cfg tls) w0
        = Inr (result, sv0, w1)" and "sr_code result = SUCCESS"
    and "server_run os (sv0, w1) log (sv, w)"
  shows "(br_socket sv \<noteq> None \<longrightarrow>
       count_list log (Connected i) = of_bool (i < br_next sv \<and> i \<notin> unannounced (br_monitor sv))
     \<and> count_list log (Disconnected i) = of_bool (i < br_next sv \<and> i \<notin> set (tokens sv)))
   \<and> count_list log a \<le> 1"
proof -
  obtain F where "session_inv True F opened [] (sv0, w1)"
    using session_start [OF assms(1-4)] by auto
  with session_run [OF assms(1,5)] have "log_ok log sv \<or> closed_ok sv \<and> (\<forall>a. count_list log a \<le> 1)"
    by (auto simp: session_inv_def)
  then show ?thesis
    using log_count [of log sv a] by (auto simp: log_ok_def closed_ok_def)
qed

theorem broadcast_announcements_witness:
  "\<exists>sv. play session_os [Monitor, Monitor, Monitor, Monitor, Monitor, Monitor]
      (opened_server (Some silent_handler)) {3} = Some (Inr ([Connected 0], sv, {3, 5}))
    \<and> count_list [Connected 0] (Connected 0) = of_bool (0 < br_next sv \<and> 0 \<notin> unannounced (br_monitor sv))"
proof -
  obtain sv where sv: "play session_os [Monitor, Monitor, Monitor, Monitor, Monitor, Monitor]
      (opened_server (Some silent_handler)) {3} = Some (Inr ([Connected 0], sv, {3, 5}))"
      "br_socket sv \<noteq> None"
    using first_client by blast
  have "server_run session_os (opened_server (Some silent_handler), {3}) [Connected 0] (sv, {3, 5})"
    using play_run [OF server_run.start sv(1)] by simp
  from broadcast_announcements [OF session_env session_opens _ this, of 0] sv show ?thesis by auto
qed

text \<open>
  C17. \<^verbatim>\<open>dropAll\<close> never waits for the monitor: from every reachable state of an open session the
  caller's own steps, two for each client and two more, take it to its return, with the
  active list empty and every client that was in it announced as disconnected, in order.
\<close>

theorem drop_all_completes:
  assumes "broadcast_os os opened" and "quiet_handler (Some h) opened"
    and "SocketBroadcastServerImpl_open os (Some h) (SocketBroadcastServerImpl_new cfg tls) w0
        = Inr (result, sv0, w1)" and "sr_code result = SUCCESS"
    and "server_run os (sv0, w1) log (sv, w)"
    and "br_caller sv = C_Idle" and "br_socket sv \<noteq> None"
  shows "\<exists>sv' w'. play os (Enter Call_DropAll # caller_turns (2 * length (br_active sv) + 2)) sv w
      = Some (Inr (map Disconnected (br_active sv), sv', w'))
    \<and> br_caller sv' = C_Idle \<and> br_active sv' = []"
proof -
  obtain F where "session_inv True F opened [] (sv0, w1)"
    using session_start [OF assms(1-4)] by auto
  with session_run [OF assms(1,5)] assms(7) have inv: "server_inv F opened sv w" and "log_ok log sv"
    by (auto simp: session_inv_def closed_ok_def)
  then have "br_handler sv \<noteq> None" by (simp add: log_ok_def)
  from drop_all_turns [OF assms(1) inv assms(6) this] show ?thesis
    by (elim exE conjE) (intro exI conjI)
qed

theorem drop_all_completes_witness:
  "\<exists>sv sv' w'. play session_os [Monitor, Monitor, Monitor, Monitor, Monitor, Monitor]
      (opened_server (Some silent_handler)) {3} = Some (Inr ([Connected 0], sv, {3, 5}))
    \<and> play session_os (Enter Call_DropAll # caller_turns 4) sv {3, 5} = Some (Inr ([Disconnected 0], sv', w'))"
proof -
  obtain sv where sv: "play session_os [Monitor, Monitor, Monitor, Monitor, Monitor, Monitor]
      (opened_server (Some silent_handler)) {3} = Some (Inr ([Connected 0], sv, {3, 5}))"
      "br_active sv = [0]" "br_caller sv = C_Idle" "br_socket sv \<noteq> None"
    using first_client by blast
  have "server_run session_os (opened_server (Some silent_handler), {3}) [Connected 0] (sv, {3, 5})"
    using play_run [OF server_run.start sv(1)] by simp
  from drop_all_completes [OF session_env session_opens _ this sv(3,4)] sv show ?thesis by auto
qed

text \<open>
  C18. \<^verbatim>\<open>write\<close> on the shared state refines the loop over the clients' sockets: from every
  reachable state of an open session in which the caller is free, if that loop returns for
  the sockets of the active clients, then some number of the caller's steps, none of another
  thread in between, takes \<^verbatim>\<open>write\<close> to its return, with the same result and in the same world.
\<close>

theorem write_is_broadcast:
  assumes "broadcast_os os opened" and "quiet_handler handler opened"
    and "SocketBroadcastServerImpl_open os handler (SocketBroadcastServerImpl_new cfg tls) w0
        = Inr (result, sv0, w1)" and "sr_code result = SUCCESS"
    and "server_run os (sv0, w1) log (sv, w)"
    and "br_caller sv = C_Idle" and "br_socket sv \<noteq> None" and "length buffer < 2 ^ 64"
    and "broadcast_write os (br_cfg sv) (sockets_of sv (br_active sv)) buffer (of_nat (length buffer)) w
      = Some (Inr (r, w'))"
  shows "\<exists>n sv'. play os (Enter (Call_Write buffer) # caller_turns n) sv w
      = Some (Inr ([], sv', w')) \<and> br_caller sv' = C_Return r"
proof -
  obtain F where "session_inv (handler \<noteq> None) F opened [] (sv0, w1)"
    using session_start [OF assms(1-4)] by blast
  with session_run [OF assms(1,5)] assms(7) have "server_inv F opened sv w"
    by (auto simp: session_inv_def closed_ok_def)
  then show ?thesis by (rule write_call_turns [OF _ assms(6,8,9)])
qed

theorem write_is_broadcast_witness:
  "\<exists>sv n sv'. play session_os [Monitor, Monitor, Monitor, Monitor, Monitor, Monitor]
      (opened_server (Some silent_handler)) {3} = Some (Inr ([Connected 0], sv, {3, 5}))
    \<and> play session_os (Enter (Call_Write [1, 2]) # caller_turns n) sv {3, 5} = Some (Inr ([], sv', {3, 5}))
    \<and> br_caller sv' = C_Return (mkResult SUCCESS 2)"
proof -
  obtain sv where sv: "play session_os [Monitor, Monitor, Monitor, Monitor, Monitor, Monitor]
      (opened_server (Some silent_handler)) {3} = Some (Inr ([Connected 0], sv, {3, 5}))"
      "br_active sv = [0]" "br_caller sv = C_Idle" "br_socket sv \<noteq> None"
      "br_cfg sv = sample_cfg" "map_option bs_fd (bc_container (the (br_heap sv 0))) = Some 5"
    using first_client by blast
  have run: "server_run session_os (opened_server (Some silent_handler), {3}) [Connected 0] (sv, {3, 5})"
    using play_run [OF server_run.start sv(1)] by simp
  obtain sock where sock: "bc_container (the (br_heap sv 0)) = Some sock" "bs_fd sock = 5"
    using sv(6) by auto
  have "write_client session_os sample_cfg sock [1, 2] 2 {3, 5} = Some (Inr (mkResult SUCCESS 2, {3, 5}))"
    by (simp add: write_client_def sock(2) sample_cfg_def open_listener) (subst client_loop.simps,
      simp add: SocketEventListener_wait_def wait_with_def session_os_def null_os_def has_event_def
        poll_consts read_mem_def ServerActiveSocket_write_def socket_send_def recv_result_def sock(2)
        createResult_def size_of_def i32_small Let_def)
  then have "broadcast_write session_os (br_cfg sv) (sockets_of sv (br_active sv)) [1, 2]
      (of_nat (length [1 :: byte, 2])) {3, 5} = Some (Inr (mkResult SUCCESS 2, {3, 5}))"
    by (simp add: broadcast_write_def sockets_of_def sv(2,5) sock(1))
  from write_is_broadcast [OF session_env session_opens _ run sv(3,4) _ this] sv(1) show ?thesis by auto
qed

end
