(* ===== verification/Public_API.thy ===== *)
theory Public_API
  imports Client_Sessions Request_Types Broadcast_Session
begin

text \<open>
  The public classes of \<^verbatim>\<open>SecuritySocket.hpp\<close>. Each holds the object of its implementation class
  in a byte array and forwards every member to it; the destructors close. The members of
  \<^verbatim>\<open>SocketClient\<close> are in \<^theory_text>\<open>Client_Sessions\<close>. For the request server a call of the application and
  an iteration of the thread are the events of a run; for the broadcast server a call is the
  beginning of an operation of its caller.
\<close>

subsection \<open>The library\<close>

text \<open>
  \<^verbatim>\<open>WSAStartup\<close> and \<^verbatim>\<open>WSACleanup\<close> on Windows; elsewhere (\<open>None\<close>) nothing happens.
\<close>

definition initializeSecuritySocket :: "('w \<Rightarrow> int \<times> 'w) option \<Rightarrow> 'w \<Rightarrow> bool \<times> 'w" where
  "initializeSecuritySocket wsa_startup w =
     (case wsa_startup of None \<Rightarrow> (True, w)
      | Some startup \<Rightarrow> (let (ret, w) = startup w in if ret \<noteq> 0 then (False, w) else (True, w)))"

definition releaseSecuritySocket :: "('w \<Rightarrow> 'w) option \<Rightarrow> 'w \<Rightarrow> 'w" where
  "releaseSecuritySocket wsa_cleanup w = (case wsa_cleanup of None \<Rightarrow> w | Some cleanup \<Rightarrow> cleanup w)"

subsection \<open>Request server\<close>

text \<open>
  The server and its thread, while there is one: the pool is then the thread's. A thread that
  has left its loop after an error of the wait is gone, though \<^verbatim>\<open>_is_running\<close> stays set.
\<close>

record request_api =
  ra_server :: request_server
  ra_thread :: "run_state option"

datatype request_action = RS_Open | RS_Close | RS_Destroy | RS_Iteration

definition request_api_new ::
  "SocketConfiguration \<Rightarrow> SocketTLSServerConfiguration \<Rightarrow> request_api" where
  "request_api_new cfg tls = \<lparr>ra_server = SocketRequestServerImpl_new cfg tls, ra_thread = None\<rparr>"

definition request_open :: "'w os \<Rightarrow> request_api \<Rightarrow> 'w \<Rightarrow> (SocketResult \<times> request_api \<times> 'w) result" where
  "request_open os a w =
     bindR (SocketRequestServerImpl_open os (ra_server a) w) (\<lambda>(result, sv, w).
       if rq_running sv \<and> \<not> rq_running (ra_server a) then
         (case rq_socket sv of None \<Rightarrow> Inl NullDeref
          | Some s \<Rightarrow> bindR (run_start s (rq_pool sv)) (\<lambda>st.
              Inr (result, \<lparr>ra_server = sv, ra_thread = Some st\<rparr>, w)))
       else Inr (result, a\<lparr>ra_server := sv\<rparr>, w))"

text \<open>The thread ends: its view of the pool becomes the object's.\<close>

definition leave_thread :: "request_api \<Rightarrow> request_server" where
  "leave_thread a =
     (case ra_thread a of None \<Rightarrow> ra_server a | Some st \<Rightarrow> (ra_server a)\<lparr>rq_pool := rs_pool st\<rparr>)"

text \<open>\<^verbatim>\<open>close\<close> clears the flag and joins the thread, which ends at its next test of the flag.\<close>

definition request_close :: "'w os \<Rightarrow> request_api \<Rightarrow> 'w \<Rightarrow> (request_api \<times> 'w) result" where
  "request_close os a w =
     (if rq_running (ra_server a) then
        bindR (SocketRequestServerImpl_close os (leave_thread a) w) (\<lambda>(sv, w).
          Inr (\<lparr>ra_server = sv, ra_thread = None\<rparr>, w))
      else Inr (a, w))"

definition request_iteration ::
  "'w os \<Rightarrow> 'w handler \<Rightarrow> request_api \<Rightarrow> 'w \<Rightarrow> (request_api \<times> 'w) result" where
  "request_iteration os h a w =
     (case ra_thread a of None \<Rightarrow> Inr (a, w)
      | Some st \<Rightarrow>
         (case rq_socket (ra_server a) of None \<Rightarrow> Inl NullDeref
          | Some s \<Rightarrow> bindR (run_iteration os h (rq_cfg (ra_server a)) s st w) (\<lambda>(go, st, w).
              let a = a\<lparr>ra_thread := Some st\<rparr> in
              Inr (if go then a else \<lparr>ra_server = leave_thread a, ra_thread = None\<rparr>, w))))"

fun request_event ::
  "'w os \<Rightarrow> 'w handler \<Rightarrow> request_action \<Rightarrow> request_api \<Rightarrow> 'w \<Rightarrow> (request_api \<times> 'w) result" where
  "request_event os h RS_Open a w = bindR (request_open os a w) (\<lambda>(result, a, w). Inr (a, w))"
| "request_event os h RS_Close a w = request_close os a w"
| "request_event os h RS_Destroy a w = request_close os a w"
| "request_event os h RS_Iteration a w = request_iteration os h a w"

fun request_events ::
  "'w os \<Rightarrow> 'w handler \<Rightarrow> request_action list \<Rightarrow> request_api \<Rightarrow> 'w \<Rightarrow> (request_api \<times> 'w) result" where
  "request_events os h [] a w = Inr (a, w)"
| "request_events os h (x # xs) a w =
     bindR (request_event os h x a w) (\<lambda>(a, w). request_events os h xs a w)"

subsection \<open>Broadcast server\<close>

datatype 'w broadcast_api_call =
    BS_Open "'w broadcast_handler option" | BS_Close | BS_Write "byte list"
  | BS_Await | BS_AwaitClose | BS_DropAll | BS_Destroy

text \<open>
  The server after the member has been entered; \<open>None\<close>: the caller is still in another one.
  The time-outs of the two waits are the caller's choice of when they expire.
\<close>

fun broadcast_call ::
  "'w os \<Rightarrow> 'w broadcast_api_call \<Rightarrow> 'w broadcast_server \<Rightarrow> 'w
   \<Rightarrow> (announcement list \<times> 'w broadcast_server \<times> 'w) result option" where
  "broadcast_call os (BS_Open handler) sv w =
     (if br_caller sv = C_Idle
      then Some (bindR (SocketBroadcastServerImpl_open os handler sv w) (\<lambda>(result, sv, w). Inr ([], sv, w)))
      else None)"
| "broadcast_call os (BS_Write buffer) sv w = take_turn os (Enter (Call_Write buffer)) sv w"
| "broadcast_call os BS_Await sv w = take_turn os (Enter Call_Await) sv w"
| "broadcast_call os BS_AwaitClose sv w = take_turn os (Enter Call_AwaitClose) sv w"
| "broadcast_call os BS_DropAll sv w = take_turn os (Enter Call_DropAll) sv w"
| "broadcast_call os BS_Close sv w = take_turn os (Enter Call_Close) sv w"
| "broadcast_call os BS_Destroy sv w = take_turn os (Enter Call_Close) sv w"

subsection \<open>Sessions of the request server\<close>

lemma request_events_append:
  "request_events os h (xs @ ys) a w =
     bindR (request_events os h xs a w) (\<lambda>(a, w). request_events os h ys a w)"
  by (induction xs arbitrary: a w) (simp_all add: bindR_assoc split_def)

lemma iterations_stopped:
  "ra_thread a = None \<Longrightarrow> request_events os h (replicate n RS_Iteration) a w = Inr (a, w)"
  by (induction n) (simp_all add: request_iteration_def)

text \<open>The iterations of a thread, and the view of the pool it leaves behind, are its loop.\<close>

lemma iterations_loop:
  assumes "rq_socket sv = Some s"
  shows "bindR (request_events os h (replicate n RS_Iteration) \<lparr>ra_server = sv, ra_thread = Some st\<rparr> w)
      (\<lambda>(a, w). Inr (leave_thread a, w))
    = bindR (run_loop n os h (rq_cfg sv) s st w) (\<lambda>(st, w). Inr (sv\<lparr>rq_pool := rs_pool st\<rparr>, w))"
proof (induction n arbitrary: st w)
  case 0
  then show ?case by (simp add: leave_thread_def)
next
  case (Suc n)
  show ?case
  proof (cases "run_iteration os h (rq_cfg sv) s st w")
    case (Inl e)
    with assms show ?thesis by (simp add: request_iteration_def)
  next
    case (Inr r)
    obtain go st1 w1 where r: "r = (go, st1, w1)" by (metis prod.exhaust)
    show ?thesis
    proof (cases go)
      case True
      with Inr r assms Suc.IH show ?thesis by (simp add: request_iteration_def)
    next
      case False
      with Inr r assms show ?thesis
        by (simp add: request_iteration_def iterations_stopped leave_thread_def)
    qed
  qed
qed


lemma leave_thread_simps [simp]:
  "rq_running (leave_thread a) = rq_running (ra_server a)"
  "rq_cfg (leave_thread a) = rq_cfg (ra_server a)"
  "rq_socket (leave_thread a) = rq_socket (ra_server a)"
  by (simp_all add: leave_thread_def split: option.splits)

lemma session_events:
  assumes "\<not> rq_running sv"
  shows "request_events os h (RS_Open # replicate n RS_Iteration @ [RS_Close])
      \<lparr>ra_server = sv, ra_thread = None\<rparr> w
    = bindR (serve_session n os h sv w) (\<lambda>(sv, w). Inr (\<lparr>ra_server = sv, ra_thread = None\<rparr>, w))"
proof (cases "SocketRequestServerImpl_open os sv w")
  case (Inl e)
  then show ?thesis by (simp add: request_open_def serve_session_def)
next
  case (Inr p)
  obtain r sv1 w1 where p: "p = (r, sv1, w1)" by (metis prod.exhaust)
  note op = Inr [unfolded p]
  show ?thesis
  proof (cases "rq_running sv1")
    case False
    with op assms show ?thesis
      by (simp add: request_open_def serve_session_def request_events_append iterations_stopped
          request_close_def SocketRequestServerImpl_close_def)
  next
    case True
    show ?thesis
    proof (cases "rq_socket sv1")
      case None
      with op assms True show ?thesis by (simp add: request_open_def serve_session_def)
    next
      case (Some s)
      show ?thesis
      proof (cases "run_start s (rq_pool sv1)")
        case (Inl e)
        with op assms True Some show ?thesis by (simp add: request_open_def serve_session_def run_def)
      next
        case (Inr st)
        note loop = iterations_loop [OF Some, of os h n st w1]
        show ?thesis
        proof (cases "request_events os h (replicate n RS_Iteration) \<lparr>ra_server = sv1, ra_thread = Some st\<rparr> w1")
          case (Inl e)
          with loop have "run_loop n os h (rq_cfg sv1) s st w1 = Inl e"
            by (cases "run_loop n os h (rq_cfg sv1) s st w1") auto
          with Inl op assms True Some \<open>run_start s (rq_pool sv1) = Inr st\<close> show ?thesis
            by (simp add: request_open_def serve_session_def run_def request_events_append)
        next
          case (Inr q)
          obtain a w2 where q: "q = (a, w2)" by fastforce
          with Inr loop obtain st2 where st2: "run_loop n os h (rq_cfg sv1) s st w1 = Inr (st2, w2)"
              "leave_thread a = sv1\<lparr>rq_pool := rs_pool st2\<rparr>"
            by (cases "run_loop n os h (rq_cfg sv1) s st w1") auto
          then have "rq_running (ra_server a)" using True leave_thread_simps(1) [of a] by simp
          with Inr q st2 op assms True Some \<open>run_start s (rq_pool sv1) = Inr st\<close> show ?thesis
            by (simp add: request_open_def serve_session_def run_def request_events_append request_close_def)
              (simp add: bindR_assoc split_def)
        qed
      qed
    qed
  qed
qed

lemma close_stops:
  assumes "SocketRequestServerImpl_close os sv w = Inr (sv', w')"
  shows "\<not> rq_running sv'"
proof (cases "rq_socket sv")
  case None
  with assms show ?thesis by (simp add: SocketRequestServerImpl_close_def Let_def split: if_splits)
next
  case (Some s)
  obtain s' v where "PassiveSocket_close os s w = (s', v)" by fastforce
  with Some assms show ?thesis by (auto simp: SocketRequestServerImpl_close_def Let_def split: if_splits)
qed

lemma session_stopped: "serve_session n os h sv w = Inr (sv', w') \<Longrightarrow> \<not> rq_running sv'"
  by (auto simp: serve_session_def bindR_Inr_iff split: if_splits option.splits dest: close_stops)

definition session_actions :: "nat list \<Rightarrow> request_action list" where
  "session_actions ns = concat (map (\<lambda>n. RS_Open # replicate n RS_Iteration @ [RS_Close]) ns)"

subsection \<open>Any sequence of calls\<close>

text \<open>
  The invariant between two events: the books of the pool, wherever it is; while there is a
  thread, that of its state.
\<close>

definition api_ok :: "('w \<Rightarrow> fd set) \<Rightarrow> ('w \<Rightarrow> int) \<Rightarrow> request_api \<Rightarrow> 'w \<Rightarrow> bool" where
  "api_ok opened clients a w \<longleftrightarrow>
     pool_size (rq_pool (leave_thread a)) = 32
     \<and> clients w = int (card (dom (pool_objects (rq_pool (leave_thread a)))))
     \<and> (if rq_running (ra_server a)
        then \<exists>s. rq_socket (ra_server a) = Some s
               \<and> pool_ready (rq_pool (leave_thread a)) (opened w - {bs_fd s})
               \<and> (\<forall>st. ra_thread a = Some st \<longrightarrow> (\<exists>L. server_wf L s opened clients st w))
        else ra_thread a = None \<and> pool_ready (rq_pool (ra_server a)) (opened w))"

definition keeps_api ::
  "('w \<Rightarrow> fd set) \<Rightarrow> ('w \<Rightarrow> int) \<Rightarrow> (request_api \<times> 'w) result \<Rightarrow> bool" where
  "keeps_api opened clients r \<longleftrightarrow>
     (case r of Inl e \<Rightarrow> e \<in> session_faults | Inr (a, w) \<Rightarrow> api_ok opened clients a w)"

lemma leave_thread_cases [simp]:
  "leave_thread \<lparr>ra_server = sv, ra_thread = None\<rparr> = sv"
  "leave_thread \<lparr>ra_server = sv, ra_thread = Some st\<rparr> = sv\<lparr>rq_pool := rs_pool st\<rparr>"
  by (simp_all add: leave_thread_def)

lemma thread_ok:
  assumes "rq_running sv" and "rq_socket sv = Some s" and wf: "server_wf L s opened clients st w"
    and "pool_size (rs_pool st) = 32"
  shows "api_ok opened clients \<lparr>ra_server = sv, ra_thread = Some st\<rparr> w"
    and "api_ok opened clients \<lparr>ra_server = sv\<lparr>rq_pool := rs_pool st\<rparr>, ra_thread = None\<rparr> w"
  using assms server_wf_ready(1) [OF wf] by (auto simp: api_ok_def server_wf_def)

lemma request_open_ok:
  assumes os: "server_os os opened clients" and l: "listening_os os opened clients"
    and ok: "api_ok opened clients a w"
  shows "keeps_api opened clients (bindR (request_open os a w) (\<lambda>(result, a, w). Inr (a, w)))"
proof (cases "rq_running (ra_server a)")
  case True
  with ok show ?thesis by (simp add: request_open_def SocketRequestServerImpl_open_def keeps_api_def)
next
  case False
  let ?sv = "ra_server a"
  have idle: "ra_thread a = None" "pool_ready (rq_pool ?sv) (opened w)" "pool_size (rq_pool ?sv) = 32"
      "clients w = int (card (dom (pool_objects (rq_pool ?sv))))"
    using ok False by (auto simp: api_ok_def leave_thread_def)
  note op = open_env [OF os l False, of w]
  show ?thesis
  proof (cases "SocketRequestServerImpl_open os ?sv w")
    case (Inl e)
    with op show ?thesis by (auto simp: request_open_def keeps_api_def session_faults_def server_faults_def)
  next
    case (Inr p)
    obtain r sv1 w1 where p: "p = (r, sv1, w1)" by (metis prod.exhaust)
    with op Inr have same: "rq_pool sv1 = rq_pool ?sv" "clients w1 = clients w" "opened w \<subseteq> opened w1"
      and run1: "rq_running sv1 \<longrightarrow> (\<exists>s. rq_socket sv1 = Some s \<and> bs_fd s \<in> opened w1 \<and> bs_fd s \<notin> opened w)"
      by simp_all
    show ?thesis
    proof (cases "rq_running sv1")
      case True
      then obtain s where s: "rq_socket sv1 = Some s" "bs_fd s \<in> opened w1" "bs_fd s \<notin> opened w"
        using run1 by blast
      have "pool_ready (rq_pool sv1) (opened w1 - {bs_fd s})"
        using same s(3) by (auto intro: pool_ready_mono [OF idle(2)])
      with run_start_wf [where pool = "rq_pool sv1" and opened = opened and w = w1 and psock = s
          and clients = clients] s(2) idle same obtain st where
          "run_start s (rq_pool sv1) = Inr st" "server_wf (pool_fds (rq_pool sv1)) s opened clients st w1"
          "pool_size (rs_pool st) = 32" by auto
      with thread_ok(1) [OF True s(1)] Inr p s True False show ?thesis
        by (simp add: request_open_def keeps_api_def)
    next
      case False
      with Inr p idle same show ?thesis
        by (simp add: request_open_def keeps_api_def api_ok_def leave_thread_def
            pool_ready_mono [OF idle(2)])
    qed
  qed
qed

lemma request_close_ok:
  assumes os: "server_os os opened clients" and l: "listening_os os opened clients"
    and ok: "api_ok opened clients a w"
  shows "keeps_api opened clients (request_close os a w)"
proof (cases "rq_running (ra_server a)")
  case True
  with ok obtain s where s: "rq_socket (ra_server a) = Some s"
      "pool_ready (rq_pool (leave_thread a)) (opened w - {bs_fd s})" by (auto simp: api_ok_def)
  obtain s' w1 where c: "PassiveSocket_close os s w = (s', w1)" by fastforce
  with True s ok close_env [OF os l c] show ?thesis
    by (simp add: request_close_def SocketRequestServerImpl_close_def keeps_api_def api_ok_def Let_def)
next
  case False
  with ok show ?thesis by (simp add: request_close_def keeps_api_def)
qed

lemma request_iteration_ok:
  assumes os: "server_os os opened clients" and h: "server_handler h opened clients"
    and ok: "api_ok opened clients a w"
  shows "keeps_api opened clients (request_iteration os h a w)"
proof (cases "ra_thread a")
  case None
  with ok show ?thesis by (simp add: request_iteration_def keeps_api_def)
next
  case (Some st)
  then obtain s L where run: "rq_running (ra_server a)" and s: "rq_socket (ra_server a) = Some s"
    and wf: "server_wf L s opened clients st w" and size: "pool_size (rs_pool st) = 32"
    using ok by (auto simp: api_ok_def leave_thread_def split: if_splits)
  note it = run_iteration_wf [OF os h wf, of "rq_cfg (ra_server a)"]
  show ?thesis
  proof (cases "run_iteration os h (rq_cfg (ra_server a)) s st w")
    case (Inl e)
    with it Some s show ?thesis by (simp add: request_iteration_def keeps_api_def session_faults_def)
  next
    case (Inr r)
    obtain go st1 w1 where r: "r = (go, st1, w1)" by (metis prod.exhaust)
    with Inr it size have st1: "server_wf L s opened clients st1 w1" "pool_size (rs_pool st1) = 32" by simp_all
    have a: "a\<lparr>ra_thread := Some st1\<rparr> = \<lparr>ra_server = ra_server a, ra_thread = Some st1\<rparr>" by simp
    from Inr r Some s thread_ok [OF run s st1] show ?thesis
      unfolding request_iteration_def keeps_api_def by (simp add: a Let_def)
  qed
qed

lemma request_events_ok:
  assumes "server_os os opened clients" and "listening_os os opened clients"
    and "server_handler h opened clients"
  shows "api_ok opened clients a w \<Longrightarrow> keeps_api opened clients (request_events os h xs a w)"
proof (induction xs arbitrary: a w)
  case Nil
  then show ?case by (simp add: keeps_api_def)
next
  case (Cons x xs)
  have "keeps_api opened clients (request_event os h x a w)"
    using request_open_ok [OF assms(1,2) Cons.prems] request_close_ok [OF assms(1,2) Cons.prems]
      request_iteration_ok [OF assms(1,3) Cons.prems] by (cases x) simp_all
  with Cons.IH show ?case by (cases "request_event os h x a w") (auto simp: keeps_api_def)
qed

lemma first_api_session:
  "\<exists>a x. request_events reopen_os count_handler [RS_Open, RS_Iteration, RS_Close]
       (request_api_new server_cfg (server_tls [])) ({}, 0) = Inr (a, ({5}, 1))
     \<and> pool_objects (rq_pool (leave_thread a)) 0 = Some x"
proof -
  obtain sv x where sv: "serve_session 1 reopen_os count_handler fresh_server ({}, 0) = Inr (sv, ({5}, 1))"
      "pool_objects (rq_pool sv) 0 = Some x"
    using first_session by (auto simp: bindR_Inr_iff simp del: One_nat_def)
  have "\<not> rq_running fresh_server" by (simp add: fresh_server_def SocketRequestServerImpl_new_def)
  from session_events [OF this, of reopen_os count_handler 1 "({}, 0)"] sv(1)
  have "request_events reopen_os count_handler [RS_Open, RS_Iteration, RS_Close]
      \<lparr>ra_server = fresh_server, ra_thread = None\<rparr> ({}, 0) = Inr (\<lparr>ra_server = sv, ra_thread = None\<rparr>, ({5}, 1))"
    by (simp del: request_events.simps)
  with sv(2) show ?thesis by (auto simp: request_api_new_def fresh_server_def simp del: request_events.simps)
qed

subsection \<open>Properties\<close>

text \<open>
  C8. A session of the public request server is what the session of its implementation
  computes: opening, any number of iterations of the thread and closing, repeated, leave the
  same server and the same world, or end in the same fault.
\<close>

theorem request_api_sessions:
  assumes "\<not> rq_running sv"
  shows "request_events os h (session_actions ns) \<lparr>ra_server = sv, ra_thread = None\<rparr> w
    = bindR (serve_sessions ns os h sv w) (\<lambda>(sv, w). Inr (\<lparr>ra_server = sv, ra_thread = None\<rparr>, w))"
  using assms
proof (induction ns arbitrary: sv w)
  case Nil
  then show ?case by (simp add: session_actions_def)
next
  case (Cons n ns)
  have split: "session_actions (n # ns) = (RS_Open # replicate n RS_Iteration @ [RS_Close]) @ session_actions ns"
    by (simp add: session_actions_def)
  show ?case
  proof (cases "serve_session n os h sv w")
    case (Inl e)
    then show ?thesis unfolding split request_events_append session_events [OF Cons.prems] by simp
  next
    case (Inr p)
    obtain sv1 w1 where p: "p = (sv1, w1)" by fastforce
    with Inr Cons.IH [OF session_stopped] show ?thesis
      unfolding split request_events_append session_events [OF Cons.prems] by simp
  qed
qed

theorem request_api_sessions_witness:
  "\<exists>a x. request_events reopen_os count_handler [RS_Open, RS_Iteration, RS_Close]
       \<lparr>ra_server = fresh_server, ra_thread = None\<rparr> ({}, 0) = Inr (a, ({5}, 1))
     \<and> pool_objects (rq_pool (ra_server a)) 0 = Some x"
proof -
  obtain sv x where sv: "serve_sessions [1] reopen_os count_handler fresh_server ({}, 0) = Inr (sv, ({5}, 1))"
      "pool_objects (rq_pool sv) 0 = Some x"
    using first_session by blast
  have "\<not> rq_running fresh_server" by (simp add: fresh_server_def SocketRequestServerImpl_new_def)
  from request_api_sessions [OF this, of reopen_os count_handler "[1]" "({}, 0)"] sv(1)
  have "request_events reopen_os count_handler [RS_Open, RS_Iteration, RS_Close]
       \<lparr>ra_server = fresh_server, ra_thread = None\<rparr> ({}, 0)
     = Inr (\<lparr>ra_server = sv, ra_thread = None\<rparr>, ({5}, 1))"
    by (simp only: session_actions_def) (simp del: serve_sessions.simps request_event.simps)
  with sv(2) show ?thesis by auto
qed

text \<open>
  C7. Whatever the application calls, in whatever order and between whichever iterations of the
  thread (opening twice, closing twice, destroying while clients are connected), the request
  server never touches a released connection or a connection of an ended thread; the
  application has always been told of as many clients as there are live slots, at most 32,
  and the descriptor of each is open.
\<close>

theorem request_api_safe:
  assumes "server_os os opened clients" and "listening_os os opened clients"
    and "server_handler h opened clients" and "clients w = 0"
  shows "case request_events os h xs (request_api_new cfg tls) w of
      Inl e \<Rightarrow> e \<in> {NotImplemented, NullDeref, BadCast, OutOfBounds}
    | Inr (a, w') \<Rightarrow>
        (\<forall>s x. pool_objects (rq_pool (leave_thread a)) s = Some x \<longrightarrow> bs_fd (conn_socket x) \<in> opened w')
        \<and> clients w' = int (card (dom (pool_objects (rq_pool (leave_thread a))))) \<and> clients w' \<le> 32
        \<and> (ra_thread a \<noteq> None \<longrightarrow> rq_running (ra_server a))"
proof -
  have "api_ok opened clients (request_api_new cfg tls) w"
    using server_new_idle [where opened = opened and clients = clients and w = w and cfg = cfg and tls = tls] assms(4)
    by (simp add: api_ok_def request_api_new_def server_idle_def)
  note ok = request_events_ok [OF assms(1-3) this, of xs]
  show ?thesis
  proof (cases "request_events os h xs (request_api_new cfg tls) w")
    case (Inl e)
    with ok show ?thesis by (auto simp: keeps_api_def session_faults_def server_faults_def)
  next
    case (Inr p)
    obtain a w' where p: "p = (a, w')" by fastforce
    let ?pool = "rq_pool (leave_thread a)"
    have a: "api_ok opened clients a w'" using ok Inr p by (simp add: keeps_api_def)
    then have "pool_ready ?pool (opened w')"
      by (auto simp: api_ok_def leave_thread_def split: if_splits intro: pool_ready_mono)
    then have pw: "pool_wf ?pool" and ran: "ran (pool_fds ?pool) \<subseteq> opened w'"
      by (simp_all add: pool_ready_def)
    have "bs_fd (conn_socket x) \<in> opened w'" if "pool_objects ?pool s = Some x" for s x
      using ran that by (auto simp: pool_fds_def ran_def)
    moreover have "card (dom (pool_objects ?pool)) \<le> 32"
      using pool_counts(2) [OF pw] a by (simp add: api_ok_def)
    moreover have "ra_thread a \<noteq> None \<longrightarrow> rq_running (ra_server a)"
      using a by (simp add: api_ok_def split: if_splits)
    ultimately show ?thesis using Inr p a by (auto simp: api_ok_def)
  qed
qed

theorem request_api_safe_witness:
  "\<exists>a x. request_events reopen_os count_handler [RS_Open, RS_Iteration, RS_Close]
       (request_api_new server_cfg (server_tls [])) ({}, 0) = Inr (a, ({5}, 1))
     \<and> pool_objects (rq_pool (leave_thread a)) 0 = Some x \<and> bs_fd (conn_socket x) \<in> {5}
     \<and> card (dom (pool_objects (rq_pool (leave_thread a)))) = 1"
proof -
  obtain a x where a: "request_events reopen_os count_handler [RS_Open, RS_Iteration, RS_Close]
       (request_api_new server_cfg (server_tls [])) ({}, 0) = Inr (a, ({5}, 1))"
      "pool_objects (rq_pool (leave_thread a)) 0 = Some x"
    using first_api_session by blast
  have "snd ({} :: fd set, 0 :: int) = 0" by simp
  from request_api_safe [OF reopen_env quiet_env(2) this,
      of "[RS_Open, RS_Iteration, RS_Close]" server_cfg "server_tls []"]
  show ?thesis unfolding a(1) using a(2) by (intro exI [of _ a] exI [of _ x]) simp
qed

end
