(* ===== verification/Socket_Container.thy ===== *)
theory Socket_Container
  imports Client
begin

text \<open>
  \<^verbatim>\<open>SocketContainer\<close> of \<^verbatim>\<open>BaseSocket.hpp\<close>: a byte array with a socket in it, plain or TLS, copied
  byte by byte. Elsewhere a container is the object it holds; here containers live at
  addresses, are copied, assigned and destroyed, and the pointers the code keeps are their
  addresses. The TLS classes of the server side, whose members all throw, are here too.
\<close>

subsection \<open>Containers\<close>

record 'o container =
  ct_initialized :: bool
  ct_buffer :: "'o option"

type_synonym addr = nat
type_synonym 'o store = "addr \<Rightarrow> 'o container"

text \<open>The default constructor, and the constructor that builds a socket in the buffer.\<close>

definition SocketContainer_default :: "'o container" where
  "SocketContainer_default = \<lparr>ct_initialized = False, ct_buffer = None\<rparr>"

definition SocketContainer_of :: "'o \<Rightarrow> 'o container" where
  "SocketContainer_of s = \<lparr>ct_initialized = True, ct_buffer = Some s\<rparr>"

definition copyFrom :: "'o container \<Rightarrow> 'o container \<Rightarrow> 'o container" where
  "copyFrom src dst = dst\<lparr>ct_initialized := ct_initialized src, ct_buffer := ct_buffer src\<rparr>"

text \<open>Copy construction and assignment, with the test of \<^verbatim>\<open>this != &container\<close>.\<close>

definition container_assign :: "addr \<Rightarrow> addr \<Rightarrow> 'o store \<Rightarrow> 'o store" where
  "container_assign a b st = (if a \<noteq> b then st(a := copyFrom (st b) (st a)) else st)"

text \<open>\<open>get\<close> returns a pointer into the container, or a null pointer.\<close>

definition container_get :: "addr \<Rightarrow> 'o store \<Rightarrow> addr option" where
  "container_get a st = (if \<not> ct_initialized (st a) then None else Some a)"

definition deref :: "addr option \<Rightarrow> 'o store \<Rightarrow> 'o result" where
  "deref p st =
     (case p of None \<Rightarrow> Inl NullDeref
      | Some a \<Rightarrow> (case ct_buffer (st a) of None \<Rightarrow> Inl Uninitialised | Some s \<Rightarrow> Inr s))"

text \<open>The destructor runs that of the object, if there is one; a parameter here.\<close>

definition container_destroy :: "('o \<Rightarrow> 'w \<Rightarrow> 'w) \<Rightarrow> addr \<Rightarrow> 'o store \<Rightarrow> 'w \<Rightarrow> 'w" where
  "container_destroy destructor a st w =
     (case container_get a st of None \<Rightarrow> w
      | Some p \<Rightarrow> (case ct_buffer (st p) of None \<Rightarrow> w | Some s \<Rightarrow> destructor s w))"

text \<open>
  A temporary at \<open>t\<close> is constructed, assigned to the container at \<open>a\<close> and destroyed at the end
  of the full expression.
\<close>

definition assign_temporary ::
  "('o \<Rightarrow> 'w \<Rightarrow> 'w) \<Rightarrow> addr \<Rightarrow> addr \<Rightarrow> 'o \<Rightarrow> 'o store \<Rightarrow> 'w \<Rightarrow> 'o store \<times> 'w" where
  "assign_temporary destructor a t s st w =
     (let st = st(t := SocketContainer_of s);
          st = container_assign a t st
      in (st, container_destroy destructor t st w))"

subsection \<open>The destructors of the sockets\<close>

definition ClientActiveSocket_destructor :: "client_socket \<Rightarrow> 'w \<Rightarrow> 'w" where
  "ClientActiveSocket_destructor s w = w"

definition ServerActiveSocket_destructor :: "server_socket \<Rightarrow> 'w \<Rightarrow> 'w" where
  "ServerActiveSocket_destructor s w = w"

subsection \<open>Opening a client, with its container\<close>

text \<open>
  \<open>a\<close> is the address of \<^verbatim>\<open>_container\<close>, \<open>t\<close> that of the temporary; the pointer returned is
  \<^verbatim>\<open>_socket\<close>.
\<close>

definition SocketClientImpl_open_at ::
  "'w os \<Rightarrow> 'w ssl_lib \<Rightarrow> addr \<Rightarrow> addr \<Rightarrow> client \<Rightarrow> client_socket store \<Rightarrow> 'w
   \<Rightarrow> (SocketResult \<times> addr option \<times> client_socket store \<times> 'w) result" where
  "SocketClientImpl_open_at os lib a t c st w =
     (let cfg = cl_cfg c; tls = cl_tls c in
      bindR (if tc_valid tls \<and> tc_verify_hostname tls then c_str (cfg_ip cfg) else Inr '''')
        (\<lambda>hostname.
      bindR (ClientActiveSocketContainer_new os lib (tc_valid tls) (cfg_is_unix_domain cfg) tls
               (Some hostname) w)
        (\<lambda>(s, w).
           let (st, w) = assign_temporary ClientActiveSocket_destructor a t s st w;
               socket = container_get a st
           in bindR (deref socket st) (\<lambda>s. Inr (client_valid s, socket, st, w)))))"

lemma assign_temporary_survives:
  assumes "a \<noteq> t" and "assign_temporary destructor a t s st w = (st', w')"
  shows "container_get a st' = Some a \<and> deref (Some a) st' = Inr s \<and> w' = destructor s w
    \<and> (\<forall>b. b \<noteq> a \<longrightarrow> b \<noteq> t \<longrightarrow> st' b = st b)"
  using assms
  by (auto simp: assign_temporary_def container_assign_def container_get_def deref_def
      container_destroy_def copyFrom_def SocketContainer_of_def Let_def)

text \<open>
  Why the destructors must not close: with one that does, the object that survives the
  assignment has lost its descriptor.
\<close>

lemma closing_destructor_breaks:
  assumes "a \<noteq> t" and "\<And>f w. opened (os_close os f w) = opened w - {f}"
    and "assign_temporary (\<lambda>s. os_close os (bs_fd s)) a t s st w = (st', w')"
  shows "deref (container_get a st') st' = Inr s \<and> bs_fd s \<notin> opened w'"
  using assign_temporary_survives [OF assms(1,3)] assms(2) by simp

subsection \<open>The TLS classes of the server side\<close>

definition TLSPassiveSocket_new :: "bool \<Rightarrow> 'w \<Rightarrow> (base_socket \<times> 'w) result" where
  "TLSPassiveSocket_new is_unix_domain w = Inl NotImplemented"

definition TLSPassiveSocket_close :: "base_socket \<Rightarrow> 'w \<Rightarrow> (base_socket \<times> 'w) result" where
  "TLSPassiveSocket_close s w = Inl NotImplemented"

definition TLSPassiveSocket_bind ::
  "base_socket \<Rightarrow> SocketAddress \<Rightarrow> 'w \<Rightarrow> (SocketResult \<times> 'w) result" where
  "TLSPassiveSocket_bind s address w = Inl NotImplemented"

definition TLSPassiveSocket_listen :: "base_socket \<Rightarrow> 'w \<Rightarrow> (SocketResult \<times> 'w) result" where
  "TLSPassiveSocket_listen s w = Inl NotImplemented"

definition TLSPassiveSocket_accept :: "base_socket \<Rightarrow> 'w \<Rightarrow> (server_socket \<times> 'w) result" where
  "TLSPassiveSocket_accept s w = Inl NotImplemented"

definition TLSServerActiveSocket_new ::
  "fd \<Rightarrow> sockaddr_in \<Rightarrow> 'w \<Rightarrow> (server_socket \<times> 'w) result" where
  "TLSServerActiveSocket_new sock addr w = Inl NotImplemented"

definition TLSServerActiveSocket_close :: "server_socket \<Rightarrow> 'w \<Rightarrow> (server_socket \<times> 'w) result" where
  "TLSServerActiveSocket_close s w = Inl NotImplemented"

definition TLSServerActiveSocket_read ::
  "server_socket \<Rightarrow> size_t \<Rightarrow> 'w \<Rightarrow> ((SocketResult \<times> byte list) \<times> 'w) result" where
  "TLSServerActiveSocket_read s n w = Inl NotImplemented"

definition TLSServerActiveSocket_write ::
  "server_socket \<Rightarrow> byte list \<Rightarrow> 'w \<Rightarrow> (SocketResult \<times> 'w) result" where
  "TLSServerActiveSocket_write s buf w = Inl NotImplemented"

lemma passive_container:
  "PassiveSocketContainer_new os tls u w
   = (if tls then TLSPassiveSocket_new u w else Inr (PassiveSocket_new os u w))"
  by (simp add: PassiveSocketContainer_new_def TLSPassiveSocket_new_def)

subsection \<open>Properties\<close>

text \<open>
  C23. Opening a client through its container is what the rest of the development takes it for:
  whatever was in the container before, after the temporary has been built, copied and
  destroyed the pointer the client keeps leads to the socket that was opened, with the same
  result, the same world and the same faults; a null or dangling pointer is never used.
\<close>

theorem open_through_container:
  fixes os :: "'w os"
  assumes "a \<noteq> t"
  shows "bindR (SocketClientImpl_open_at os lib a t c st w)
      (\<lambda>(r, socket, st, w). bindR (deref socket st) (\<lambda>s. Inr (r, c\<lparr>cl_socket := Some s\<rparr>, w)))
    = SocketClientImpl_open os lib c w"
proof -
  have "container_get a (fst (assign_temporary ClientActiveSocket_destructor a t s st w)) = Some a"
    "deref (Some a) (fst (assign_temporary ClientActiveSocket_destructor a t s st w)) = Inr s"
    "snd (assign_temporary ClientActiveSocket_destructor a t s st w) = w" for s and w :: 'w
    using assign_temporary_survives [OF assms, of ClientActiveSocket_destructor s st w
        "fst (assign_temporary ClientActiveSocket_destructor a t s st w)"
        "snd (assign_temporary ClientActiveSocket_destructor a t s st w)"]
    by (simp_all add: ClientActiveSocket_destructor_def)
  then show ?thesis
    by (simp add: SocketClientImpl_open_at_def SocketClientImpl_open_def Let_def bindR_assoc split_def)
qed

lemma sample_opens:
  "SocketClientImpl_open open_os stub_ssl (sample_client sample_socket) ()
   = Inr (mkCode SUCCESS, sample_client sample_socket, ())"
  by (simp add: SocketClientImpl_open_def ClientActiveSocketContainer_new_def ClientActiveSocket_new_def
      open_stream_socket_def open_os_def null_os_def sample_client_def sample_socket_def i32_small Let_def
      tc_valid_def SocketTLSClientConfiguration_new_def or_bits_def)

theorem open_through_container_witness:
  "\<exists>socket st. SocketClientImpl_open_at open_os stub_ssl 0 1 (sample_client sample_socket)
        (\<lambda>a. SocketContainer_default) () = Inr (mkCode SUCCESS, socket, st, ())
     \<and> deref socket st = Inr sample_socket"
proof -
  let ?open = "SocketClientImpl_open_at open_os stub_ssl 0 1 (sample_client sample_socket)
        (\<lambda>a. SocketContainer_default) ()"
  have eq: "bindR ?open (\<lambda>(r, socket, st, w). bindR (deref socket st) (\<lambda>s.
         Inr (r, (sample_client sample_socket)\<lparr>cl_socket := Some s\<rparr>, w)))
    = Inr (mkCode SUCCESS, sample_client sample_socket, ())"
    unfolding sample_opens [symmetric] by (rule open_through_container) simp
  show ?thesis
  proof (cases ?open)
    case (Inl e)
    from eq show ?thesis unfolding Inl by simp
  next
    case (Inr p)
    obtain r socket st v where p: "p = (r, socket, st, v)" by (metis prod.exhaust)
    show ?thesis
    proof (cases "deref socket st")
      case (Inl e)
      from eq show ?thesis unfolding Inr p prod.case bindR.simps Inl by simp
    next
      case s: (Inr s)
      from eq have "r = mkCode SUCCESS" "(sample_client sample_socket)\<lparr>cl_socket := Some s\<rparr> = sample_client sample_socket"
        unfolding Inr p prod.case bindR.simps s by simp_all
      moreover from this(2) have "s = sample_socket" by (simp add: sample_client_def)
      ultimately show ?thesis using Inr p s by auto
    qed
  qed
qed

end
