(* ===== verification/Windows_Listener.thy ===== *)
theory Windows_Listener
  imports Request_Sessions
begin

text \<open>
  \<^verbatim>\<open>SocketEvent_Windows.cpp\<close>: the listener of many sockets. It is that of Linux but for the call
  that waits: \<^verbatim>\<open>WSAPoll\<close> is given the number of descriptors as a \<^verbatim>\<open>ULONG\<close>, so of \<open>2 ^ 32\<close> or
  more only the remainder is polled, and the \<^verbatim>\<open>revents\<close> of the others, which nobody has set, are
  read by the loop. (The wait of the listener of one socket is in \<^theory_text>\<open>Event_Listener\<close>.) The
  thread of the request server is written out once more over this listener.
\<close>

subsection \<open>Waiting\<close>

definition polled :: "(fd \<times> events) list \<Rightarrow> (fd \<times> events) list" where
  "polled handle = take (unat (of_nat (length handle) :: 32 word)) handle"

definition wait_snapshot_windows ::
  "'w os \<Rightarrow> fd \<Rightarrow> 'c list \<Rightarrow> (fd \<times> events) list \<Rightarrow> 32 word \<Rightarrow> 'c ctx_heap \<Rightarrow> 'w
   \<Rightarrow> (SocketResult \<times> 'c list \<times> 'c ctx_heap \<times> 'w) result" where
  "wait_snapshot_windows os server_socket contexts handle timeout_ms h w =
     (let ((ret, revs), w) = os_poll os (polled handle) timeout_ms w
      in if ret = 0 then Inr (mkCode SOCKET_TIMEOUT, [], h, w)
         else if ret < 0 then Inr (mkCode SOCKET_EVENT_ERROR, [], h, w)
         else bindR (collect_events server_socket contexts (zip (polled handle) revs) h)
                (\<lambda>(cs, h). if length (polled handle) < length handle then Inl Uninitialised
                          else Inr (mkCode SUCCESS, cs, h, w)))"

definition SocketMultiEventListener_wait_windows ::
  "'w os \<Rightarrow> 'c multi_listener \<Rightarrow> 32 word \<Rightarrow> 'c ctx_heap \<Rightarrow> 'w
   \<Rightarrow> (SocketResult \<times> 'c list \<times> 'c ctx_heap \<times> 'w) result" where
  "SocketMultiEventListener_wait_windows os l timeout_ms h w =
     wait_snapshot_windows os (ml_server l) (ml_contexts l) (ml_handle l) timeout_ms h w"

lemma polled_all: "length handle < 2 ^ 32 \<Longrightarrow> polled handle = handle"
  by (simp add: polled_def unat_of_nat)

lemma wait_windows_same:
  assumes "length (ml_handle l) < 2 ^ 32"
  shows "SocketMultiEventListener_wait_windows os l t h w = SocketMultiEventListener_wait os l t h w"
proof -
  obtain ret revs v where "os_poll os (ml_handle l) t w = ((ret, revs), v)" by (metis prod.exhaust)
  then show ?thesis
    by (simp add: SocketMultiEventListener_wait_windows_def SocketMultiEventListener_wait_def
        wait_snapshot_windows_def wait_snapshot_def polled_all [OF assms])
qed

text \<open>A server watches at most its own socket and one per slot.\<close>

lemma server_watches:
  assumes wf: "server_wf L psock opened clients st w"
  shows "length (ml_handle (rs_listener st)) \<le> Suc (pool_size (rs_pool st))"
proof -
  let ?l = "rs_listener st" and ?D = "dom (pool_objects (rs_pool st))"
  have lw: "listener_wf (heap_of st) ?l" and int: "interest ?l = registrations L st"
    and pw: "pool_wf (rs_pool st)" using wf by (simp_all add: server_wf_def)
  have "length (ml_handle ?l) = length (ml_contexts ?l)" "distinct (ml_contexts ?l)"
    using lw by (auto simp: listener_wf_def in_step_def dest: list_all2_lengthD)
  then have "length (ml_handle ?l) = card (live_ctx L st)"
    using contexts_live [OF lw int] distinct_card by metis
  also have "\<dots> \<le> card (insert ServerCtx (Conn ` ?D))"
    using pool_counts(1) [OF pw] by (intro card_mono) (auto simp: live_ctx_def)
  also have "\<dots> \<le> Suc (card ?D)"
    using pool_counts(1) [OF pw] card_image_le [of ?D Conn] by (simp add: card_insert_if)
  finally show ?thesis using pool_counts(2) [OF pw] by simp
qed

subsection \<open>The request server over this listener\<close>

definition run_iteration_windows ::
  "'w os \<Rightarrow> 'w handler \<Rightarrow> SocketConfiguration \<Rightarrow> base_socket \<Rightarrow> run_state \<Rightarrow> 'w
   \<Rightarrow> (bool \<times> run_state \<times> 'w) result" where
  "run_iteration_windows os h cfg psock st w =
     bindR (SocketMultiEventListener_wait_windows os (rs_listener st) (cfg_read_timeout cfg) (heap_of st) w)
       (\<lambda>(result, contexts, heap, w).
          let st = store_heap heap st in
          if sr_code result = SOCKET_TIMEOUT then Inr (True, st, w)
          else if sr_code result \<noteq> SUCCESS then Inr (False, st, w)
          else bindR (dispatch os h cfg psock contexts st w) (\<lambda>(st, w). Inr (True, st, w)))"

fun run_loop_windows ::
  "nat \<Rightarrow> 'w os \<Rightarrow> 'w handler \<Rightarrow> SocketConfiguration \<Rightarrow> base_socket \<Rightarrow> run_state \<Rightarrow> 'w
   \<Rightarrow> (run_state \<times> 'w) result" where
  "run_loop_windows 0 os h cfg psock st w = Inr (st, w)"
| "run_loop_windows (Suc n) os h cfg psock st w =
     bindR (run_iteration_windows os h cfg psock st w) (\<lambda>(go, st, w).
       if go then run_loop_windows n os h cfg psock st w else Inr (st, w))"

definition run_windows ::
  "nat \<Rightarrow> 'w os \<Rightarrow> 'w handler \<Rightarrow> SocketConfiguration \<Rightarrow> base_socket \<Rightarrow> connection object_pool \<Rightarrow> 'w
   \<Rightarrow> (run_state \<times> 'w) result" where
  "run_windows n os h cfg psock pool w =
     bindR (run_start psock pool) (\<lambda>st. run_loop_windows n os h cfg psock st w)"

definition serve_session_windows ::
  "nat \<Rightarrow> 'w os \<Rightarrow> 'w handler \<Rightarrow> request_server \<Rightarrow> 'w \<Rightarrow> (request_server \<times> 'w) result" where
  "serve_session_windows n os h sv w =
     bindR (SocketRequestServerImpl_open os sv w) (\<lambda>(result, sv, w).
       if rq_running sv then
         (case rq_socket sv of None \<Rightarrow> Inl NullDeref
          | Some s \<Rightarrow> bindR (run_windows n os h (rq_cfg sv) s (rq_pool sv) w) (\<lambda>(st, w).
              SocketRequestServerImpl_close os (sv\<lparr>rq_pool := rs_pool st\<rparr>) w))
       else SocketRequestServerImpl_close os sv w)"

fun serve_sessions_windows ::
  "nat list \<Rightarrow> 'w os \<Rightarrow> 'w handler \<Rightarrow> request_server \<Rightarrow> 'w \<Rightarrow> (request_server \<times> 'w) result" where
  "serve_sessions_windows [] os h sv w = Inr (sv, w)"
| "serve_sessions_windows (n # ns) os h sv w =
     bindR (serve_session_windows n os h sv w) (\<lambda>(sv, w). serve_sessions_windows ns os h sv w)"

lemma run_iteration_windows_same:
  assumes "server_wf L psock opened clients st w" and "Suc (pool_size (rs_pool st)) < 2 ^ 32"
  shows "run_iteration_windows os h cfg psock st w = run_iteration os h cfg psock st w"
proof -
  have "length (ml_handle (rs_listener st)) < 2 ^ 32" using server_watches [OF assms(1)] assms(2) by linarith
  then show ?thesis by (simp add: run_iteration_windows_def run_iteration_def wait_windows_same)
qed

lemma run_loop_windows_same:
  assumes os: "server_os os opened clients" and h: "server_handler h opened clients"
  shows "server_wf L psock opened clients st w \<Longrightarrow> Suc (pool_size (rs_pool st)) < 2 ^ 32 \<Longrightarrow>
    run_loop_windows n os h cfg psock st w = run_loop n os h cfg psock st w"
proof (induction n arbitrary: st w)
  case (Suc n)
  note same = run_iteration_windows_same [OF Suc.prems, of os h cfg]
  show ?case
  proof (cases "run_iteration os h cfg psock st w")
    case (Inr r)
    obtain go st' w' where r: "r = (go, st', w')" by (metis prod.exhaust)
    with run_iteration_wf [OF os h Suc.prems(1), of cfg] Inr
    have "server_wf L psock opened clients st' w'" "pool_size (rs_pool st') = pool_size (rs_pool st)" by simp_all
    with Suc.IH [of st' w'] Suc.prems(2) Inr r same show ?thesis by simp
  qed (simp add: same)
qed simp

lemma run_windows_same:
  assumes "server_os os opened clients" and "server_handler h opened clients"
    and "pool_ready pool (opened w - {bs_fd psock})" and "bs_fd psock \<in> opened w"
    and "clients w = int (card (dom (pool_objects pool)))" and "Suc (pool_size pool) < 2 ^ 32"
  shows "run_windows n os h cfg psock pool w = run n os h cfg psock pool w"
proof -
  obtain st where st: "run_start psock pool = Inr st"
      "server_wf (pool_fds pool) psock opened clients st w" "pool_size (rs_pool st) = pool_size pool"
    using run_start_wf [where pool = pool and psock = psock and opened = opened and w = w
        and clients = clients] assms(3-5) by blast
  with run_loop_windows_same [OF assms(1,2) st(2)] assms(6) show ?thesis
    by (simp add: run_windows_def run_def)
qed

lemma serve_session_windows_same:
  assumes os: "server_os os opened clients" and l: "listening_os os opened clients"
    and h: "server_handler h opened clients" and idle: "server_idle opened clients sv w"
  shows "serve_session_windows n os h sv w = serve_session n os h sv w"
proof (cases "SocketRequestServerImpl_open os sv w")
  case (Inl e)
  then show ?thesis by (simp add: serve_session_windows_def serve_session_def)
next
  case (Inr p)
  obtain r sv1 w1 where p: "p = (r, sv1, w1)" by (metis prod.exhaust)
  note sv = idle [unfolded server_idle_def]
  from open_env [OF os l, of sv w] sv Inr p have same: "rq_pool sv1 = rq_pool sv"
      "clients w1 = clients w" "opened w \<subseteq> opened w1"
    and run1: "rq_running sv1 \<Longrightarrow> \<exists>s. rq_socket sv1 = Some s \<and> bs_fd s \<in> opened w1 \<and> bs_fd s \<notin> opened w"
    by simp_all
  have "run_windows n os h cfg s (rq_pool sv1) w1 = run n os h cfg s (rq_pool sv1) w1"
    if "bs_fd s \<in> opened w1" "bs_fd s \<notin> opened w" for cfg s
  proof (rule run_windows_same [OF os h])
    show "pool_ready (rq_pool sv1) (opened w1 - {bs_fd s})"
      using sv same that by (auto intro: pool_ready_mono)
  qed (use sv same that in auto)
  with run1 Inr p show ?thesis
    by (cases "rq_running sv1") (auto simp: serve_session_windows_def serve_session_def)
qed

lemma serve_sessions_windows_same:
  assumes "server_os os opened clients" and "listening_os os opened clients"
    and "server_handler h opened clients"
  shows "server_idle opened clients sv w \<Longrightarrow>
    serve_sessions_windows ns os h sv w = serve_sessions ns os h sv w"
proof (induction ns arbitrary: sv w)
  case (Cons n ns)
  note same = serve_session_windows_same [OF assms Cons.prems, of n]
  show ?case
  proof (cases "serve_session n os h sv w")
    case (Inr p)
    obtain sv1 w1 where p: "p = (sv1, w1)" by fastforce
    with Inr serve_session_idle [OF assms Cons.prems, of n] have "server_idle opened clients sv1 w1" by simp
    with Cons.IH [of sv1 w1] Inr p same show ?thesis by simp
  qed (simp add: same)
qed simp

subsection \<open>Properties\<close>

text \<open>
  C24. Over the Windows listener the request server computes what it computes over that of
  Linux: opened and closed any number of times, with any number of iterations of its thread
  in each session, it ends in the same state and the same world, or with the same fault, given
  the same reports of the system.
\<close>

theorem server_sessions_windows:
  assumes "server_os os opened clients" and "listening_os os opened clients"
    and "server_handler h opened clients" and "clients w = 0"
  shows "serve_sessions_windows ns os h (SocketRequestServerImpl_new cfg tls) w
    = serve_sessions ns os h (SocketRequestServerImpl_new cfg tls) w"
  by (rule serve_sessions_windows_same [OF assms(1-3)], rule server_new_idle, rule assms(4))

theorem server_sessions_windows_witness:
  "\<exists>sv x. serve_sessions_windows [1] reopen_os count_handler fresh_server ({}, 0) = Inr (sv, ({5}, 1))
     \<and> pool_objects (rq_pool sv) 0 = Some x \<and> bs_fd (conn_socket x) = 5"
  using server_sessions_windows [OF reopen_env quiet_env(2), of "({}, 0)" "[1]" server_cfg "server_tls []"]
    first_session by (simp add: fresh_server_def)

text \<open>
  The Windows listener serves the request server as that of Linux does: in every state
  its thread reaches, waiting with one and with the other gives the same result, the same
  contexts and the same event types, given the same reports of the system.
\<close>

theorem server_wait_windows:
  assumes "server_os os opened clients" and "server_handler h opened clients"
    and "bs_fd psock \<in> opened w" and "clients w = 0"
    and "run n os h cfg psock (ObjectPool_new 32) w = Inr (st, w')"
  shows "SocketMultiEventListener_wait_windows win (rs_listener st) t (heap_of st) v
    = SocketMultiEventListener_wait win (rs_listener st) t (heap_of st) v"
proof -
  have "server_wf Map.empty psock opened clients st w'" "pool_size (rs_pool st) = 32"
    using run_wf [OF assms(1,2) pool_ready_new(1) assms(3), of 32 n cfg] assms(4,5)
    by (simp_all add: pool_ready_new) (simp add: ObjectPool_new_def)
  from server_watches [OF this(1)] this(2) show ?thesis by (simp add: wait_windows_same)
qed

theorem server_wait_windows_witness:
  "\<exists>st. run 1 quiet_os count_handler server_cfg listening_socket (ObjectPool_new 32) ({3}, 0)
       = Inr (st, ({3, 5}, 1))
     \<and> SocketMultiEventListener_wait_windows quiet_os (rs_listener st) 10 (heap_of st) ({3, 5}, 1)
       = SocketMultiEventListener_wait quiet_os (rs_listener st) 10 (heap_of st) ({3, 5}, 1)"
proof -
  obtain st where run: "run 1 quiet_os count_handler server_cfg listening_socket (ObjectPool_new 32) ({3}, 0)
      = Inr (st, ({3, 5}, 1))"
    using first_run [where so = "os_socket quiet_os" and bi = "os_bind quiet_os"
        and li = "os_listen quiet_os" and ga = "os_getaddrinfo quiet_os"] by auto
  from server_wait_windows [OF quiet_env _ _ run] run show ?thesis
    by (simp add: listening_socket_def)
qed

end
