(* ===== verification/Broadcast_Close.thy ===== *)
theory Broadcast_Close
  imports Broadcast_Session
begin

text \<open>
  What a session of the broadcast server holds and gives back: in every reachable state the
  open descriptors are accounted for, \<^verbatim>\<open>close\<close> returns by a bounded number of the monitor's
  steps, and afterwards only the listening descriptor is missing from those open before.
\<close>

subsection \<open>The ledger\<close>

text \<open>
  Descriptor 0 is left out: when \<^verbatim>\<open>accept\<close> returns it the code takes it for a failure and
  loses it.
\<close>

definition open_fds :: "('w \<Rightarrow> fd set) \<Rightarrow> 'w \<Rightarrow> fd set" where
  "open_fds opened w = {f \<in> opened w. 0 < f}"

definition client_fds :: "'w broadcast_server \<Rightarrow> fd set" where
  "client_fds sv = {f. 0 < f \<and> (\<exists>i \<in> set (tokens sv). live_fd (br_heap sv) i = Some f)}"

definition ledger :: "fd set \<Rightarrow> fd \<Rightarrow> ('w \<Rightarrow> fd set) \<Rightarrow> 'w broadcast_server \<Rightarrow> 'w \<Rightarrow> bool" where
  "ledger B F opened sv w \<longleftrightarrow> (\<exists>s. br_socket sv = Some s \<and> bs_fd s = F)
     \<and> open_fds opened w = {f \<in> B. 0 < f} \<union> client_fds sv
     \<and> (\<forall>i f. live_fd (br_heap sv) i = Some f \<longrightarrow> 0 < f \<longrightarrow> f \<notin> B)"

lemma ledger_move:
  assumes "ledger B F opened sv w" and "br_socket sv' = br_socket sv"
    and "set (tokens sv') = set (tokens sv)" and "live_fd (br_heap sv') = live_fd (br_heap sv)"
    and "opened w' = opened w"
  shows "ledger B F opened sv' w'"
  using assms by (simp add: ledger_def client_fds_def open_fds_def)

lemma tokens_owned:
  assumes "server_inv F opened sv w"
  shows "set (tokens sv) \<subseteq> owned sv"
proof -
  have "set (to_drop (br_caller sv)) \<subseteq> caller_owns (br_caller sv)"
    using assms by (cases "br_caller sv") (auto simp: server_inv_def token_ok_def)
  moreover have "set (held (br_monitor sv)) \<subseteq> monitor_owns (br_monitor sv)"
    by (cases "br_monitor sv") simp_all
  ultimately show ?thesis by (auto simp: tokens_def owned_def)
qed

text \<open>Freeing the clients nobody owns closes nothing, and no descriptor is lost with them.\<close>

lemma ledger_sweep:
  assumes "server_inv F opened sv w" and "ledger B F opened sv w"
  shows "ledger B F opened (sweep sv) w"
proof -
  have heap: "br_heap (sweep sv) = br_heap sv |` owned sv" by (simp add: sweep_def)
  have "client_fds (sweep sv) = client_fds sv"
    using tokens_owned [OF assms(1)] unfolding client_fds_def heap by auto
  with assms(2) show ?thesis unfolding ledger_def heap by auto
qed

text \<open>Closing a client: its descriptor goes, and it alone.\<close>

lemma closed_fd:
  assumes inv: "server_inv F opened sv w" and os: "broadcast_os os opened"
    and cl: "close_client os i sv w = Inr (sv1, w1)"
  shows "open_fds opened w1 = open_fds opened w - {f. live_fd (br_heap sv) i = Some f}"
    and "live_fd (br_heap sv1) = (live_fd (br_heap sv))(i := None)"
proof -
  obtain c where heap: "br_heap sv i = Some c" using cl by (cases "br_heap sv i") (simp_all add: close_client_def)
  then obtain sock where c: "br_heap sv i = Some c" "bc_container c = Some sock"
      "live_fd (br_heap sv) i = Some (bs_fd sock) \<or> bs_fd sock = - 1"
    using inv unfolding server_inv_def heap_ok_def by blast
  with cl have w1: "w1 = os_close os (bs_fd sock) w"
      and heap: "br_heap sv1 = (br_heap sv)(i \<mapsto> c\<lparr>bc_container := Some (sock\<lparr>bs_fd := - 1\<rparr>)\<rparr>)"
    by (auto simp: close_client_def ServerActiveSocket_close_def)
  show "live_fd (br_heap sv1) = (live_fd (br_heap sv))(i := None)" by (simp add: heap live_fd_upd)
  show "open_fds opened w1 = open_fds opened w - {f. live_fd (br_heap sv) i = Some f}"
    using c by (auto simp: open_fds_def w1 broadcast_osD(2) [OF os] live_fd_def)
qed

lemma ledger_close:
  assumes inv: "server_inv F opened sv w" and os: "broadcast_os os opened"
    and led: "ledger B F opened sv w" and cl: "close_client os i sv w = Inr (sv1, w1)"
    and "br_socket sv' = br_socket sv" and "set (tokens sv') = set (tokens sv) - {i}"
    and "br_heap sv' = br_heap sv1" and "opened w' = opened w1"
  shows "ledger B F opened sv' w'"
proof -
  note c = closed_fd [OF inv os cl]
  have inj: "live_fd (br_heap sv) j = Some f \<Longrightarrow> live_fd (br_heap sv) i = Some f \<Longrightarrow> j = i" for j f
    using inv unfolding server_inv_def heap_ok_def by blast
  have "client_fds sv' = client_fds sv - {f. live_fd (br_heap sv) i = Some f}"
    using inj by (auto simp: client_fds_def assms(6,7) c(2))
  moreover have "open_fds opened w' = open_fds opened w - {f. live_fd (br_heap sv) i = Some f}"
    using c(1) assms(8) by (simp add: open_fds_def)
  ultimately show ?thesis
    using led assms(5) unfolding ledger_def assms(7) c(2) by auto
qed

lemma ledger_accept:
  assumes inv: "server_inv F opened sv w" and os: "broadcast_os os opened"
    and led: "ledger B F opened sv w" and m: "br_monitor sv = M_Dispatch (c # cs)"
    and acc: "accept_client os cs sv w = Inr (sv', w')"
  shows "ledger B F opened sv' w'"
proof -
  obtain s where s: "br_socket sv = Some s" using inv by (auto simp: server_inv_def)
  obtain sock w1 where pas: "PassiveSocket_accept os s w = (sock, w1)" by fastforce
  obtain r a w0 where raw: "os_accept os (bs_fd s) w = ((r, a), w0)" by (metis prod.exhaust)
  note r = broadcast_osD(1) [OF os raw]
  then have "i32 r = r" by (intro i32_small) simp_all
  moreover have "opened (setNonBlockingMode os r v) = opened v" for v
    by (simp add: setNonBlockingMode_def broadcast_osD(3) [OF os])
  ultimately have sock: "bs_fd sock = r" "opened w1 = opened w0" "sr_code (bs_result sock) = SUCCESS \<longleftrightarrow> 0 < r"
    using pas raw by (auto simp: PassiveSocket_accept_def ServerActiveSocket_new_def Let_def result_simps
        split: if_splits)
  show ?thesis
  proof (cases "0 < r")
    case False
    with acc s pas sock have "sv' = sv\<lparr>br_monitor := M_Dispatch cs\<rparr>" "w' = w1" by (simp_all add: accept_client_def)
    moreover have "open_fds opened w1 = open_fds opened w"
      using r sock(2) False by (auto simp: open_fds_def split: if_splits)
    ultimately show ?thesis
      using led m by (simp add: ledger_def client_fds_def tokens_def)
  next
    case True
    let ?i = "br_next sv"
    have sv': "br_heap sv' = (br_heap sv)(?i \<mapsto> \<lparr>bc_ctx = \<lparr>ec_fd = r, ec_type = UNDEFINED\<rparr>, bc_container = Some sock\<rparr>)"
        "br_socket sv' = br_socket sv" "tokens sv' = tokens sv @ [?i]" "opened w' = opened w1"
      using acc s pas sock True m broadcast_osD(4) [OF os]
      by (auto simp: accept_client_def bindR_Inr_iff Let_def setNoDelay_def tokens_def)
    have live: "live_fd (br_heap sv') = (live_fd (br_heap sv))(?i := Some r)"
      using True sock(1) by (simp add: sv' live_fd_upd)
    have new: "r \<notin> opened w" "opened w' = insert r (opened w)" using r True sv'(4) sock(2) by simp_all
    have "client_fds sv' = insert r (client_fds sv)"
      using True inv_fresh(4) [OF inv] by (auto simp: client_fds_def live sv'(3))
    moreover have "open_fds opened w' = insert r (open_fds opened w)"
      using new(2) True by (auto simp: open_fds_def)
    moreover have "r \<notin> B" using led new(1) True by (auto simp: ledger_def open_fds_def)
    ultimately show ?thesis using led sv'(2) by (auto simp: ledger_def live)
  qed
qed

lemma client_lost_frame:
  assumes "client_lost i cs sv = Inr sv'"
  shows "\<exists>l ip port. sv' = sv\<lparr>br_listener := l, br_monitor := M_Unlisted i ip port cs\<rparr>"
proof -
  obtain l where l: "removeEvent (ctx_of sv) (Client i) (br_listener sv) = Inr l"
    using assms by (auto simp: client_lost_def unlist_def bindR_Inr_iff)
  obtain c where c: "br_heap sv i = Some c"
    using assms l by (cases "br_heap sv i") (simp_all add: client_lost_def unlist_def)
  with assms l show ?thesis
    by (cases "bc_container c") (auto simp: client_lost_def unlist_def)
qed

lemma ledger_dispatch:
  assumes inv: "server_inv F opened sv w" and os: "broadcast_os os opened"
    and led: "ledger B F opened sv w" and m: "br_monitor sv = M_Dispatch (c # cs)"
    and out: "dispatch_event os c cs sv w = Inr (sv', w')"
  shows "ledger B F opened sv' w'"
proof -
  obtain ec where ec: "ctx_of sv c = Some ec" using out by (cases "ctx_of sv c") (simp_all add: dispatch_event_def)
  have lost: "ledger B F opened sv1 w" if "client_lost i cs sv = Inr sv1" for i sv1
    using client_lost_frame [OF that] m by (auto simp: tokens_def intro!: ledger_move [OF led])
  show ?thesis
  proof (cases "ec_type ec")
    case ACCEPT
    with out ec ledger_accept [OF inv os led m] show ?thesis by (simp add: dispatch_event_def)
  next
    case DISCONNECTED
    with out ec lost show ?thesis by (auto simp: dispatch_event_def bindR_Inr_iff split: broadcast_ctx.splits)
  qed (use out ec led m in \<open>auto simp: dispatch_event_def tokens_def intro!: ledger_move [OF led]\<close>)
qed

text \<open>Waiting changes event types only, and reports at most one event for each descriptor.\<close>

lemma collect_frame:
  "collect_events srv cs es h = Inr (evs, h') \<Longrightarrow> same_fds h h' \<and> length evs \<le> length es"
proof (induction srv cs es h arbitrary: evs h' rule: collect_events.induct)
  case (1 srv cs h)
  then show ?case by (simp add: same_fds_def)
next
  case (2 srv cs f ev revents rest h)
  show ?case
  proof (cases "revents = 0")
    case True
    with 2 show ?thesis by fastforce
  next
    case False
    with 2(3) obtain c ec where c: "find_context h cs f = Inr (Some c)" "h c = Some ec"
      by (auto simp: bindR_Inr_iff split: option.splits)
    let ?h = "h(c \<mapsto> ec\<lparr>ec_type := event_type srv f revents (ec_type ec)\<rparr>)"
    obtain evs1 where rest: "collect_events srv cs rest ?h = Inr (evs1, h')" "evs = c # evs1"
      using False c 2(3) by (auto simp: bindR_Inr_iff)
    have "same_fds h ?h" using c(2) by (simp add: same_fds_def)
    with 2(2) [OF False c(2) rest(1)] rest(2) show ?thesis by (simp add: same_fds_def)
  qed
qed

lemma wait_frame:
  assumes os: "broadcast_os os opened" and wait: "wait_snapshot os srv cs hs t (ctx_of sv) w = Inr r"
  shows "ledger B F opened sv w \<Longrightarrow> br_monitor sv = M_Wait cs hs \<Longrightarrow>
      ledger B F opened (fst (after_wait r sv)) (snd (after_wait r sv))"
    and "br_monitor (fst (after_wait r sv)) = M_Top \<or> br_monitor (fst (after_wait r sv)) = M_End
      \<or> (\<exists>es. br_monitor (fst (after_wait r sv)) = M_Dispatch es \<and> length es \<le> length hs)"
    and "br_caller (fst (after_wait r sv)) = br_caller sv"
    and "br_monitoring (fst (after_wait r sv)) = br_monitoring sv"
    and "br_socket (fst (after_wait r sv)) = br_socket sv"
proof -
  obtain ret revs w1 where poll: "os_poll os hs t w = ((ret, revs), w1)" by (metis prod.exhaust)
  have o1: "opened w1 = opened w" using broadcast_osD(6) [OF os, of hs t w] poll by simp
  obtain res es h where r: "r = (res, es, h, w1)" and h: "same_fds (ctx_of sv) h" "length es \<le> length hs"
    using wait poll collect_frame [of srv cs "zip hs revs" "ctx_of sv"]
    by (auto simp: wait_snapshot_def bindR_Inr_iff same_fds_def split: if_splits)
  note view = same_view(1) [OF store_ctx_view(1) [OF h(1)]]
  show "ledger B F opened (fst (after_wait r sv)) (snd (after_wait r sv))"
    if "ledger B F opened sv w" "br_monitor sv = M_Wait cs hs"
    using that(2) o1 by (intro ledger_move [OF that(1)]) (auto simp: after_wait_def r tokens_def view Let_def)
  show "br_monitor (fst (after_wait r sv)) = M_Top \<or> br_monitor (fst (after_wait r sv)) = M_End
      \<or> (\<exists>es. br_monitor (fst (after_wait r sv)) = M_Dispatch es \<and> length es \<le> length hs)"
    using h(2) by (auto simp: after_wait_def r Let_def)
qed (auto simp: after_wait_def Let_def split: prod.splits)

lemma erased_step:
  assumes "br_monitor sv = M_Erased i ip port cs" and "monitor_step os sv w = Some (Inr (ns, sv', w'))"
  shows "\<exists>h w1. close_client os i sv w = Inr (sv\<lparr>br_heap := h\<rparr>, w1)
    \<and> announce_disconnected (sv\<lparr>br_heap := h\<rparr>) i ip port w1 = (ns, w')
    \<and> sv' = sv\<lparr>br_heap := h, br_monitor := M_Dispatch cs\<rparr>"
proof -
  obtain sv1 w1 where cl: "close_client os i sv w = Inr (sv1, w1)"
    using assms by (auto simp: monitor_step_def bindR_Inr_iff)
  with assms have "announce_disconnected sv1 i ip port w1 = (ns, w')" "sv' = sv1\<lparr>br_monitor := M_Dispatch cs\<rparr>"
    by (simp_all add: monitor_step_def split: prod.splits)
  with cl close_client_frame [OF cl] show ?thesis by auto
qed

lemma ledger_monitor:
  assumes inv: "server_inv F opened sv w" and os: "broadcast_os os opened"
    and led: "ledger B F opened sv w" and step: "monitor_step os sv w = Some (Inr (ns, sv', w'))"
  shows "ledger B F opened sv' w'"
proof (cases "br_monitor sv")
  case (M_Wait cs hs)
  let ?srv = "ml_server (br_listener sv)" and ?t = "cfg_read_timeout (br_cfg sv)"
  obtain r where r: "wait_snapshot os ?srv cs hs ?t (ctx_of sv) w = Inr r" "(sv', w') = after_wait r sv"
    using step M_Wait by (auto simp: monitor_step_def bindR_Inr_iff)
  from wait_frame(1) [OF os r(1) led M_Wait] r(2) show ?thesis by (metis fst_conv snd_conv)
next
  case (M_Dispatch evs)
  show ?thesis
  proof (cases evs)
    case Nil
    with step M_Dispatch show ?thesis
      by (auto simp: monitor_step_def tokens_def intro!: ledger_move [OF led])
  next
    case (Cons c cs)
    with step M_Dispatch ledger_dispatch [OF inv os led] show ?thesis
      by (auto simp: monitor_step_def bindR_Inr_iff)
  qed
next
  case (M_Announce i ip port cs)
  have "opened w' = opened w"
    using step M_Announce inv announce_opened(1) [of sv opened i ip port w ns w']
    by (auto simp: monitor_step_def server_inv_def split: prod.splits)
  with step M_Announce show ?thesis
    by (auto simp: monitor_step_def tokens_def split: prod.splits intro!: ledger_move [OF led])
next
  case (M_Unlisted i ip port cs)
  have "distinct (br_active sv)" using inv by (simp add: server_inv_def token_ok_def tokens_def)
  then have "i \<in> set (br_active sv) \<Longrightarrow> insert i (set (remove1 i (br_active sv))) = set (br_active sv)" by auto
  with step M_Unlisted show ?thesis
    by (auto simp: monitor_step_def tokens_def remove_first_remove1 split: if_splits intro!: ledger_move [OF led])
next
  case (M_Erased i ip port cs)
  from erased_step [OF this step] obtain h w1 where cl: "close_client os i sv w = Inr (sv\<lparr>br_heap := h\<rparr>, w1)"
      and an: "announce_disconnected (sv\<lparr>br_heap := h\<rparr>) i ip port w1 = (ns, w')"
      and sv': "sv' = sv\<lparr>br_heap := h, br_monitor := M_Dispatch cs\<rparr>" by blast
  have "opened w' = opened w1" using announce_opened(2) [OF _ an] inv by (simp add: server_inv_def)
  moreover have "i \<notin> set (br_active sv @ to_drop (br_caller sv))"
    using inv M_Erased by (auto simp: server_inv_def token_ok_def tokens_def)
  ultimately show ?thesis
    using M_Erased by (intro ledger_close [OF inv os led cl]) (auto simp: sv' tokens_def)
qed (use step led in \<open>auto simp: monitor_step_def tokens_def split: if_splits intro!: ledger_move [OF led]\<close>)

subsection \<open>The caller and the ledger\<close>

lemma ledger_drop:
  assumes inv: "server_inv F opened sv w" and os: "broadcast_os os opened"
    and led: "ledger B F opened sv w" and c: "br_caller sv = C_Drop dropped (i # rest)"
    and out: "drop_client os i sv w = Inr (ns, sv1, w')"
  shows "ledger B F opened (sv1\<lparr>br_caller := C_Drop dropped rest\<rparr>) w'"
proof -
  from drop_client_frame [OF out] obtain h ip port w1 where h: "sv1 = sv\<lparr>br_heap := h\<rparr>"
      and cl: "close_client os i sv w = Inr (sv1, w1)"
      and an: "announce_disconnected (sv\<lparr>br_heap := h\<rparr>) i ip port w1 = (ns, w')" by blast
  have "opened w' = opened w1" using announce_opened(2) [OF _ an] inv by (simp add: server_inv_def)
  moreover have "i \<notin> set (br_active sv @ rest @ held (br_monitor sv))"
    using inv c by (auto simp: server_inv_def token_ok_def tokens_def)
  ultimately show ?thesis
    using c by (intro ledger_close [OF inv os led cl]) (auto simp: h tokens_def)
qed

lemma ledger_caller:
  assumes inv: "server_inv F opened sv w" and os: "broadcast_os os opened"
    and led: "ledger B F opened sv w" and step: "caller_step os expired sv w = Some (Inr (ns, sv', w'))"
    and "br_caller sv \<noteq> C_Join"
  shows "ledger B F opened sv' w'"
proof (cases "br_caller sv")
  case (C_Unlist dropped rest)
  with step show ?thesis
    by (cases rest) (auto simp: caller_step_def unlist_def bindR_Inr_iff tokens_def intro!: ledger_move [OF led])
next
  case (C_Drop dropped rest)
  show ?thesis
  proof (cases rest)
    case Nil
    with step C_Drop show ?thesis by (auto simp: caller_step_def tokens_def intro!: ledger_move [OF led])
  next
    case (Cons i js)
    with step C_Drop ledger_drop [OF inv os led] show ?thesis
      by (auto simp: caller_step_def bindR_Inr_iff)
  qed
next
  case (C_Write snapshot rest buffer result pos)
  show ?thesis
  proof (cases rest)
    case Nil
    with step C_Write show ?thesis by (auto simp: caller_step_def tokens_def intro!: ledger_move [OF led])
  next
    case (Cons i js)
    from write_frame [OF step C_Write [unfolded Cons]] write_step_opened [OF os] C_Write show ?thesis
      by (auto simp: tokens_def writing_tokens intro!: ledger_move [OF led])
  qed
qed (use step led assms(5) in
  \<open>auto simp: caller_step_def tokens_def split: if_splits option.splits intro!: ledger_move [OF led]\<close>)

text \<open>The last part of \<^verbatim>\<open>close\<close>: the active clients and the listening socket.\<close>

definition shutdown_keeps :: "'w os \<Rightarrow> ('w \<Rightarrow> fd set) \<Rightarrow> bool" where
  "shutdown_keeps os opened \<longleftrightarrow> (\<forall>s w. opened (os_shutdown os s w) = opened w)"

lemma close_clients_fds:
  assumes os: "broadcast_os os opened"
  shows "close_clients os is sv w = Inr (sv', w') \<Longrightarrow> distinct is \<Longrightarrow>
    (\<And>i c. i \<in> set is \<Longrightarrow> br_heap sv i = Some c \<Longrightarrow>
       \<exists>sock. bc_container c = Some sock \<and> (live_fd (br_heap sv) i = Some (bs_fd sock) \<or> bs_fd sock = - 1)) \<Longrightarrow>
    open_fds opened w' = open_fds opened w - {f. \<exists>i \<in> set is. live_fd (br_heap sv) i = Some f}
    \<and> (\<exists>h. sv' = sv\<lparr>br_heap := h\<rparr>)"
proof (induction "is" arbitrary: sv w)
  case Nil
  then show ?case by (auto intro!: exI [of _ "br_heap sv"])
next
  case (Cons i "is")
  obtain sv1 w1 where cl: "close_client os i sv w = Inr (sv1, w1)" "close_clients os is sv1 w1 = Inr (sv', w')"
    using Cons.prems(1) by (auto simp: bindR_Inr_iff)
  then obtain c where c: "br_heap sv i = Some c" by (cases "br_heap sv i") (simp_all add: close_client_def)
  with Cons.prems(3) obtain sock where sock: "bc_container c = Some sock"
      "live_fd (br_heap sv) i = Some (bs_fd sock) \<or> bs_fd sock = - 1" by fastforce
  let ?h = "(br_heap sv)(i \<mapsto> c\<lparr>bc_container := Some (sock\<lparr>bs_fd := - 1\<rparr>)\<rparr>)"
  from cl c sock have sv1: "sv1 = sv\<lparr>br_heap := ?h\<rparr>" and w1: "w1 = os_close os (bs_fd sock) w"
    by (auto simp: close_client_def ServerActiveSocket_close_def)
  have live: "live_fd (br_heap sv1) = (live_fd (br_heap sv))(i := None)" by (simp add: sv1 live_fd_upd)
  have i: "i \<notin> set is" "distinct is" using Cons.prems(2) by simp_all
  have "\<exists>sock. bc_container d = Some sock \<and> (live_fd (br_heap sv1) j = Some (bs_fd sock) \<or> bs_fd sock = - 1)"
    if "j \<in> set is" "br_heap sv1 j = Some d" for j d
  proof -
    from that i(1) have "j \<noteq> i" by blast
    with that Cons.prems(3) [of j d] show ?thesis by (simp add: sv1 live_fd_upd)
  qed
  from Cons.IH [OF cl(2) i(2) this]
  have ih: "open_fds opened w' = open_fds opened w1 - {f. \<exists>j \<in> set is. live_fd (br_heap sv1) j = Some f}"
      "\<exists>h. sv' = sv1\<lparr>br_heap := h\<rparr>" by blast+
  have "open_fds opened w1 = open_fds opened w - {f. live_fd (br_heap sv) i = Some f}"
    using sock c by (auto simp: open_fds_def w1 broadcast_osD(2) [OF os] live_fd_def)
  moreover have "{f. \<exists>j \<in> set is. live_fd (br_heap sv1) j = Some f} = {f. \<exists>j \<in> set is. live_fd (br_heap sv) j = Some f}"
    using i(1) by (auto simp: live split: if_splits)
  ultimately show ?case using ih by (auto simp: sv1)
qed

lemma finish_close_fds:
  assumes inv: "server_inv F opened sv w" and os: "broadcast_os os opened" and sh: "shutdown_keeps os opened"
    and led: "ledger B F opened sv w" and m: "br_monitor sv = M_End" and c: "br_caller sv = C_Join"
    and out: "finish_close os sv w = Inr (sv', w')"
  shows "open_fds opened w' = {f \<in> B. 0 < f} - {F}"
proof -
  obtain sv1 w1 where cl: "close_clients os (br_active sv) sv w = Inr (sv1, w1)"
    using out by (auto simp: finish_close_def bindR_Inr_iff)
  have tok: "tokens sv = br_active sv" using m c by (simp add: tokens_def)
  then have "distinct (br_active sv)" using inv by (simp add: server_inv_def token_ok_def)
  moreover have "\<exists>sock. bc_container c = Some sock \<and> (live_fd (br_heap sv) i = Some (bs_fd sock) \<or> bs_fd sock = - 1)"
    if "br_heap sv i = Some c" for i c
    using inv that unfolding server_inv_def heap_ok_def by blast
  ultimately have w1: "open_fds opened w1 = open_fds opened w - {f. \<exists>i \<in> set (br_active sv). live_fd (br_heap sv) i = Some f}"
      "\<exists>h. sv1 = sv\<lparr>br_heap := h\<rparr>"
    using close_clients_fds [OF os cl] by blast+
  obtain s where s: "br_socket sv = Some s" "bs_fd s = F" using led by (auto simp: ledger_def)
  have "w' = os_close os F (os_shutdown os F w1)"
    using out cl w1(2) s by (auto simp: finish_close_def PassiveSocket_close_def Let_def)
  then have "open_fds opened w' = open_fds opened w1 - {F}"
    using sh broadcast_osD(2) [OF os] by (auto simp: open_fds_def shutdown_keeps_def)
  moreover have "open_fds opened w1 = {f \<in> B. 0 < f}"
    using led unfolding w1(1) ledger_def client_fds_def tok by auto
  ultimately show ?thesis by simp
qed

subsection \<open>Every execution\<close>

definition books ::
  "fd set \<Rightarrow> fd \<Rightarrow> ('w \<Rightarrow> fd set) \<Rightarrow> 'w broadcast_server \<times> 'w \<Rightarrow> bool" where
  "books B F opened s \<longleftrightarrow> (case s of (sv, w) \<Rightarrow>
     server_inv F opened sv w \<and> ledger B F opened sv w
     \<or> closed_ok sv \<and> open_fds opened w = {f \<in> B. 0 < f} - {F})"

lemma monitor_keeps:
  assumes "monitor_step os sv w = Some (Inr (ns, sv', w'))"
  shows "br_caller sv' = br_caller sv \<and> br_monitoring sv' = br_monitoring sv \<and> br_socket sv' = br_socket sv"
proof (cases "br_monitor sv")
  case (M_Wait cs hs)
  with assms show ?thesis
    by (auto simp: monitor_step_def bindR_Inr_iff after_wait_def Let_def split: prod.splits if_splits)
next
  case (M_Dispatch evs)
  show ?thesis
  proof (cases evs)
    case (Cons c cs)
    then have out: "dispatch_event os c cs sv w = Inr (sv', w')"
      using assms M_Dispatch by (auto simp: monitor_step_def bindR_Inr_iff)
    obtain ec where ec: "ctx_of sv c = Some ec" using out by (cases "ctx_of sv c") (simp_all add: dispatch_event_def)
    show ?thesis
    proof (cases "ec_type ec")
      case ACCEPT
      with out ec show ?thesis
        by (auto simp: dispatch_event_def accept_client_def bindR_Inr_iff Let_def
            split: option.splits prod.splits if_splits)
    next
      case DISCONNECTED
      with out ec show ?thesis
        by (auto simp: dispatch_event_def bindR_Inr_iff split: broadcast_ctx.splits dest!: client_lost_frame)
    qed (use out ec in \<open>auto simp: dispatch_event_def\<close>)
  qed (use assms M_Dispatch in \<open>auto simp: monitor_step_def\<close>)
next
  case (M_Erased i ip port cs)
  from erased_step [OF this assms] show ?thesis by auto
qed (use assms in \<open>auto simp: monitor_step_def split: if_splits prod.splits\<close>)

lemma books_monitor:
  assumes os: "broadcast_os os opened" and b: "books B F opened (sv, w)"
    and step: "monitor_step os sv w = Some (Inr (ns, sv', w'))"
  shows "books B F opened (sweep sv', w')"
proof (cases "closed_ok sv")
  case True
  with closed_steps(1) [OF True] step show ?thesis by simp
next
  case False
  with b have sv: "server_inv F opened sv w" "ledger B F opened sv w" by (auto simp: books_def)
  have "br_socket sv' \<noteq> None" using monitor_keeps [OF step] sv(1) by (simp add: server_inv_def)
  then have inv: "server_inv F opened sv' w'"
    using monitor_step_ok [OF sv(1) os] step by (auto simp: step_ok_def closed_ok_def)
  from ledger_sweep [OF inv ledger_monitor [OF sv(1) os sv(2) step]] sweep_inv [OF inv]
  show ?thesis by (simp add: books_def)
qed

lemma closed_world:
  assumes "closed_ok sv" and "caller_step os expired sv w = Some (Inr (ns, sv', w'))"
  shows "w' = w"
  using assms
  by (cases "br_caller sv")
    (auto simp: caller_step_def closed_ok_def finish_close_def Let_def split: list.splits if_splits option.splits)

lemma books_caller:
  assumes os: "broadcast_os os opened" "shutdown_keeps os opened" and b: "books B F opened (sv, w)"
    and step: "caller_step os expired sv w = Some (Inr (ns, sv', w'))"
  shows "books B F opened (sweep sv', w')"
proof (cases "closed_ok sv")
  case True
  with b have "server_inv F opened sv w \<Longrightarrow> False" by (auto simp: server_inv_def closed_ok_def)
  with b have "open_fds opened w = {f \<in> B. 0 < f} - {F}" by (auto simp: books_def)
  with closed_world [OF True step] closed_steps(3) [OF True step] closed_steps(5) [of sv'] show ?thesis
    by (simp add: books_def)
next
  case False
  with b have sv: "server_inv F opened sv w" "ledger B F opened sv w" by (auto simp: books_def)
  show ?thesis
  proof (cases "br_caller sv = C_Join")
    case True
    then have m: "br_monitor sv = M_End" and fin: "finish_close os sv w = Inr (sv', w')"
      using step by (auto simp: caller_step_def bindR_Inr_iff split: if_splits)
    from finish_close_ok [OF sv(1) m, of os] fin have "closed_ok sv'" by simp
    from closed_steps(5) [OF this] finish_close_fds [OF sv(1) os sv(2) m True fin] show ?thesis
      by (simp add: books_def)
  next
    case False
    note led = ledger_caller [OF sv(1) os(1) sv(2) step False]
    then have "br_socket sv' \<noteq> None" by (auto simp: ledger_def)
    then have inv: "server_inv F opened sv' w'"
      using caller_step_ok [OF sv(1) os(1), of expired] step by (auto simp: step_ok_def closed_ok_def)
    from ledger_sweep [OF inv led] sweep_inv [OF inv] show ?thesis by (simp add: books_def)
  qed
qed

lemma books_call:
  assumes b: "books B F opened (sv, w)" and idle: "br_caller sv = C_Idle" and ok: "call_ok c"
  shows "books B F opened (start_call c sv, w)"
proof -
  have "ledger B F opened (start_call c sv) w" if "ledger B F opened sv w"
    using idle by (cases c) (auto simp: tokens_def intro!: ledger_move [OF that])
  with b start_call_inv [of F opened sv w c] closed_steps(4) [of sv c] idle ok show ?thesis
    by (auto simp: books_def)
qed

lemma books_run:
  assumes os: "broadcast_os os opened" "shutdown_keeps os opened" and "server_run os s0 log s"
    and "books B F opened s0"
  shows "books B F opened s"
  using assms(3)
proof (induction rule: server_run.induct)
  case (step log s ns s')
  from step.hyps(2) show ?case
  proof (cases rule: server_step.cases)
    case (monitor sv w sv' w')
    with books_monitor [OF os(1)] step.IH show ?thesis by blast
  next
    case (caller expired sv w sv' w')
    with books_caller [OF os] step.IH show ?thesis by blast
  next
    case (call sv c w)
    with books_call step.IH show ?thesis by auto
  qed
qed (rule assms(4))

subsection \<open>Closing\<close>

text \<open>How many steps the monitor takes to its end once it has been told to stop.\<close>

fun steps_left :: "nat \<Rightarrow> monitor_pc \<Rightarrow> nat" where
  "steps_left n M_Top = 1"
| "steps_left n M_Poll = 3 * n + 4"
| "steps_left n (M_Wait contexts handle) = 3 * length handle + 3"
| "steps_left n (M_Dispatch cs) = 3 * length cs + 2"
| "steps_left n (M_Accepted i ip port cs) = 3 * length cs + 4"
| "steps_left n (M_Announce i ip port cs) = 3 * length cs + 3"
| "steps_left n (M_Unlisted i ip port cs) = 3 * length cs + 4"
| "steps_left n (M_Erased i ip port cs) = 3 * length cs + 3"
| "steps_left n M_End = 0"

definition monitor_left :: "'w broadcast_server \<Rightarrow> nat" where
  "monitor_left sv = steps_left (length (ml_handle (br_listener sv))) (br_monitor sv)"

definition closing :: "fd \<Rightarrow> ('w \<Rightarrow> fd set) \<Rightarrow> 'w broadcast_server \<Rightarrow> 'w \<Rightarrow> bool" where
  "closing F opened sv w \<longleftrightarrow> server_inv F opened sv w \<and> br_caller sv = C_Join \<and> \<not> br_monitoring sv"

lemma dispatch_left:
  assumes "dispatch_event os c cs sv w = Inr (sv', w')"
  shows "br_monitor sv' = M_Dispatch cs \<or> (\<exists>i ip port. br_monitor sv' = M_Accepted i ip port cs)
    \<or> (\<exists>i ip port. br_monitor sv' = M_Unlisted i ip port cs)"
proof -
  obtain ec where ec: "ctx_of sv c = Some ec" using assms by (cases "ctx_of sv c") (simp_all add: dispatch_event_def)
  show ?thesis
  proof (cases "ec_type ec")
    case ACCEPT
    with assms ec show ?thesis
      by (auto simp: dispatch_event_def accept_client_def bindR_Inr_iff Let_def
          split: option.splits prod.splits if_splits)
  next
    case DISCONNECTED
    with assms ec show ?thesis
      by (auto simp: dispatch_event_def bindR_Inr_iff split: broadcast_ctx.splits dest!: client_lost_frame)
  qed (use assms ec in \<open>auto simp: dispatch_event_def\<close>)
qed

lemma monitor_progress:
  assumes os: "broadcast_os os opened" and sv: "closing F opened sv w" and m: "br_monitor sv \<noteq> M_End"
  shows "(\<exists>ns sv' w'. take_turn os Monitor sv w = Some (Inr (ns, sv', w')) \<and> closing F opened sv' w'
      \<and> monitor_left sv' < monitor_left sv)
    \<or> take_turn os Monitor sv w = Some (Inl BadCast)"
proof -
  have inv: "server_inv F opened sv w" and c: "br_caller sv = C_Join" "\<not> br_monitoring sv"
    using sv by (simp_all add: closing_def)
  note ok = monitor_step_ok [OF inv os]
  have "monitor_step os sv w \<noteq> None"
    using m c by (cases "br_monitor sv")
      (auto simp: monitor_step_def split: list.split prod.split)
  then obtain r where r: "monitor_step os sv w = Some r" by blast
  show ?thesis
  proof (cases r)
    case (Inl e)
    with r ok show ?thesis by (auto simp: step_ok_def take_turn_def)
  next
    case (Inr q)
    obtain ns sv' w' where q: "q = (ns, sv', w')" by (metis prod.exhaust)
    with r Inr have step: "monitor_step os sv w = Some (Inr (ns, sv', w'))" by simp
    note keeps = monitor_keeps [OF step]
    with ok step inv have inv': "server_inv F opened sv' w'"
      by (auto simp: step_ok_def closed_ok_def server_inv_def)
    have "monitor_left sv' < monitor_left sv"
    proof (cases "br_monitor sv")
      case (M_Wait cs hs)
      with step obtain p where "wait_snapshot os (ml_server (br_listener sv)) cs hs
          (cfg_read_timeout (br_cfg sv)) (ctx_of sv) w = Inr p" "(sv', w') = after_wait p sv"
        by (auto simp: monitor_step_def bindR_Inr_iff)
      with wait_frame(2) [OF os this(1)] M_Wait show ?thesis
        by (auto simp: monitor_left_def dest: arg_cong [where f = fst])
    next
      case (M_Dispatch evs)
      with step dispatch_left show ?thesis
        by (cases evs) (fastforce simp: monitor_step_def monitor_left_def bindR_Inr_iff)+
    next
      case (M_Erased i ip port cs)
      from erased_step [OF this step] M_Erased show ?thesis by (auto simp: monitor_left_def)
    qed (use step m c in \<open>auto simp: monitor_step_def monitor_left_def split: if_splits prod.splits\<close>)
    moreover have "monitor_left (sweep sv') = monitor_left sv'" by (simp add: monitor_left_def sweep_def)
    moreover have "closing F opened (sweep sv') w'"
      using sweep_inv [OF inv'] keeps c by (simp add: closing_def) (simp add: sweep_def)
    ultimately show ?thesis using step by (simp add: take_turn_def)
  qed
qed

lemma monitor_stops:
  assumes os: "broadcast_os os opened"
  shows "closing F opened sv w \<Longrightarrow> \<exists>k \<le> monitor_left sv.
      (\<exists>ns sv' w'. play os (replicate k Monitor) sv w = Some (Inr (ns, sv', w'))
         \<and> closing F opened sv' w' \<and> br_monitor sv' = M_End)
    \<or> play os (replicate k Monitor) sv w = Some (Inl BadCast)"
proof (induction "monitor_left sv" arbitrary: sv w rule: less_induct)
  case less
  show ?case
  proof (cases "br_monitor sv = M_End")
    case True
    with less.prems show ?thesis by (intro exI [of _ 0]) simp
  next
    case False
    from monitor_progress [OF os less.prems False] show ?thesis
    proof
      assume "take_turn os Monitor sv w = Some (Inl BadCast)"
      moreover have "1 \<le> monitor_left sv" using False by (cases "br_monitor sv") (simp_all add: monitor_left_def)
      ultimately show ?thesis by (intro exI [of _ 1]) simp
    next
      assume "\<exists>ns sv' w'. take_turn os Monitor sv w = Some (Inr (ns, sv', w')) \<and> closing F opened sv' w'
        \<and> monitor_left sv' < monitor_left sv"
      then obtain ns sv1 w1 where t: "take_turn os Monitor sv w = Some (Inr (ns, sv1, w1))"
          "closing F opened sv1 w1" "monitor_left sv1 < monitor_left sv" by blast
      from less.hyps [OF t(3,2)] obtain k where k: "k \<le> monitor_left sv1"
          "(\<exists>ns sv' w'. play os (replicate k Monitor) sv1 w1 = Some (Inr (ns, sv', w'))
             \<and> closing F opened sv' w' \<and> br_monitor sv' = M_End)
           \<or> play os (replicate k Monitor) sv1 w1 = Some (Inl BadCast)" by blast
      with t(1,3) show ?thesis by (intro exI [of _ "Suc k"]) auto
    qed
  qed
qed


subsection \<open>Properties\<close>

lemma session_shutdown: "shutdown_keeps session_os id"
  by (simp add: shutdown_keeps_def session_os_def null_os_def)

lemma books_start:
  assumes "broadcast_os os opened" and "quiet_handler handler opened"
    and "SocketBroadcastServerImpl_open os handler (SocketBroadcastServerImpl_new cfg tls) w0
        = Inr (result, sv0, w1)" and "sr_code result = SUCCESS"
  shows "books (opened w1) (ec_fd (br_server_ctx sv0)) opened (sv0, w1)"
proof -
  obtain F s where inv: "server_inv F opened sv0 w1" and sv: "br_active sv0 = []" "br_heap sv0 = Map.empty"
      "br_monitor sv0 = M_Top" "br_caller sv0 = C_Idle" "br_socket sv0 = Some s" "bs_fd s = F"
    using opened_session [OF assms] by blast
  have "ec_fd (br_server_ctx sv0) = F" using inv by (simp add: server_inv_def)
  with inv sv show ?thesis
    by (simp add: books_def ledger_def open_fds_def client_fds_def tokens_def live_fd_def)
qed

lemma broadcast_books:
  assumes "broadcast_os os opened" and "shutdown_keeps os opened" and "quiet_handler handler opened"
    and "SocketBroadcastServerImpl_open os handler (SocketBroadcastServerImpl_new cfg tls) w0
        = Inr (result, sv0, w1)" and "sr_code result = SUCCESS"
    and "server_run os (sv0, w1) log (sv, w)"
  shows "books (opened w1) (ec_fd (br_server_ctx sv0)) opened (sv, w)"
  by (rule books_run [OF assms(1,2,6) books_start [OF assms(1,3,4,5)]])

lemma closed_books:
  "books B F opened (sv, w) \<Longrightarrow> br_socket sv = None \<Longrightarrow> open_fds opened w = {f \<in> B. 0 < f} - {F}"
  by (auto simp: books_def server_inv_def)

text \<open>The caller's part of \<^verbatim>\<open>close\<close> once the monitor's thread has ended.\<close>

lemma join_turn:
  assumes "closing F opened sv w" and "br_monitor sv = M_End"
  shows "\<exists>sv' w'. play os [Caller False] sv w = Some (Inr ([], sv', w'))
    \<and> br_caller sv' = C_Idle \<and> br_socket sv' = None \<and> br_active sv' = [] \<and> br_heap sv' = Map.empty"
proof -
  from assms obtain sv1 w1 where fin: "finish_close os sv w = Inr (sv1, w1)" "closed_ok sv1"
    using finish_close_ok [of F opened sv w os] by (auto simp: closing_def)
  then have idle: "br_caller sv1 = C_Idle" by (auto simp: finish_close_def bindR_Inr_iff Let_def)
  moreover have "br_pending sv1 = []" using fin(1) by (auto simp: finish_close_def bindR_Inr_iff Let_def)
  ultimately have "owned sv1 = {}" using fin(2) by (simp add: closed_ok_def owned_def)
  with fin idle assms show ?thesis
    by (simp add: take_turn_def caller_step_def closing_def closed_ok_def sweep_def)
qed

text \<open>
  C14. The server leaks no descriptor and closes none that is not its own. In every reachable
  state of an open session the open descriptors are those there were when the session began
  and one for each client that has not been announced as gone; once the session is closed
  they are those there were, without the listening one.
\<close>

theorem broadcast_descriptors:
  assumes "broadcast_os os opened" and "shutdown_keeps os opened" and "quiet_handler handler opened"
    and "SocketBroadcastServerImpl_open os handler (SocketBroadcastServerImpl_new cfg tls) w0
        = Inr (result, sv0, w1)" and "sr_code result = SUCCESS"
    and "server_run os (sv0, w1) log (sv, w)"
  shows "open_fds opened w = (if br_socket sv = None
      then open_fds opened w1 - {ec_fd (br_server_ctx sv0)}
      else open_fds opened w1 \<union> client_fds sv)"
proof -
  have "books (opened w1) (ec_fd (br_server_ctx sv0)) opened (sv, w)"
    by (rule broadcast_books [OF assms])
  then show ?thesis by (auto simp: books_def ledger_def closed_ok_def server_inv_def open_fds_def)
qed

theorem broadcast_descriptors_witness:
  "\<exists>sv. play session_os [Monitor, Monitor, Monitor, Monitor, Monitor, Monitor]
      (opened_server (Some silent_handler)) {3} = Some (Inr ([Connected 0], sv, {3, 5}))
    \<and> client_fds sv = {5} \<and> open_fds id {3, 5} = open_fds id {3} \<union> client_fds sv"
proof -
  obtain sv where sv: "play session_os [Monitor, Monitor, Monitor, Monitor, Monitor, Monitor]
      (opened_server (Some silent_handler)) {3} = Some (Inr ([Connected 0], sv, {3, 5}))"
      "br_socket sv \<noteq> None" "br_active sv = [0]" "br_caller sv = C_Idle" "br_monitor sv = M_Dispatch []"
      "map_option bs_fd (bc_container (the (br_heap sv 0))) = Some 5"
    using first_client by blast
  have run: "server_run session_os (opened_server (Some silent_handler), {3}) [Connected 0] (sv, {3, 5})"
    using play_run [OF server_run.start sv(1)] by simp
  have "sr_code (mkCode SUCCESS) = SUCCESS" by simp
  from broadcast_descriptors [OF session_env(1) session_shutdown session_env(2) session_opens this run] sv(2)
  have fds: "open_fds id {3, 5} = open_fds id {3} \<union> client_fds sv" by simp
  have world: "open_fds id {3, 5} = {3, 5 :: fd}" "open_fds id {3} = {3 :: fd}" by (auto simp: open_fds_def)
  have "client_fds sv \<subseteq> {3} \<union> client_fds sv" "5 \<in> {3, 5 :: fd}" by blast+
  then have "client_fds sv \<subseteq> {3, 5}" "5 \<in> client_fds sv" using fds unfolding world by simp_all
  moreover have "live_fd (br_heap sv) 0 \<noteq> Some 3"
    using sv(6) by (cases "br_heap sv 0") (auto simp: live_fd_def split: if_splits)
  then have "3 \<notin> client_fds sv" using sv(3-5) by (simp add: client_fds_def tokens_def)
  ultimately have "client_fds sv = {5}" by blast
  with sv(1) fds show ?thesis by (intro exI [of _ sv] conjI)
qed

text \<open>
  C15. \<^verbatim>\<open>close\<close> returns. From every reachable state of an open session in which the caller is
  free to call it, the monitor's thread ends after a bounded number of its own steps, three
  for each event or descriptor it still has to look at, and the caller's next step completes
  \<^verbatim>\<open>close\<close>: no client is left, and the descriptors are those open before, without the
  listening one. The one way out is the monitor's fault on a failed listening socket.
\<close>

theorem broadcast_close_completes:
  assumes "broadcast_os os opened" and "shutdown_keeps os opened" and "quiet_handler handler opened"
    and "SocketBroadcastServerImpl_open os handler (SocketBroadcastServerImpl_new cfg tls) w0
        = Inr (result, sv0, w1)" and "sr_code result = SUCCESS"
    and "server_run os (sv0, w1) log (sv, w)"
    and "br_caller sv = C_Idle" and "br_socket sv \<noteq> None"
  shows "\<exists>k \<le> monitor_left sv.
      (\<exists>ns sv' w'. play os (Enter Call_Close # replicate k Monitor @ [Caller False]) sv w = Some (Inr (ns, sv', w'))
         \<and> br_caller sv' = C_Idle \<and> br_socket sv' = None \<and> br_active sv' = [] \<and> br_heap sv' = Map.empty
         \<and> open_fds opened w' = open_fds opened w1 - {ec_fd (br_server_ctx sv0)})
    \<or> play os (Enter Call_Close # replicate k Monitor) sv w = Some (Inl BadCast)"
proof -
  let ?F = "ec_fd (br_server_ctx sv0)" and ?sv = "start_call Call_Close sv"
  have "books (opened w1) ?F opened (sv, w)"
    by (rule broadcast_books [OF assms(1-6)])
  with assms(8) have "server_inv ?F opened sv w" by (auto simp: books_def closed_ok_def)
  from start_call_inv [OF this assms(7), of Call_Close] have "closing ?F opened ?sv w"
    by (simp add: closing_def)
  from monitor_stops [OF assms(1) this] obtain k where k: "k \<le> monitor_left ?sv"
      "(\<exists>ns sv' w'. play os (replicate k Monitor) ?sv w = Some (Inr (ns, sv', w'))
         \<and> closing ?F opened sv' w' \<and> br_monitor sv' = M_End)
       \<or> play os (replicate k Monitor) ?sv w = Some (Inl BadCast)" by blast
  have enter: "take_turn os (Enter Call_Close) sv w = Some (Inr ([], ?sv, w))"
    using assms(7) by (simp add: take_turn_def)
  from k(2) show ?thesis
  proof
    assume "\<exists>ns sv' w'. play os (replicate k Monitor) ?sv w = Some (Inr (ns, sv', w'))
         \<and> closing ?F opened sv' w' \<and> br_monitor sv' = M_End"
    then obtain ns sv2 w2 where p: "play os (replicate k Monitor) ?sv w = Some (Inr (ns, sv2, w2))"
        "closing ?F opened sv2 w2" "br_monitor sv2 = M_End" by blast
    from join_turn [OF p(2,3)] obtain sv' w' where j: "play os [Caller False] sv2 w2 = Some (Inr ([], sv', w'))"
        "br_caller sv' = C_Idle" "br_socket sv' = None" "br_active sv' = []" "br_heap sv' = Map.empty" by blast
    have all: "play os (Enter Call_Close # replicate k Monitor @ [Caller False]) sv w = Some (Inr (ns, sv', w'))"
      using enter play_append [OF p(1) j(1)] by (simp del: start_call.simps)
    from closed_books [OF broadcast_books [OF assms(1-5) play_run [OF assms(6) all]] j(3)]
    have "open_fds opened w' = open_fds opened w1 - {?F}" by (simp add: open_fds_def)
    with all j k(1) show ?thesis by (auto simp: monitor_left_def)
  next
    assume "play os (replicate k Monitor) ?sv w = Some (Inl BadCast)"
    with enter have "play os (Enter Call_Close # replicate k Monitor) sv w = Some (Inl BadCast)"
      by (simp del: start_call.simps)
    with k(1) show ?thesis by (auto simp: monitor_left_def)
  qed
qed

theorem broadcast_close_completes_witness:
  "\<exists>sv k ns sv' w'. play session_os [Monitor, Monitor, Monitor, Monitor, Monitor, Monitor]
      (opened_server (Some silent_handler)) {3} = Some (Inr ([Connected 0], sv, {3, 5}))
    \<and> k \<le> 2 \<and> play session_os (Enter Call_Close # replicate k Monitor @ [Caller False]) sv {3, 5}
        = Some (Inr (ns, sv', w'))
    \<and> br_socket sv' = None \<and> open_fds id w' = {}"
proof -
  obtain sv where sv: "play session_os [Monitor, Monitor, Monitor, Monitor, Monitor, Monitor]
      (opened_server (Some silent_handler)) {3} = Some (Inr ([Connected 0], sv, {3, 5}))"
      "br_caller sv = C_Idle" "br_socket sv \<noteq> None" "br_monitor sv = M_Dispatch []"
    using first_client by blast
  have "server_run session_os (opened_server (Some silent_handler), {3}) [Connected 0] (sv, {3, 5})"
    using play_run [OF server_run.start sv(1)] by simp
  note close = broadcast_close_completes [OF session_env(1) session_shutdown session_env(2) session_opens _ this sv(2,3)]
  have "play session_os (Enter Call_Close # replicate k Monitor) sv {3, 5} \<noteq> Some (Inl BadCast)" if "k \<le> 2" for k
  proof -
    from that consider "k = 0" | "k = 1" | "k = 2" by linarith
    then show ?thesis
      using sv(2,4) by cases (simp_all add: numeral_2_eq_2 take_turn_def monitor_step_def sweep_def)
  qed
  moreover have "monitor_left sv = 2" using sv(4) by (simp add: monitor_left_def)
  ultimately have "\<exists>k ns sv' w'. k \<le> 2 \<and> br_socket sv' = None
      \<and> play session_os (Enter Call_Close # replicate k Monitor @ [Caller False]) sv {3, 5} = Some (Inr (ns, sv', w'))
      \<and> open_fds id w' = open_fds id {3} - {3}"
    using close by (auto simp: opened_server_def simp del: play.simps)
  then obtain k ns sv' w' where "k \<le> 2" "br_socket sv' = None"
      "play session_os (Enter Call_Close # replicate k Monitor @ [Caller False]) sv {3, 5} = Some (Inr (ns, sv', w'))"
      "open_fds id w' = open_fds id {3} - {3}" by blast
  moreover have "open_fds id {3} - {3 :: fd} = {}" by (auto simp: open_fds_def)
  ultimately show ?thesis using sv(1) by metis
qed

end
