(* ===== verification/Broadcast_Races.thy ===== *)
theory Broadcast_Races
  imports Broadcast_Close
begin

text \<open>
  What the interleavings of the broadcast server's threads allow although the invariant
  holds: from which reachable states, and by which steps, a session gets to a state the
  documentation excludes. Each comes with an execution on a concrete kernel.
\<close>

subsection \<open>What the listener knows\<close>

text \<open>Every client in the active list is registered, until the monitor takes it off.\<close>

definition registered :: "'w broadcast_server \<Rightarrow> bool" where
  "registered sv \<longleftrightarrow> (\<forall>i \<in> set (br_active sv) \<union> set (accepted (br_monitor sv)) - unlisted (br_monitor sv).
     Client i \<in> set (ml_contexts (br_listener sv)))"

text \<open>
  A step opens no descriptor for a client that is there already, and puts no open descriptor
  under watch.
\<close>

definition no_rewatch ::
  "('w \<Rightarrow> fd set) \<Rightarrow> 'w broadcast_server \<Rightarrow> 'w \<Rightarrow> 'w broadcast_server \<Rightarrow> bool" where
  "no_rewatch opened sv w sv' \<longleftrightarrow> br_next sv \<le> br_next sv'
     \<and> (\<forall>j f. j < br_next sv \<longrightarrow> live_fd (br_heap sv') j = Some f \<longrightarrow> live_fd (br_heap sv) j = Some f)
     \<and> fst ` set (ml_handle (br_listener sv')) \<inter> opened w \<subseteq> fst ` set (ml_handle (br_listener sv))"

lemma no_rewatch_same:
  assumes "br_next sv' = br_next sv" and "br_listener sv' = br_listener sv"
    and "live_fd (br_heap sv') = live_fd (br_heap sv) \<or> live_fd (br_heap sv') = (live_fd (br_heap sv))(i := None)"
  shows "no_rewatch opened sv w sv'"
  using assms by (auto simp: no_rewatch_def split: if_splits)

lemma unlist_frame:
  assumes "unlist (Client i) sv = Inr sv'"
  shows "\<exists>l. sv' = sv\<lparr>br_listener := l\<rparr> \<and> set (ml_handle l) \<subseteq> set (ml_handle (br_listener sv))
    \<and> (\<forall>j. j \<noteq> i \<longrightarrow> Client j \<in> set (ml_contexts l) \<longleftrightarrow> Client j \<in> set (ml_contexts (br_listener sv)))"
  using assms set_remove_first [THEN subsetD]
  by (fastforce simp: unlist_def removeEvent_def remove_first_remove1 bindR_Inr_iff split: option.splits)

lemma accept_listener:
  assumes inv: "server_inv F opened sv w" and os: "broadcast_os os opened"
    and m: "br_monitor sv = M_Dispatch (c # cs)" and acc: "accept_client os cs sv w = Inr (sv', w')"
  shows "no_rewatch opened sv w sv' \<and> (registered sv \<longrightarrow> registered sv')"
proof -
  obtain s where s: "br_socket sv = Some s" using inv by (auto simp: server_inv_def)
  obtain sock w1 where pas: "PassiveSocket_accept os s w = (sock, w1)" by fastforce
  show ?thesis
  proof (cases "sr_code (bs_result sock) = SUCCESS")
    case False
    with acc s pas have "sv' = sv\<lparr>br_monitor := M_Dispatch cs\<rparr>" by (simp add: accept_client_def)
    with m show ?thesis by (auto simp: registered_def intro: no_rewatch_same)
  next
    case True
    note new = accept_opened [OF os pas, THEN conjunct2, THEN mp, OF True]
    obtain ip port where sv': "br_next sv' = br_next sv + 1"
        "br_heap sv' = (br_heap sv)(br_next sv \<mapsto>
           \<lparr>bc_ctx = \<lparr>ec_fd = bs_fd sock, ec_type = UNDEFINED\<rparr>, bc_container = Some sock\<rparr>)"
        "ml_handle (br_listener sv') = ml_handle (br_listener sv) @ [(bs_fd sock, POLLIN)]"
        "ml_contexts (br_listener sv') = ml_contexts (br_listener sv) @ [Client (br_next sv)]"
        "br_monitor sv' = M_Accepted (br_next sv) ip port cs" "br_active sv' = br_active sv"
      using acc s pas True by (auto simp: accept_client_def addEvent_def ctx_of_def Let_def)
    have "no_rewatch opened sv w sv'"
      using new by (auto simp: no_rewatch_def sv' live_fd_upd)
    with m show ?thesis by (auto simp: registered_def sv')
  qed
qed

lemma monitor_listener:
  assumes inv: "server_inv F opened sv w" and os: "broadcast_os os opened"
    and step: "monitor_step os sv w = Some (Inr (ns, sv', w'))"
  shows "no_rewatch opened sv w sv' \<and> (registered sv \<longrightarrow> registered sv')"
proof (cases "br_monitor sv")
  case (M_Wait cs hs)
  then obtain r where r: "wait_snapshot os (ml_server (br_listener sv)) cs hs (cfg_read_timeout (br_cfg sv))
      (ctx_of sv) w = Inr r" "after_wait r sv = (sv', w')"
    using step by (auto simp: monitor_step_def bindR_Inr_iff)
  obtain ret revs w1 where "os_poll os hs (cfg_read_timeout (br_cfg sv)) w = ((ret, revs), w1)"
    by (metis prod.exhaust)
  then obtain res es h where h: "r = (res, es, h, w1)" "same_fds (ctx_of sv) h"
    using r(1) collect_frame [of "ml_server (br_listener sv)" cs "zip hs revs" "ctx_of sv"]
    by (auto simp: wait_snapshot_def bindR_Inr_iff same_fds_def split: if_splits)
  have "live_fd (br_heap sv') = live_fd (br_heap sv)" "br_next sv' = br_next sv"
      "br_listener sv' = br_listener sv" "br_active sv' = br_active sv" "accepted (br_monitor sv') = []"
      "unlisted (br_monitor sv') = {}"
    using r(2) same_view(1) [OF store_ctx_view(1) [OF h(2)]]
    by (auto simp: after_wait_def h(1) Let_def split: if_splits)
  with M_Wait show ?thesis by (simp add: no_rewatch_same registered_def)
next
  case (M_Dispatch evs)
  show ?thesis
  proof (cases evs)
    case Nil
    with step M_Dispatch show ?thesis
      by (auto simp: monitor_step_def registered_def intro: no_rewatch_same)
  next
    case (Cons c cs)
    then have out: "dispatch_event os c cs sv w = Inr (sv', w')"
      using step M_Dispatch by (auto simp: monitor_step_def bindR_Inr_iff)
    obtain ec where ec: "ctx_of sv c = Some ec" using out by (cases "ctx_of sv c") (simp_all add: dispatch_event_def)
    show ?thesis
    proof (cases "ec_type ec")
      case ACCEPT
      with out ec accept_listener [OF inv os M_Dispatch [unfolded Cons]] show ?thesis
        by (simp add: dispatch_event_def)
    next
      case DISCONNECTED
      then obtain i where "client_lost i cs sv = Inr sv'"
        using out ec by (auto simp: dispatch_event_def bindR_Inr_iff split: broadcast_ctx.splits)
      moreover from this obtain sv1 where u: "unlist (Client i) sv = Inr sv1"
        by (auto simp: client_lost_def bindR_Inr_iff)
      ultimately obtain ip port where "sv' = sv1\<lparr>br_monitor := M_Unlisted i ip port cs\<rparr>"
        by (auto simp: client_lost_def split: option.splits)
      with unlist_frame [OF u] M_Dispatch show ?thesis
        by (auto simp: no_rewatch_def registered_def)
    qed (use out ec M_Dispatch Cons in \<open>auto simp: dispatch_event_def registered_def intro: no_rewatch_same\<close>)
  qed
next
  case (M_Unlisted i ip port cs)
  have "distinct (br_active sv)" using inv by (simp add: server_inv_def token_ok_def tokens_def)
  then have "registered sv \<longrightarrow> registered sv'"
    using step M_Unlisted by (auto simp: monitor_step_def registered_def remove_first_remove1 split: if_splits)
  moreover have "no_rewatch opened sv w sv'"
    by (rule no_rewatch_same) (use step M_Unlisted in \<open>auto simp: monitor_step_def split: if_splits\<close>)
  ultimately show ?thesis by blast
next
  case (M_Erased i ip port cs)
  from erased_step [OF this step] obtain h w1 where cl: "close_client os i sv w = Inr (sv\<lparr>br_heap := h\<rparr>, w1)"
      and sv': "sv' = sv\<lparr>br_heap := h, br_monitor := M_Dispatch cs\<rparr>" by blast
  from closed_fd(2) [OF inv os cl] M_Erased show ?thesis
    by (auto simp: sv' registered_def intro: no_rewatch_same)
qed (use step in \<open>auto simp: monitor_step_def registered_def split: if_splits prod.splits intro: no_rewatch_same\<close>)

lemma caller_listener:
  assumes inv: "server_inv F opened sv w" and os: "broadcast_os os opened"
    and step: "caller_step os expired sv w = Some (Inr (ns, sv', w'))" and "br_caller sv \<noteq> C_Join"
  shows "no_rewatch opened sv w sv' \<and> (registered sv \<longrightarrow> registered sv')"
proof (cases "br_caller sv")
  case (C_Unlist dropped rest)
  show ?thesis
  proof (cases rest)
    case Nil
    with step C_Unlist show ?thesis
      by (auto simp: caller_step_def registered_def intro: no_rewatch_same)
  next
    case (Cons i js)
    with step C_Unlist obtain sv1 where u: "unlist (Client i) sv = Inr sv1"
        and sv': "sv' = sv1\<lparr>br_caller := C_Unlist dropped js\<rparr>"
      by (auto simp: caller_step_def bindR_Inr_iff)
    have "set (accepted (br_monitor sv)) \<subseteq> set (held (br_monitor sv))" by (cases "br_monitor sv") simp_all
    then have "i \<notin> set (br_active sv) \<union> set (accepted (br_monitor sv))"
      using inv C_Unlist Cons by (auto simp: server_inv_def token_ok_def tokens_def)
    with unlist_frame [OF u] show ?thesis
      by (auto simp: sv' no_rewatch_def registered_def)
  qed
next
  case (C_Drop dropped rest)
  show ?thesis
  proof (cases rest)
    case Nil
    with step C_Drop show ?thesis
      by (auto simp: caller_step_def registered_def intro: no_rewatch_same)
  next
    case (Cons i js)
    with step C_Drop obtain h w1 where cl: "close_client os i sv w = Inr (sv\<lparr>br_heap := h\<rparr>, w1)"
        and sv': "sv' = sv\<lparr>br_heap := h, br_caller := C_Drop dropped js\<rparr>"
      by (auto simp: caller_step_def bindR_Inr_iff dest!: drop_client_frame)
    from closed_fd(2) [OF inv os cl] show ?thesis
      by (auto simp: sv' registered_def intro: no_rewatch_same)
  qed
next
  case (C_Write snapshot rest buffer result pos)
  show ?thesis
  proof (cases rest)
    case Nil
    with step C_Write show ?thesis
      by (auto simp: caller_step_def registered_def intro: no_rewatch_same)
  next
    case (Cons i js)
    from write_frame [OF step C_Write [unfolded Cons]] show ?thesis
      by (auto simp: registered_def intro: no_rewatch_same)
  qed
qed (use step assms(4) in
  \<open>auto simp: caller_step_def registered_def split: if_splits intro: no_rewatch_same\<close>)

subsection \<open>The rest of a session\<close>

text \<open>
  In every reachable state the active clients are registered, a caller that waits for the
  monitor has told it to stop, and what was unwatched once stays unwatched.
\<close>

definition settled ::
  "(client_id \<times> fd) set \<Rightarrow> fd \<Rightarrow> ('w \<Rightarrow> fd set) \<Rightarrow> 'w broadcast_server \<times> 'w \<Rightarrow> bool" where
  "settled U F opened s \<longleftrightarrow> session_inv False F opened [] s \<and> (case s of (sv, w) \<Rightarrow>
     br_socket sv \<noteq> None \<longrightarrow> registered sv \<and> (br_caller sv = C_Join \<longrightarrow> \<not> br_monitoring sv)
       \<and> (\<forall>(j, f) \<in> U. j < br_next sv
            \<and> (live_fd (br_heap sv) j = Some f \<longrightarrow> f \<notin> fst ` set (ml_handle (br_listener sv)))))"

lemma session_silent: "session_inv False F opened log s = session_inv False F opened [] s"
  by (simp add: session_inv_def)

lemma settled_next:
  assumes "settled U F opened (sv, w)" and "br_socket sv \<noteq> None" and inv: "server_inv F opened sv w"
    and step: "no_rewatch opened sv w sv' \<and> (registered sv \<longrightarrow> registered sv')"
    and "session_inv False F opened [] (sweep sv', w')"
    and "br_caller sv' = C_Join \<longrightarrow> \<not> br_monitoring sv'"
  shows "settled U F opened (sweep sv', w')"
proof -
  have U: "registered sv" "\<forall>(j, f) \<in> U. j < br_next sv
      \<and> (live_fd (br_heap sv) j = Some f \<longrightarrow> f \<notin> fst ` set (ml_handle (br_listener sv)))"
    using assms(1,2) by (simp_all add: settled_def)
  have "f \<notin> fst ` set (ml_handle (br_listener sv'))"
    if "(j, f) \<in> U" "live_fd (br_heap sv') j = Some f" for j f
  proof -
    from U(2) that(1) have j: "j < br_next sv"
        "live_fd (br_heap sv) j = Some f \<longrightarrow> f \<notin> fst ` set (ml_handle (br_listener sv))" by blast+
    with that(2) step have live: "live_fd (br_heap sv) j = Some f" by (simp add: no_rewatch_def)
    then have "f \<in> opened w" using inv unfolding server_inv_def heap_ok_def by blast
    with j(2) live step show ?thesis by (auto simp: no_rewatch_def)
  qed
  moreover have "j < br_next sv'" if "(j, f) \<in> U" for j f
    using U(2) that step by (fastforce simp: no_rewatch_def)
  moreover have "live_fd (br_heap (sweep sv')) j = Some f \<Longrightarrow> live_fd (br_heap sv') j = Some f" for j f
    by (simp add: sweep_def split: if_splits)
  moreover have "br_listener (sweep sv') = br_listener sv'" by (simp add: sweep_def)
  ultimately have "\<forall>(j, f) \<in> U. j < br_next (sweep sv') \<and> (live_fd (br_heap (sweep sv')) j = Some f \<longrightarrow>
      f \<notin> fst ` set (ml_handle (br_listener (sweep sv'))))"
    by (simp only: sweep_frame) blast
  moreover have "registered (sweep sv')"
    using U(1) step by (simp add: registered_def) (simp add: sweep_def)
  moreover have "br_monitoring (sweep sv') = br_monitoring sv'" by (simp add: sweep_def)
  ultimately show ?thesis using assms(5,6) by (simp add: settled_def)
qed

lemma open_or_closed:
  assumes "session_inv h F opened log (sv, w)"
  shows "if br_socket sv = None then closed_ok sv else server_inv F opened sv w"
  using assms by (auto simp: session_inv_def server_inv_def closed_ok_def)

lemma settled_monitor:
  assumes os: "broadcast_os os opened" and s: "settled U F opened (sv, w)"
    and step: "monitor_step os sv w = Some (Inr (ns, sv', w'))"
  shows "settled U F opened (sweep sv', w')"
proof -
  have inv: "session_inv False F opened [] (sv, w)" using s by (simp add: settled_def)
  note inv' = session_monitor [OF os inv step, unfolded append_Nil session_silent [of F opened ns]]
  show ?thesis
  proof (cases "br_socket sv = None")
    case True
    with open_or_closed [OF inv] closed_steps(1) [of sv os w] step show ?thesis by simp
  next
    case False
    with open_or_closed [OF inv] have sv: "server_inv F opened sv w" by simp
    have "br_caller sv' = C_Join \<longrightarrow> \<not> br_monitoring sv'"
      using s False monitor_keeps [OF step] by (simp add: settled_def)
    with settled_next [OF s False sv monitor_listener [OF sv os step] inv'] show ?thesis by blast
  qed
qed

lemma caller_monitoring:
  assumes "caller_step os expired sv w = Some (Inr (ns, sv', w'))"
  shows "br_caller sv' \<noteq> C_Join"
proof (cases "br_caller sv")
  case (C_Unlist dropped rest)
  with assms show ?thesis by (cases rest) (auto simp: caller_step_def bindR_Inr_iff)
next
  case (C_Drop dropped rest)
  with assms show ?thesis by (cases rest) (auto simp: caller_step_def bindR_Inr_iff)
next
  case (C_Write snapshot rest buffer result pos)
  show ?thesis
  proof (cases rest)
    case (Cons i js)
    from write_frame [OF assms C_Write [unfolded Cons]] obtain t
      where "sv' = sv\<lparr>br_caller := writing snapshot i js buffer result t\<rparr>" by blast
    then show ?thesis by (cases t) (simp_all add: writing_def)
  qed (use assms C_Write in \<open>auto simp: caller_step_def\<close>)
qed (use assms in \<open>auto simp: caller_step_def finish_close_def bindR_Inr_iff Let_def split: if_splits option.splits\<close>)

lemma settled_caller:
  assumes os: "broadcast_os os opened" and s: "settled U F opened (sv, w)"
    and step: "caller_step os expired sv w = Some (Inr (ns, sv', w'))"
  shows "settled U F opened (sweep sv', w')"
proof -
  have inv: "session_inv False F opened [] (sv, w)" using s by (simp add: settled_def)
  note inv' = session_caller [OF os inv step, unfolded append_Nil session_silent [of F opened ns]]
  show ?thesis
  proof (cases "br_socket sv = None")
    case True
    with open_or_closed [OF inv] closed_steps(3) [OF _ step] have "closed_ok sv'" by simp
    then have "br_socket (sweep sv') = None" by (simp add: closed_ok_def)
    with inv' show ?thesis by (simp add: settled_def)
  next
    case False
    with open_or_closed [OF inv] have sv: "server_inv F opened sv w" by simp
    show ?thesis
    proof (cases "br_caller sv = C_Join")
      case True
      with step finish_close_ok [OF sv, of os] have "closed_ok sv'"
        by (auto simp: caller_step_def bindR_Inr_iff split: if_splits)
      then have "br_socket (sweep sv') = None" by (simp add: closed_ok_def)
      with inv' show ?thesis by (simp add: settled_def)
    next
      case join: False
      from settled_next [OF s False sv caller_listener [OF sv os step join] inv'] caller_monitoring [OF step]
      show ?thesis by blast
    qed
  qed
qed

lemma settled_call:
  assumes s: "settled U F opened (sv, w)" and "br_caller sv = C_Idle" and "call_ok c"
  shows "settled U F opened (start_call c sv, w)"
proof -
  have "session_inv False F opened [] (start_call c sv, w)"
    using session_call [OF _ assms(2,3)] s by (simp add: settled_def)
  moreover have "br_socket (start_call c sv) = br_socket sv" "br_next (start_call c sv) = br_next sv"
      "br_heap (start_call c sv) = br_heap sv" "br_listener (start_call c sv) = br_listener sv"
      "registered sv \<longrightarrow> registered (start_call c sv)"
      "br_caller (start_call c sv) = C_Join \<longrightarrow> \<not> br_monitoring (start_call c sv)"
    using assms(2) by (cases c; auto simp: registered_def)+
  ultimately show ?thesis using s by (auto simp: settled_def)
qed

lemma settled_run:
  assumes os: "broadcast_os os opened" and "server_run os s0 log s" and "settled U F opened s0"
  shows "settled U F opened s"
  using assms(2)
proof (induction rule: server_run.induct)
  case (step log s ns s')
  from step.hyps(2) show ?case
  proof (cases rule: server_step.cases)
    case (monitor sv w sv' w')
    with settled_monitor [OF os] step.IH show ?thesis by blast
  next
    case (caller expired sv w sv' w')
    with settled_caller [OF os] step.IH show ?thesis by blast
  next
    case (call sv c w)
    with settled_call step.IH show ?thesis by auto
  qed
qed (rule assms(3))

lemma session_settled:
  assumes "broadcast_os os opened" and "quiet_handler handler opened"
    and "SocketBroadcastServerImpl_open os handler (SocketBroadcastServerImpl_new cfg tls) w0
        = Inr (result, sv0, w1)" and "sr_code result = SUCCESS"
    and "server_run os (sv0, w1) log (sv, w)"
  shows "\<exists>F. settled {} F opened (sv, w)"
proof -
  obtain F s where "server_inv F opened sv0 w1" "br_active sv0 = []" "br_monitor sv0 = M_Top"
      "br_caller sv0 = C_Idle"
    using opened_session [OF assms(1-4)] by blast
  then have "settled {} F opened (sv0, w1)"
    by (simp add: settled_def session_inv_def registered_def)
  from settled_run [OF assms(1,5) this] show ?thesis by blast
qed

subsection \<open>The wait of a listener that knows a freed client\<close>

lemma find_freed:
  assumes "c \<in> set cs" and "h c = None"
  shows "find_context h cs f = Inl UseAfterFree
    \<or> (\<exists>c ec. find_context h cs f = Inr (Some c) \<and> h c = Some ec \<and> ec_fd ec = f)"
  using assms by (induction cs) (auto split: option.split)

lemma find_freed_other:
  assumes "c \<in> set cs" and "h c = None"
    and "\<forall>c \<in> set cs. \<forall>ec. h c = Some ec \<longrightarrow> ec_fd ec = F" and "f \<noteq> F"
  shows "find_context h cs f = Inl UseAfterFree"
  using assms by (induction cs) (auto split: option.split)

lemma collect_freed:
  assumes "c \<in> set cs" and "h c = None"
    and "\<forall>c \<in> set cs. \<forall>ec. h c = Some ec \<longrightarrow> ec_fd ec = F"
    and "(p, rv) \<in> set es" and "rv \<noteq> 0" and "fst p \<noteq> F"
  shows "collect_events srv cs es h = Inl UseAfterFree"
  using assms
proof (induction srv cs es h rule: collect_events.induct)
  case (2 srv cs f ev revents rest h)
  show ?case
  proof (cases "revents = 0")
    case True
    with 2 show ?thesis by auto
  next
    case False
    show ?thesis
    proof (cases "f = F")
      case f: False
      from find_freed_other [of c cs h F f, OF 2(3,4,5) f] False show ?thesis by simp
    next
      case True
      from find_freed [of c cs h f, OF 2(3,4)] show ?thesis
      proof
        assume "\<exists>c ec. find_context h cs f = Inr (Some c) \<and> h c = Some ec \<and> ec_fd ec = f"
        then obtain d ec where d: "find_context h cs f = Inr (Some d)" "h d = Some ec" "ec_fd ec = f" by blast
        let ?h = "h(d \<mapsto> ec\<lparr>ec_type := event_type srv f revents (ec_type ec)\<rparr>)"
        have "c \<noteq> d" using d(2) 2(4) by auto
        then have "?h c = None" using 2(4) by simp
        moreover have "\<forall>c \<in> set cs. \<forall>ec. ?h c = Some ec \<longrightarrow> ec_fd ec = F"
          using d(3) True 2(5) by simp
        moreover have "(p, rv) \<in> set rest" using 2(6,8) True by auto
        ultimately have "collect_events srv cs rest ?h = Inl UseAfterFree"
          by (intro 2(2) [OF False d(2) 2(3)]) (use 2(7,8) in auto)
        with False d(1,2) show ?thesis by simp
      qed (simp add: False)
    qed
  qed
qed simp

text \<open>What \<^verbatim>\<open>open\<close> makes of a server that has been closed: it appends to the lists it finds.\<close>

lemma reopened_state:
  assumes op: "SocketBroadcastServerImpl_open os handler sv w = Inr (result, sv2, w2)"
    and ok: "sr_code result = SUCCESS" and "\<not> br_monitoring sv"
  shows "\<exists>F. br_heap sv2 = br_heap sv \<and> br_caller sv2 = br_caller sv \<and> br_monitoring sv2
    \<and> br_monitor sv2 = M_Top \<and> ec_fd (br_server_ctx sv2) = F
    \<and> ml_contexts (br_listener sv2) = ml_contexts (br_listener sv) @ [AcceptCtx]
    \<and> ml_handle (br_listener sv2) = ml_handle (br_listener sv) @ [(F, POLLIN)]"
proof -
  let ?ux = "cfg_is_unix_domain (br_cfg sv)"
  obtain s w1 where s: "PassiveSocketContainer_new os (ts_valid (br_tls sv)) ?ux w = Inr (s, w1)"
    using op by (auto simp: SocketBroadcastServerImpl_open_def Let_def bindR_Inr_iff)
  have sok: "sr_code (bs_result s) = SUCCESS"
    using op ok s by (auto simp: SocketBroadcastServerImpl_open_def Let_def split: if_splits)
  with op s obtain ip port a w2' where a: "c_str (cfg_ip (br_cfg sv)) = Inr ip"
      "c_str (cfg_port (br_cfg sv)) = Inr port" "SocketAddress_new os ip port True ?ux w1 = Inr (a, w2')"
    by (auto simp: SocketBroadcastServerImpl_open_def Let_def bindR_Inr_iff)
  obtain rb wb where b: "PassiveSocket_bind os s a w2' = (rb, wb)" by fastforce
  obtain rl wl where l: "PassiveSocket_listen os s wb = (rl, wl)" by fastforce
  show ?thesis
    using op ok s sok a b l assms(3)
    by (auto simp: SocketBroadcastServerImpl_open_def Let_def bindR_Inr_iff addEvent_def ctx_of_def
        SocketMultiEventListener_open_def split: if_splits)
qed

subsection \<open>A kernel\<close>

text \<open>
  As the kernel of the sessions before, with \<^verbatim>\<open>poll\<close> reporting a closed descriptor as invalid,
  a request to connect at the listening socket, any other as writable if that is asked, and
  as hung up if not.
\<close>

definition race_os :: "fd set os" where
  "race_os = session_os\<lparr>
     os_poll := (\<lambda>fds t S. ((1, map (\<lambda>p. if fst p \<notin> S then POLLNVAL
        else if fst p = 3 then POLLIN else if snd p = POLLOUT then POLLOUT else POLLHUP) fds), S))\<rparr>"

lemma race_env: "broadcast_os race_os id"
  by (auto simp: broadcast_os_def quiet_def race_os_def session_os_def null_os_def split: if_splits)

lemma race_opens:
  "SocketBroadcastServerImpl_open race_os handler (SocketBroadcastServerImpl_new sample_cfg no_tls) {}
     = Inr (mkCode SUCCESS, opened_server handler, {3})"
  by (simp add: SocketBroadcastServerImpl_open_def SocketBroadcastServerImpl_new_def sample_cfg_def
      PassiveSocketContainer_new_def PassiveSocket_new_def open_stream_socket_def race_os_def session_os_def
      null_os_def setNonBlockingMode_def SocketAddress_new_def write_zero_bytes PassiveSocket_bind_def
      PassiveSocket_listen_def addEvent_def ctx_of_def SocketMultiEventListener_open_def
      multi_listener_new_def opened_server_def no_tls_valid zero_array_strings i32_small Let_def)

lemmas race_eval = race_os_def session_eval caller_step_def drop_client_def close_client_def
  ServerActiveSocket_close_def announce_disconnected_def unlist_def removeEvent_def client_lost_def

definition monitor_turns :: "nat \<Rightarrow> turn list" where
  "monitor_turns n = replicate n Monitor"

lemma turns_numeral [simp]:
  "monitor_turns 0 = []" "monitor_turns (Suc n) = Monitor # monitor_turns n"
  "monitor_turns (numeral k) = Monitor # monitor_turns (pred_numeral k)"
  "caller_turns (numeral k) = Caller False # caller_turns (pred_numeral k)"
  by (simp_all add: monitor_turns_def numeral_eq_Suc)

definition fresh_session :: "fd set broadcast_server" where
  "fresh_session = opened_server (Some silent_handler)"

lemma race_run:
  "play race_os ts fresh_session {3} = Some (Inr (ns, sv, w)) \<Longrightarrow>
   server_run race_os (opened_server (Some silent_handler), {3}) ns (sv, w)"
  using play_run [OF server_run.start, of race_os ts] by (simp add: fresh_session_def)

subsection \<open>Properties\<close>

text \<open>
  C35. Every client can be announced as gone before it is announced as connected. From every
  reachable state in which the monitor has accepted a client and the caller is free: the
  monitor puts the client into the active list, \<^verbatim>\<open>dropAll\<close> runs to its end and announces it,
  with the others, as disconnected, and the monitor's next step announces it as connected.
\<close>

theorem early_disconnect:
  assumes os: "broadcast_os os opened" and "quiet_handler (Some h) opened"
    and "SocketBroadcastServerImpl_open os (Some h) (SocketBroadcastServerImpl_new cfg tls) w0
        = Inr (result, sv0, w1)" and "sr_code result = SUCCESS"
    and "server_run os (sv0, w1) log (sv, w)"
    and m: "br_monitor sv = M_Accepted i ip port cs" and c: "br_caller sv = C_Idle"
  shows "\<exists>sv' w'. play os (Monitor # Enter Call_DropAll
        # caller_turns (2 * length (br_active sv) + 4) @ [Monitor]) sv w
      = Some (Inr (map Disconnected (br_active sv) @ [Disconnected i, Connected i], sv', w'))
    \<and> br_active sv' = []"
proof -
  obtain F where "session_inv True F opened [] (sv0, w1)"
    using session_start [OF assms(1-4)] by auto
  with session_run [OF assms(1,5)] m have inv: "server_inv F opened sv w" and "log_ok log sv"
    by (auto simp: session_inv_def closed_ok_def)
  then obtain hd where hd: "br_handler sv = Some hd" by (auto simp: log_ok_def)
  let ?sv1 = "sweep (sv\<lparr>br_active := br_active sv @ [i], br_monitor := M_Announce i ip port cs\<rparr>)"
  have t1: "take_turn os Monitor sv w = Some (Inr ([], ?sv1, w))"
    by (simp add: take_turn_def monitor_step_def m c)
  have inv1: "server_inv F opened ?sv1 w" by (rule sweep_inv [OF push_inv [OF inv m]])
  have len: "2 * length (br_active ?sv1) + 2 = 2 * length (br_active sv) + 4" by simp
  obtain sv2 w2 where d: "play os (Enter Call_DropAll # caller_turns (2 * length (br_active sv) + 4)) ?sv1 w
      = Some (Inr (map Disconnected (br_active sv) @ [Disconnected i], sv2, w2))"
      "br_active sv2 = []" "br_monitor sv2 = M_Announce i ip port cs" "br_handler sv2 = Some hd"
    using drop_all_turns [OF os inv1, unfolded len] c hd by (auto simp del: play.simps caller_turns_simps)
  let ?sv3 = "sweep (sv2\<lparr>br_monitor := M_Dispatch cs\<rparr>)"
  have "play os [Monitor] sv2 w2 = Some (Inr ([Connected i], ?sv3, bh_connected hd ip port w2))"
    by (simp add: take_turn_def monitor_step_def d(3,4) announce_connected_def)
  from play_append [OF d(1) this] t1
  have "play os (Monitor # Enter Call_DropAll # caller_turns (2 * length (br_active sv) + 4) @ [Monitor]) sv w
      = Some (Inr (map Disconnected (br_active sv) @ [Disconnected i, Connected i], ?sv3,
          bh_connected hd ip port w2))"
    by (simp del: caller_turns_simps)
  moreover have "br_active ?sv3 = []" using d(2) by simp
  ultimately show ?thesis by (intro exI conjI)
qed

theorem early_disconnect_witness:
  "\<exists>sv sv' w'. play race_os (monitor_turns 4) fresh_session {3} = Some (Inr ([], sv, {3, 5}))
    \<and> play race_os (Monitor # Enter Call_DropAll # caller_turns 4 @ [Monitor]) sv {3, 5}
        = Some (Inr ([Disconnected 0, Connected 0], sv', w'))"
proof -
  obtain sv ip port cs where sv: "play race_os (monitor_turns 4) fresh_session {3} = Some (Inr ([], sv, {3, 5}))"
      "br_monitor sv = M_Accepted 0 ip port cs" "br_caller sv = C_Idle" "br_active sv = []"
    by (simp add: race_eval fresh_session_def insert_commute)
  have ok: "sr_code (mkCode SUCCESS) = SUCCESS" by simp
  from early_disconnect [OF race_env session_env(2) race_opens ok race_run [OF sv(1)] sv(2,3)] sv(1,4)
  show ?thesis by (auto simp del: play.simps)
qed

text \<open>
  C34. A stale disconnection unwatches another client for good. From every reachable state in
  which the monitor handles a disconnection of client \<open>i\<close> whose context still has the number
  of a descriptor that now is the open one of another active client \<open>j\<close>: the next step of the
  monitor, \<^verbatim>\<open>removeEvent\<close>, takes the descriptor of \<open>j\<close> off the listener, while \<open>j\<close> stays active,
  open and registered; and in every later state of the session, as long as \<open>j\<close> has its
  descriptor, the listener does not watch it.
\<close>

theorem stale_disconnect_unwatches:
  assumes os: "broadcast_os os opened" and "quiet_handler handler opened"
    and "SocketBroadcastServerImpl_open os handler (SocketBroadcastServerImpl_new cfg tls) w0
        = Inr (result, sv0, w1)" and "sr_code result = SUCCESS"
    and "server_run os (sv0, w1) log (sv, w)"
    and m: "br_monitor sv = M_Dispatch (Client i # cs)"
    and ec: "ctx_of sv (Client i) = Some ec" "ec_type ec = DISCONNECTED"
    and j: "j \<noteq> i" "j \<in> set (br_active sv)" "live_fd (br_heap sv) j = Some (ec_fd ec)"
  shows "\<exists>sv1. take_turn os Monitor sv w = Some (Inr ([], sv1, w))
    \<and> j \<in> set (br_active sv1) \<and> live_fd (br_heap sv1) j = Some (ec_fd ec)
    \<and> Client j \<in> set (ml_contexts (br_listener sv1))
    \<and> (\<forall>log' sv2 w2. server_run os (sv1, w) log' (sv2, w2) \<longrightarrow> br_socket sv2 \<noteq> None \<longrightarrow>
         live_fd (br_heap sv2) j = Some (ec_fd ec) \<longrightarrow> ec_fd ec \<notin> fst ` set (ml_handle (br_listener sv2)))"
proof -
  obtain F where s: "settled {} F opened (sv, w)" using session_settled [OF assms(1-5)] by blast
  have "br_socket sv \<noteq> None" using open_or_closed [of False F opened "[]" sv w] s m
    by (auto simp: settled_def closed_ok_def split: if_splits)
  with s have inv: "server_inv F opened sv w" and reg: "registered sv"
    using open_or_closed [of False F opened "[]" sv w] by (auto simp: settled_def)
  let ?l = "br_listener sv" and ?f = "ec_fd ec"
  let ?l' = "?l\<lparr>ml_handle := remove_first (\<lambda>p. fst p = ?f) (ml_handle ?l),
      ml_contexts := remove_first (\<lambda>c. c = Client i) (ml_contexts ?l)\<rparr>"
  have un: "unlist (Client i) sv = Inr (sv\<lparr>br_listener := ?l'\<rparr>)" by (simp add: unlist_def removeEvent_def ec)
  obtain c where c: "br_heap sv i = Some c" using ec(1) by (auto simp: ctx_of_def)
  then obtain sock where sock: "bc_container c = Some sock"
    using inv unfolding server_inv_def heap_ok_def by blast
  let ?sv1 = "sv\<lparr>br_listener := ?l', br_monitor := M_Unlisted i (ip_text sock) (ss_port sock) cs\<rparr>"
  have step: "monitor_step os sv w = Some (Inr ([], ?sv1, w))"
    using un c sock by (simp add: monitor_step_def m dispatch_event_def ec client_lost_def)
  have "distinct (map fst (ml_handle ?l))" using inv by (simp add: server_inv_def listener_ok_def)
  from set_remove_first_distinct [OF this, of ?f] have off: "?f \<notin> fst ` set (ml_handle ?l')" by auto
  have s1: "settled {} F opened (sweep ?sv1, w)" by (rule settled_monitor [OF os s step])
  have owned: "j \<in> owned ?sv1" using j(2) by (simp add: owned_def)
  have next1: "j < br_next sv" using inv j(2) by (auto simp: server_inv_def token_ok_def tokens_def)
  have heap1: "br_heap (sweep ?sv1) = br_heap sv |` owned ?sv1"
      "br_listener (sweep ?sv1) = ?l'" by (simp_all add: sweep_def)
  have s2: "settled {(j, ?f)} F opened (sweep ?sv1, w)"
    using s1 off next1 by (simp add: settled_def heap1)
  have "?f \<notin> fst ` set (ml_handle (br_listener sv2))"
    if "server_run os (sweep ?sv1, w) log' (sv2, w2)" "br_socket sv2 \<noteq> None" "live_fd (br_heap sv2) j = Some ?f"
    for log' sv2 w2
    using settled_run [OF os that(1) s2] that(2,3) by (simp add: settled_def)
  moreover have "Client j \<in> set (ml_contexts ?l')"
    using reg j m by (auto simp: registered_def remove_first_remove1)
  moreover have "take_turn os Monitor sv w = Some (Inr ([], sweep ?sv1, w))" by (simp add: take_turn_def step)
  ultimately show ?thesis
    using j owned by (intro exI [of _ "sweep ?sv1"] conjI allI impI) (simp_all add: heap1)
qed

text \<open>
  The monitor's copy of the lists still has client 0 when \<^verbatim>\<open>dropAll\<close> closes its descriptor 5; the
  event of the listening socket comes first and makes the kernel give 5 to client 1.
\<close>

theorem stale_disconnect_unwatches_witness:
  "\<exists>sv sv1. play race_os (monitor_turns 10 @ Enter Call_DropAll # caller_turns 4 @ monitor_turns 3)
       fresh_session {3} = Some (Inr ([Connected 0, Disconnected 0, Connected 1], sv, {3, 5}))
     \<and> take_turn race_os Monitor sv {3, 5} = Some (Inr ([], sv1, {3, 5}))
     \<and> br_active sv = [1] \<and> 5 \<in> fst ` set (ml_handle (br_listener sv))
     \<and> live_fd (br_heap sv1) 1 = Some 5 \<and> 5 \<notin> fst ` set (ml_handle (br_listener sv1))"
proof -
  obtain sv where sv: "play race_os (monitor_turns 10 @ Enter Call_DropAll # caller_turns 4 @ monitor_turns 3)
       fresh_session {3} = Some (Inr ([Connected 0, Disconnected 0, Connected 1], sv, {3, 5}))"
      "br_monitor sv = M_Dispatch [Client 0]" "br_active sv = [1]"
      "ctx_of sv (Client 0) = Some \<lparr>ec_fd = 5, ec_type = DISCONNECTED\<rparr>"
      "live_fd (br_heap sv) 1 = Some 5" "5 \<in> fst ` set (ml_handle (br_listener sv))" "br_socket sv \<noteq> None"
    by (simp add: race_eval fresh_session_def live_fd_def insert_commute)
  have ok: "sr_code (mkCode SUCCESS) = SUCCESS" by simp
  obtain sv1 where sv1: "take_turn race_os Monitor sv {3, 5} = Some (Inr ([], sv1, {3, 5}))"
      "live_fd (br_heap sv1) 1 = Some 5"
      "\<forall>log' sv2 w2. server_run race_os (sv1, {3, 5}) log' (sv2, w2) \<longrightarrow> br_socket sv2 \<noteq> None \<longrightarrow>
         live_fd (br_heap sv2) 1 = Some 5 \<longrightarrow> 5 \<notin> fst ` set (ml_handle (br_listener sv2))"
    using stale_disconnect_unwatches [OF race_env session_env(2) race_opens ok race_run [OF sv(1)] sv(2,4), of 1]
      sv(3,5) by auto
  obtain sv1' where "monitor_step race_os sv {3, 5} = Some (Inr ([], sv1', {3, 5}))" "sv1 = sweep sv1'"
    using sv1(1) by (auto simp: take_turn_def bindR_Inr_iff)
  with monitor_keeps [OF this(1)] sv(7) have "br_socket sv1 \<noteq> None" by simp
  with sv1(3) server_run.start [of race_os "(sv1, {3, 5})"] sv1(2)
  have "5 \<notin> fst ` set (ml_handle (br_listener sv1))" by blast
  with sv(1,3,6) sv1(1,2) show ?thesis by (intro exI conjI)
qed

text \<open>
  C36. A server that is closed while it has a client uses freed memory when it is opened
  again. From every reachable state in which the monitor has ended, the caller is about to
  complete \<^verbatim>\<open>close\<close> and a client is active: if a later \<^verbatim>\<open>open\<close> succeeds and the first
  \<^verbatim>\<open>poll\<close> of the new session reports an event on a descriptor other than the new listening one, then
  the monitor reads a freed client in its third step. The listener keeps the contexts and
  the descriptors of the old clients through \<^verbatim>\<open>close\<close> and \<^verbatim>\<open>open\<close>.
\<close>

theorem reopen_uses_freed_client:
  assumes os: "broadcast_os os opened" and "quiet_handler handler opened"
    and "SocketBroadcastServerImpl_open os handler (SocketBroadcastServerImpl_new cfg tls) w0
        = Inr (result, sv0, w1)" and "sr_code result = SUCCESS"
    and "server_run os (sv0, w1) log (sv, w)"
    and c: "br_caller sv = C_Join" and m: "br_monitor sv = M_End" and a: "br_active sv \<noteq> []"
    and close: "take_turn os (Caller False) sv w = Some (Inr ([], svc, wc))"
    and reopen: "SocketBroadcastServerImpl_open os handler' svc wc = Inr (result', sv2, w2)"
      "sr_code result' = SUCCESS"
    and poll: "os_poll os (ml_handle (br_listener sv2)) (cfg_read_timeout (br_cfg sv2)) w2 = ((ret, revs), w3)"
      "0 < ret" "(p, rv) \<in> set (zip (ml_handle (br_listener sv2)) revs)" "rv \<noteq> 0"
      "fst p \<noteq> ec_fd (br_server_ctx sv2)"
  shows "play os [Monitor, Monitor, Monitor] sv2 w2 = Some (Inl UseAfterFree)"
proof -
  obtain F where s: "settled {} F opened (sv, w)" using session_settled [OF assms(1-5)] by blast
  have "br_socket sv \<noteq> None" using open_or_closed [of False F opened "[]" sv w] s a
    by (auto simp: settled_def closed_ok_def split: if_splits)
  with s c have inv: "server_inv F opened sv w" and reg: "registered sv" and stop: "\<not> br_monitoring sv"
    using open_or_closed [of False F opened "[]" sv w] by (auto simp: settled_def)
  obtain i where i: "i \<in> set (br_active sv)" using a by (cases "br_active sv") auto
  then have known: "Client i \<in> set (ml_contexts (br_listener sv))"
    using reg m by (simp add: registered_def)
  have "set (br_active sv) \<subseteq> dom (br_heap sv)" using inv by (auto simp: server_inv_def owned_def)
  moreover have "\<forall>i \<in> set (br_active sv). \<forall>c. br_heap sv i = Some c \<longrightarrow> bc_container c \<noteq> None"
    using inv unfolding server_inv_def heap_ok_def by blast
  ultimately obtain h w4 where "close_clients os (br_active sv) sv w = Inr (sv\<lparr>br_heap := h\<rparr>, w4)"
    using close_clients_ok [of "br_active sv" sv os w] by blast
  then have svc: "br_heap svc = Map.empty" "br_listener svc = br_listener sv" "br_caller svc = C_Idle"
      "\<not> br_monitoring svc"
    using close c m stop
    by (auto simp: take_turn_def caller_step_def finish_close_def Let_def sweep_def owned_def
        SocketMultiEventListener_close_def)
  obtain F2 where sv2: "br_heap sv2 = Map.empty" "br_caller sv2 = C_Idle" "br_monitoring sv2"
      "br_monitor sv2 = M_Top" "ec_fd (br_server_ctx sv2) = F2"
      "ml_contexts (br_listener sv2) = ml_contexts (br_listener sv) @ [AcceptCtx]"
    using reopened_state [OF reopen svc(4)] svc(1-3) by auto
  let ?sv3 = "sweep (sv2\<lparr>br_pending := [], br_monitor := M_Poll\<rparr>)"
  let ?sv4 = "sweep (?sv3\<lparr>br_monitor := M_Wait (ml_contexts (br_listener sv2)) (ml_handle (br_listener sv2))\<rparr>)"
  have t: "take_turn os Monitor sv2 w2 = Some (Inr ([], ?sv3, w2))"
      "take_turn os Monitor ?sv3 w2 = Some (Inr ([], ?sv4, w2))"
    using sv2 by (simp_all add: take_turn_def monitor_step_def) (simp_all add: sweep_def)
  have ctx: "ctx_of ?sv4 (Client i) = None" "ctx_of ?sv4 AcceptCtx = Some (br_server_ctx sv2)"
      "\<And>k. ctx_of ?sv4 (Client k) = None"
    using sv2(1) by (simp_all add: ctx_of_def sweep_def)
  have "\<forall>c \<in> set (ml_contexts (br_listener sv2)). \<forall>ec. ctx_of ?sv4 c = Some ec \<longrightarrow> ec_fd ec = F2"
  proof (intro ballI allI impI)
    fix c ec assume "ctx_of ?sv4 c = Some ec"
    then show "ec_fd ec = F2" using ctx sv2(5) by (cases c) auto
  qed
  then have "collect_events srv (ml_contexts (br_listener sv2)) (zip (ml_handle (br_listener sv2)) revs)
      (ctx_of ?sv4) = Inl UseAfterFree" for srv
    using known poll(3-5) sv2(5,6) ctx(1) by (intro collect_freed [of "Client i" _ _ F2 p rv]) simp_all
  then have "take_turn os Monitor ?sv4 w2 = Some (Inl UseAfterFree)"
    using poll(1,2) by (simp add: take_turn_def monitor_step_def wait_snapshot_def) (simp add: sweep_def)
  with t show ?thesis by simp
qed

text \<open>What \<^verbatim>\<open>open\<close> makes of a server on the kernel above.\<close>

definition reopened :: "fd set broadcast_server \<Rightarrow> fd set broadcast_server" where
  "reopened sv = sv\<lparr>br_socket := Some \<lparr>bs_result = mkCode SUCCESS, bs_fd = 3\<rparr>,
     br_handler := Some silent_handler, br_server_ctx := \<lparr>ec_fd = 3, ec_type = UNDEFINED\<rparr>,
     br_listener := \<lparr>ml_server = 3, ml_contexts = ml_contexts (br_listener sv) @ [AcceptCtx],
       ml_handle = ml_handle (br_listener sv) @ [(3, POLLIN)]\<rparr>,
     br_monitoring := True, br_monitor := M_Top\<rparr>"

lemma race_reopens:
  assumes "br_cfg sv = sample_cfg" and "br_tls sv = no_tls" and "\<not> br_monitoring sv"
  shows "SocketBroadcastServerImpl_open race_os (Some silent_handler) sv {}
    = Inr (mkCode SUCCESS, reopened sv, {3})"
  using assms
  by (simp add: SocketBroadcastServerImpl_open_def sample_cfg_def
        PassiveSocketContainer_new_def PassiveSocket_new_def open_stream_socket_def race_os_def session_os_def
        null_os_def setNonBlockingMode_def SocketAddress_new_def write_zero_bytes PassiveSocket_bind_def
        PassiveSocket_listen_def addEvent_def ctx_of_def SocketMultiEventListener_open_def
        reopened_def no_tls_valid zero_array_strings i32_small Let_def)

theorem reopen_uses_freed_client_witness:
  "\<exists>sv svc sv2. play race_os (monitor_turns 6 @ [Enter Call_Close, Monitor, Monitor])
       fresh_session {3} = Some (Inr ([Connected 0], sv, {3, 5}))
     \<and> take_turn race_os (Caller False) sv {3, 5} = Some (Inr ([], svc, {}))
     \<and> SocketBroadcastServerImpl_open race_os (Some silent_handler) svc {} = Inr (mkCode SUCCESS, sv2, {3})
     \<and> play race_os [Monitor, Monitor, Monitor] sv2 {3} = Some (Inl UseAfterFree)"
proof -
  have "{3 :: fd, 5} - {5} \<subseteq> {3}" by auto
  then obtain sv svc where sv: "play race_os (monitor_turns 6 @ [Enter Call_Close, Monitor, Monitor])
       fresh_session {3} = Some (Inr ([Connected 0], sv, {3, 5}))"
      "br_caller sv = C_Join" "br_monitor sv = M_End" "br_active sv = [0]"
      "take_turn race_os (Caller False) sv {3, 5} = Some (Inr ([], svc, {}))"
      "br_cfg svc = sample_cfg" "br_tls svc = no_tls" "\<not> br_monitoring svc"
      "br_listener svc = \<lparr>ml_server = 3, ml_contexts = [AcceptCtx, Client 0],
         ml_handle = [(3, POLLIN), (5, POLLIN)]\<rparr>"
    by (simp add: race_eval fresh_session_def insert_commute finish_close_def PassiveSocket_close_def
        SocketMultiEventListener_close_def Let_def)
  let ?sv2 = "reopened svc"
  note op = race_reopens [OF sv(6-8)]
  have ok: "sr_code (mkCode SUCCESS) = SUCCESS" by simp
  have hs: "ml_handle (br_listener ?sv2) = [(3, POLLIN), (5, POLLIN), (3, POLLIN)]" "ec_fd (br_server_ctx ?sv2) = 3"
    by (simp_all add: reopened_def sv(9))
  have poll: "os_poll race_os (ml_handle (br_listener ?sv2)) (cfg_read_timeout (br_cfg ?sv2)) {3}
      = ((1, [POLLIN, POLLNVAL, POLLIN]), {3})"
    by (simp add: hs race_os_def)
  have "play race_os [Monitor, Monitor, Monitor] ?sv2 {3} = Some (Inl UseAfterFree)"
    by (rule reopen_uses_freed_client [OF race_env session_env(2) race_opens ok race_run [OF sv(1)] sv(2,3) _
          sv(5) op ok poll, where p = "(5, POLLIN)" and rv = POLLNVAL])
      (simp_all add: sv(4) hs, simp add: poll_consts)
  with sv(1,5) op show ?thesis by (intro exI conjI)
qed

subsection \<open>Two more executions\<close>

text \<open>
  \<^verbatim>\<open>await\<close> can return \<open>SUCCESS\<close> with no client: its predicate is true when it wakes up, and
  the client is gone when it counts.
\<close>

theorem await_success_empty:
  "\<exists>sv w. play race_os
       (monitor_turns 6 @ [Enter Call_Await, Caller False] @ monitor_turns 8 @ [Caller False])
       fresh_session {3} = Some (Inr ([Connected 0, Disconnected 0], sv, w))
     \<and> br_caller sv = C_Return (mkResult SUCCESS 0)"
  by (simp add: race_eval fresh_session_def insert_commute await_result_def await_count_def)

text \<open>
  \<^verbatim>\<open>write\<close> can send to a client it was not meant for: it has read the descriptor of client 0
  when the monitor closes that client and accepts client 1 on the same number; the buffer
  goes to client 1 and is reported as written.
\<close>

theorem write_reaches_new_client:
  "\<exists>sv sv'. play race_os
       (monitor_turns 6 @ Enter (Call_Write [1, 2]) # caller_turns 3 @ monitor_turns 15)
       fresh_session {3} = Some (Inr ([Connected 0, Disconnected 0, Connected 1], sv, {3, 5}))
     \<and> br_caller sv = C_Write [0] [0] [1, 2] (mkCode SUCCESS) (W_Call (5, POLLOUT) 0 0 5)
     \<and> live_fd (br_heap sv) 0 = None \<and> live_fd (br_heap sv) 1 = Some 5
     \<and> play race_os (caller_turns 2) sv {3, 5} = Some (Inr ([], sv', {3, 5}))
     \<and> br_caller sv' = C_Return (mkResult SUCCESS 2)"
  by (simp add: race_eval fresh_session_def live_fd_def insert_commute write_step_def open_listener
      SocketEventListener_wait_def wait_with_def sample_cfg_def read_mem_def socket_send_def
      recv_result_def createResult_def size_of_def i32_small Let_def)

end
