(* ===== verification/Connection_Progress.thy ===== *)
theory Connection_Progress
  imports Connection
begin

text \<open>
  A connection makes progress: with a peer that keeps sending and taking bytes, however few at
  a time, and a listener that reports what the connection is registered for, each request is
  read, handed to the application and answered within a number of events that depends only on
  the sizes of the buffers.
\<close>

subsection \<open>Driving a connection\<close>

text \<open>The event the server has the connection registered for, and a run of such events.\<close>

definition wanted :: "connection \<Rightarrow> conn_event" where
  "wanted c = (if conn_state c = WRITING_RESPONSE then Writable else Readable)"

fun drive :: "nat \<Rightarrow> 'w os \<Rightarrow> 'w handler \<Rightarrow> connection \<Rightarrow> 'w \<Rightarrow> (connection \<times> 'w) result" where
  "drive 0 os h c w = Inr (c, w)"
| "drive (Suc k) os h c w =
     bindR (connection_event os h (wanted c) c w) (\<lambda>(c, want, w). drive k os h c w)"

lemma drive_append:
  "drive (j + k) os h c w = bindR (drive j os h c w) (\<lambda>(c, w). drive k os h c w)"
  by (induction j arbitrary: c w) (simp_all add: bindR_assoc split_def)

text \<open>
  A peer that does not stall: a read finds a byte, in one world or in all, and a write takes
  one.
\<close>

definition readable :: "'w os \<Rightarrow> fd \<Rightarrow> 'w \<Rightarrow> bool" where
  "readable os f w \<longleftrightarrow> (\<forall>n. 0 < n \<longrightarrow> 1 \<le> fst (fst (os_recv os f n w)))"

definition writable :: "'w os \<Rightarrow> fd \<Rightarrow> bool" where
  "writable os f \<longleftrightarrow> (\<forall>buf w. int (min 1 (length buf)) \<le> fst (os_send os f buf w))"

definition peer_active :: "'w os \<Rightarrow> fd \<Rightarrow> bool" where
  "peer_active os f \<longleftrightarrow> (\<forall>w. readable os f w) \<and> writable os f"

text \<open>Between two requests.\<close>

definition conn_fresh :: "connection \<Rightarrow> bool" where
  "conn_fresh c \<longleftrightarrow> conn_state c = READING_HEADER \<and> conn_header_read c = 0"

definition reading :: "connection \<Rightarrow> bool" where
  "reading c \<longleftrightarrow> conn_state c = READING_HEADER \<or> conn_state c = READING_PAYLOAD"

subsection \<open>Reading\<close>

lemma read_active:
  assumes wire: "wire_ok os (bs_fd s) tr" and act: "readable os (bs_fd s) w"
    and n: "0 < n" "unat n < 2 ^ 31" and rd: "ServerActiveSocket_read os s n w = ((r, data), w')"
  shows "data \<noteq> [] \<and> 0 \<le> sr_bytes r \<and> tr_received tr w' = tr_received tr w @ data
    \<and> tr_sent tr w' = tr_sent tr w \<and> same_talk tr w w'"
proof -
  obtain k d w1 where raw: "os_recv os (bs_fd s) n w = ((k, d), w1)" by (metis prod.exhaust)
  have "1 \<le> k" using act n(1) raw unfolding readable_def by (metis fst_conv)
  moreover from wire [unfolded wire_ok_def, THEN conjunct1, THEN spec, of n, THEN spec, of w, THEN mp, OF n(2)] raw
  have "length d = nat k" by simp
  moreover have "data = d" using rd raw n(2) by (auto simp: ServerActiveSocket_read_def socket_recv_def as_len_small)
  ultimately have "data \<noteq> []" by auto
  with socket_read_wire [OF wire n(2) rd] show ?thesis by (cases "sr_bytes r < 0") auto
qed

text \<open>A request that is complete is handed over, and the connection answers it or starts anew.\<close>

definition handed_over :: "'w trace \<Rightarrow> 'w \<Rightarrow> connection \<times> SocketEventType option \<times> 'w \<Rightarrow> bool" where
  "handed_over tr w = (\<lambda>(c, want, w'). \<exists>x. tr_requests tr w' = tr_requests tr w @ [x]
     \<and> (conn_state c = WRITING_RESPONSE \<or> conn_fresh c))"

lemma runTask_hands_over:
  assumes h: "handler_ok h pdu payload_of tr" and "mode \<noteq> SLOW"
    and run: "runTask h mode n c w = Inr r"
  shows "handed_over tr w (after_read r)"
proof -
  have proc: "handed_over tr w (after_read r)" if "process h n c w = Inr r"
  proof -
    obtain out k w' where pr: "h_processed h (conn_header c) (conn_payload c) n w = ((out, k), w')"
      by (metis prod.exhaust)
    with that handler_processed [OF h pr] show ?thesis
      by (auto simp: process_def bindR_Inr_iff after_read_def handed_over_def)
  qed
  show ?thesis
  proof (cases mode)
    case WRITE_STREAM
    with run handler_processed_without [OF h refl, where hdr = "conn_header c" and p = "conn_payload c"
        and n = n and w = w] show ?thesis
      by (auto simp: after_read_def handed_over_def conn_fresh_def flush_def)
  qed (use assms proc in auto)
qed

text \<open>
  One event while a request is read: it is still being read, with at least one more byte, or
  it has been handed over.
\<close>

definition reads_on :: "'w trace \<Rightarrow> 'w \<Rightarrow> connection \<times> SocketEventType option \<times> 'w \<Rightarrow> bool" where
  "reads_on tr w = (\<lambda>(c, want, w'). reading c \<and> tr_requests tr w' = tr_requests tr w
     \<and> length (tr_received tr w) < length (tr_received tr w'))"

lemma handed_over_later:
  "handed_over tr w1 r \<Longrightarrow> same_talk tr w w1 \<Longrightarrow> handed_over tr w r"
  by (simp add: handed_over_def same_talk_def split: prod.splits)

lemma task_event:
  assumes "handler_ok h pdu payload_of tr" and "mode \<noteq> SLOW" and "same_talk tr w w1"
    and "bindR (runTask h mode n c w1) (\<lambda>r. Inr (after_read r)) = Inr ev"
  shows "handed_over tr w ev"
proof -
  obtain r where run: "runTask h mode n c w1 = Inr r" and "ev = after_read r"
    using assms(4) by (fastforce simp: bindR_Inr_iff)
  with handed_over_later [OF runTask_hands_over [OF assms(1,2) run] assms(3)] show ?thesis by simp
qed

lemma room:
  assumes "(off :: size_t) < n"
  shows "0 < n - off" and "unat (n - off) \<le> unat n"
  using assms by (simp_all add: word_less_nat_alt unat_sub_size order.strict_implies_order)

lemma header_event:
  assumes h: "handler_ok h pdu payload_of tr" and wire: "wire_ok os (bs_fd (conn_socket c)) tr"
    and act: "readable os (bs_fd (conn_socket c)) w" and inv: "conn_inv h pdu payload_of tr c w"
    and st: "conn_state c = READING_HEADER" and ev: "connection_read_event os h c w = Inr ev"
  shows "reads_on tr w ev \<or> handed_over tr w ev"
proof -
  let ?n = "of_nat (length (conn_header c)) :: size_t" and ?off = "conn_header_read c"
  have n: "?n = h_header_size h" and off: "?off < h_header_size h" using inv st by (simp_all add: conn_defs)
  have "unat (h_header_size h) < 2 ^ 31" using handler_sizes [OF h] by blast
  then have pos: "0 < ?n - ?off" "unat (?n - ?off) < 2 ^ 31" unfolding n using room [OF off] by simp_all
  obtain res data w1 where rd: "ServerActiveSocket_read os (conn_socket c) (?n - ?off) w = ((res, data), w1)"
    by (metis prod.exhaust)
  note more = read_active [OF wire act pos rd]
  let ?off' = "?off + size_of (sr_bytes res)"
  obtain hdr where hdr: "write_mem (conn_header c) ?off data = Inr hdr"
    using ev st rd by (auto simp: connection_read_event_def readHeader_def bindR_Inr_iff Let_def)
  show ?thesis
  proof (cases "?off' = ?n")
    case False
    with ev st rd hdr more show ?thesis
      by (auto simp: connection_read_event_def readHeader_def after_read_def reads_on_def reading_def
          same_talk_def Let_def)
  next
    case full: True
    obtain m w2 where ps: "h_payload_size h hdr w1 = (m, w2)" by fastforce
    obtain mode w3 where md: "h_mode h hdr w2 = (mode, w3)" by fastforce
    have w3: "mode \<noteq> SLOW" "same_wire tr w1 w3" "same_talk tr w w3"
      using handler_payload_size [OF h ps] handler_mode [OF h md] more
      by (auto intro: same_wire_trans same_talk_trans)
    let ?c = "c\<lparr>conn_header := hdr, conn_header_read := ?off', conn_payload_size := m, conn_mode := mode\<rparr>"
    have eq: "(if m = 0 then bindR (runTask h mode m ?c w3) (\<lambda>r. Inr (after_read r))
        else Inr (after_read (READING_PAYLOAD, ?c, w3))) = Inr ev"
      using ev st rd hdr full ps md more
      by (auto simp: connection_read_event_def readHeader_def Let_def split: if_splits)
    show ?thesis
    proof (cases "m = 0")
      case True
      with eq have "bindR (runTask h mode m ?c w3) (\<lambda>r. Inr (after_read r)) = Inr ev" by simp
      then show ?thesis by (rule disjI2 [OF task_event [OF h w3(1,3)]])
    next
      case False
      with eq w3 more show ?thesis
        by (auto simp: after_read_def reads_on_def reading_def same_talk_def same_wire_def)
    qed
  qed
qed

lemma payload_event:
  assumes h: "handler_ok h pdu payload_of tr" and wire: "wire_ok os (bs_fd (conn_socket c)) tr"
    and act: "readable os (bs_fd (conn_socket c)) w" and inv: "conn_inv h pdu payload_of tr c w"
    and st: "conn_state c = READING_PAYLOAD" and ev: "connection_read_event os h c w = Inr ev"
  shows "reads_on tr w ev \<or> handed_over tr w ev"
proof -
  let ?n = "conn_payload_size c" and ?off = "conn_payload_read c"
  have "conn_counters h pdu payload_of c" using inv by (simp add: conn_inv_def)
  then have n: "?n = payload_of (conn_header c)" and off: "?off < ?n" and mode: "conn_mode c \<noteq> SLOW"
    unfolding conn_counters_def st by auto
  have "unat ?n < 2 ^ 31"
    using handler_sizes [OF h, of "conn_header c"] unfolding n word_le_nat_alt by linarith
  then have pos: "0 < ?n - ?off" "unat (?n - ?off) < 2 ^ 31" using room [OF off] by simp_all
  obtain res data w1 where rd: "ServerActiveSocket_read os (conn_socket c) (?n - ?off) w = ((res, data), w1)"
    by (metis prod.exhaust)
  note more = read_active [OF wire act pos rd]
  let ?off' = "?off + size_of (sr_bytes res)"
  obtain buf where buf: "write_mem (conn_payload c) ?off data = Inr buf"
    using ev st rd by (auto simp: connection_read_event_def readPayload_def bindR_Inr_iff Let_def)
  show ?thesis
  proof (cases "?off' = ?n")
    case False
    with ev st rd buf more show ?thesis
      by (auto simp: connection_read_event_def readPayload_def after_read_def reads_on_def reading_def
          same_talk_def Let_def)
  next
    case True
    let ?c = "c\<lparr>conn_payload := buf, conn_payload_read := ?off'\<rparr>"
    have "bindR (runTask h (conn_mode c) ?n ?c w1) (\<lambda>r. Inr (after_read r)) = Inr ev"
      using ev st rd buf True more by (simp add: connection_read_event_def readPayload_def Let_def)
    with task_event [OF h mode] more show ?thesis by blast
  qed
qed

subsection \<open>Writing\<close>

text \<open>
  One event while a response is written: the response is shorter, or it is finished and the
  connection is between two requests.
\<close>

definition writes_on :: "'w trace \<Rightarrow> connection \<Rightarrow> 'w \<Rightarrow> connection \<times> SocketEventType option \<times> 'w \<Rightarrow> bool"
  where
  "writes_on tr c w = (\<lambda>(c', want, w'). same_talk tr w w'
     \<and> (conn_fresh c' \<or> conn_state c' = WRITING_RESPONSE \<and> length (unsent c') < length (unsent c)))"

lemma write_active:
  assumes wire: "wire_ok os (bs_fd s) tr" and act: "writable os (bs_fd s)"
    and n: "length buf < 2 ^ 31" and wr: "ServerActiveSocket_write os s buf w = (r, w')"
  shows "0 \<le> sr_bytes r \<and> nat (sr_bytes r) \<le> length buf \<and> (buf \<noteq> [] \<longrightarrow> 1 \<le> sr_bytes r)"
proof -
  obtain k w1 where raw: "os_send os (bs_fd s) buf w = (k, w1)" by fastforce
  have "int (min 1 (length buf)) \<le> k" using act raw unfolding writable_def by (metis fst_conv)
  moreover from wire [unfolded wire_ok_def, THEN conjunct2, THEN spec, of buf, THEN spec, of w, THEN mp, OF n] raw
  have "k \<le> int (length buf)" by simp
  moreover have "int (length buf) < 2 ^ 31" using n by (metis of_nat_less_iff of_nat_numeral of_nat_power)
  ultimately have "i32 k = k" "int (min 1 (length buf)) \<le> k" "k \<le> int (length buf)"
    by (auto intro!: i32_small)
  moreover have "sr_bytes r = i32 k" using wr raw by (auto simp: ServerActiveSocket_write_def socket_send_def)
  ultimately show ?thesis by (cases buf) auto
qed

lemma write_event:
  assumes h: "handler_ok h pdu payload_of tr" and wire: "wire_ok os (bs_fd (conn_socket c)) tr"
    and act: "writable os (bs_fd (conn_socket c))" and inv: "conn_inv h pdu payload_of tr c w"
    and st: "conn_state c = WRITING_RESPONSE" and ev: "connection_write_event os c w = Inr (c', want, w')"
  shows "writes_on tr c w (c', want, w')"
proof -
  let ?n = "conn_response_size c" and ?off = "conn_written c"
  have off: "?off \<le> ?n" and n: "unat ?n \<le> length (conn_output c)" "unat ?n < 2 ^ 31"
    using inv st handler_sizes [OF h, of "[]"] by (auto simp: conn_defs word_le_nat_alt)
  have len: "length (unsent c) = unat ?n - unat ?off" using n st by (simp add: unsent_def)
  have chunk: "read_mem (conn_output c) ?off (?n - ?off) = Inr (unsent c)"
    using off n st by (simp add: read_mem_def unsent_def unat_sub_size drop_take word_le_nat_alt)
  obtain r w1 where wr: "ServerActiveSocket_write os (conn_socket c) (unsent c) w = (r, w1)" by fastforce
  have small: "length (unsent c) < 2 ^ 31" using len n by linarith
  note put = socket_write_wire [OF wire small wr] and more = write_active [OF wire act small wr]
  have res: "w' = w1" "conn_fresh c' \<or> conn_state c' = WRITING_RESPONSE \<and> ?off + size_of (sr_bytes r) \<noteq> ?n"
    using ev st chunk wr more
    by (auto simp: connection_write_event_def writeResponse_def Let_def conn_fresh_def flush_def split: if_splits)
  have inv': "conn_inv h pdu payload_of tr c' w'"
    using write_event_inv [OF h assms(2) inv] ev by (simp add: event_keeps_def)
  show ?thesis
  proof (cases "unsent c = []")
    case True
    then have "?off = ?n" "sr_bytes r = 0" using len off more by (auto simp: word_le_nat_alt word_unat_eq_iff)
    with res put show ?thesis by (simp add: writes_on_def size_of_def)
  next
    case False
    have "length (tr_sent tr w' @ unsent c') = length (tr_sent tr w @ unsent c)"
      using inv inv' put res(1) by (simp add: conn_inv_def same_talk_def)
    moreover have "length (tr_sent tr w) < length (tr_sent tr w')"
      using put more False res(1) by simp
    ultimately have "length (unsent c') < length (unsent c)"
      by simp
    with res put show ?thesis by (auto simp: writes_on_def)
  qed
qed

subsection \<open>Rounds\<close>

definition live_talk ::
  "'w os \<Rightarrow> 'w handler \<Rightarrow> size_t \<Rightarrow> (byte list \<Rightarrow> size_t) \<Rightarrow> 'w trace \<Rightarrow> connection \<Rightarrow> 'w \<Rightarrow> bool"
  where
  "live_talk os h pdu payload_of tr c w \<longleftrightarrow> handler_ok h pdu payload_of tr
     \<and> wire_ok os (bs_fd (conn_socket c)) tr \<and> writable os (bs_fd (conn_socket c))
     \<and> conn_inv h pdu payload_of tr c w"

lemma live_event:
  assumes "live_talk os h pdu payload_of tr c w"
  shows "\<exists>c1 want w1. connection_event os h (wanted c) c w = Inr (c1, want, w1)
    \<and> live_talk os h pdu payload_of tr c1 w1
    \<and> conn_socket c1 = conn_socket c
    \<and> (reading c \<longrightarrow> readable os (bs_fd (conn_socket c)) w \<longrightarrow> reads_on tr w (c1, want, w1) \<or> handed_over tr w (c1, want, w1))
    \<and> (conn_state c = WRITING_RESPONSE \<longrightarrow> writes_on tr c w (c1, want, w1))"
proof -
  have h: "handler_ok h pdu payload_of tr" and wire: "wire_ok os (bs_fd (conn_socket c)) tr"
    and act: "writable os (bs_fd (conn_socket c))" and inv: "conn_inv h pdu payload_of tr c w"
    using assms by (simp_all add: live_talk_def)
  obtain c1 want w1 where ev: "connection_event os h (wanted c) c w = Inr (c1, want, w1)"
      "event_keeps h pdu payload_of tr c (c1, want, w1)"
    using connection_event_inv [OF h wire inv, of "wanted c"] by (metis prod.exhaust)
  have "live_talk os h pdu payload_of tr c1 w1"
    using ev(2) h wire act by (simp add: event_keeps_def live_talk_def)
  moreover have "reads_on tr w (c1, want, w1) \<or> handed_over tr w (c1, want, w1)"
    if "reading c" "readable os (bs_fd (conn_socket c)) w"
    using that(1) ev(1) header_event [OF h wire that(2) inv] payload_event [OF h wire that(2) inv]
    by (auto simp: reading_def wanted_def)
  moreover have "writes_on tr c w (c1, want, w1)" if "conn_state c = WRITING_RESPONSE"
    using that ev(1) write_event [OF h wire act inv] by (simp add: wanted_def)
  moreover have "conn_socket c1 = conn_socket c" using ev(2) by (simp add: event_keeps_def)
  ultimately show ?thesis using ev(1) by blast
qed

text \<open>
  A condition on the connection and the world that the events keep and under which, until so
  many requests have been handed over, a connection that reads finds something to read.
\<close>

definition fed ::
  "'w os \<Rightarrow> 'w handler \<Rightarrow> size_t \<Rightarrow> (byte list \<Rightarrow> size_t) \<Rightarrow> 'w trace \<Rightarrow> nat
   \<Rightarrow> (connection \<Rightarrow> 'w \<Rightarrow> bool) \<Rightarrow> bool" where
  "fed os h pdu payload_of tr m Q \<longleftrightarrow>
     (\<forall>c w c1 want w1. live_talk os h pdu payload_of tr c w \<longrightarrow> Q c w \<longrightarrow> conn_socket c1 = conn_socket c \<longrightarrow>
        connection_event os h (wanted c) c w = Inr (c1, want, w1) \<longrightarrow> Q c1 w1)
     \<and> (\<forall>c w. live_talk os h pdu payload_of tr c w \<longrightarrow> Q c w \<longrightarrow> reading c \<longrightarrow>
        length (tr_requests tr w) < m \<longrightarrow> readable os (bs_fd (conn_socket c)) w)"

lemma fed_event:
  assumes "fed os h pdu payload_of tr m Q" and "live_talk os h pdu payload_of tr c w" and "Q c w"
  obtains c1 want w1 where "connection_event os h (wanted c) c w = Inr (c1, want, w1)"
    "live_talk os h pdu payload_of tr c1 w1" "Q c1 w1"
    "reading c \<Longrightarrow> length (tr_requests tr w) < m \<Longrightarrow> reads_on tr w (c1, want, w1) \<or> handed_over tr w (c1, want, w1)"
    "conn_state c = WRITING_RESPONSE \<Longrightarrow> writes_on tr c w (c1, want, w1)"
  using live_event [OF assms(2)] assms unfolding fed_def by metis

text \<open>The rank of a phase: what is left to write, and what may still be read of a request.\<close>

lemma live_bounds:
  assumes "live_talk os h pdu payload_of tr c w"
  shows "length (unsent c) \<le> unat pdu"
    and "reading c \<Longrightarrow> length (pending c) < unat (h_header_size h) + unat pdu"
proof -
  have c: "conn_sizes h pdu c" "conn_counters h pdu payload_of c" and "payload_of (conn_header c) \<le> pdu"
    using assms handler_sizes [of h pdu payload_of tr] by (simp_all add: live_talk_def conn_inv_def)
  then show "length (unsent c) \<le> unat pdu"
    by (auto simp: conn_sizes_def unsent_def min_def split: ProcessState.splits)
  show "length (pending c) < unat (h_header_size h) + unat pdu" if "reading c"
    using that c \<open>payload_of (conn_header c) \<le> pdu\<close>
    by (auto simp: reading_def conn_sizes_def conn_counters_def pending_def word_less_nat_alt
        word_le_nat_alt min_def)
qed

lemma write_phase:
  assumes fed: "fed os h pdu payload_of tr m Q"
  shows "live_talk os h pdu payload_of tr c w \<Longrightarrow> Q c w \<Longrightarrow> conn_state c = WRITING_RESPONSE \<Longrightarrow>
   \<exists>k c' w'. k \<le> Suc (length (unsent c)) \<and> drive k os h c w = Inr (c', w')
     \<and> live_talk os h pdu payload_of tr c' w' \<and> Q c' w' \<and> conn_fresh c' \<and> tr_requests tr w' = tr_requests tr w"
proof (induction "length (unsent c)" arbitrary: c w rule: less_induct)
  case less
  obtain c1 want w1 where ev: "connection_event os h (wanted c) c w = Inr (c1, want, w1)"
      "live_talk os h pdu payload_of tr c1 w1" "writes_on tr c w (c1, want, w1)" "Q c1 w1"
    using fed_event [OF fed less.prems(1,2)] less.prems(3) by metis
  show ?case
  proof (cases "conn_fresh c1")
    case True
    with ev have "drive 1 os h c w = Inr (c1, w1)" "tr_requests tr w1 = tr_requests tr w"
      by (simp_all add: writes_on_def same_talk_def)
    with True ev(2,4) show ?thesis by (intro exI [of _ 1] exI [of _ c1] exI [of _ w1]) simp
  next
    case False
    with ev(3) have on: "conn_state c1 = WRITING_RESPONSE" "length (unsent c1) < length (unsent c)"
        "tr_requests tr w1 = tr_requests tr w"
      by (simp_all add: writes_on_def same_talk_def)
    with less.hyps [OF on(2) ev(2,4) on(1)] obtain k c' w' where "k \<le> Suc (length (unsent c1))"
        "drive k os h c1 w1 = Inr (c', w')" "live_talk os h pdu payload_of tr c' w'" "Q c' w'" "conn_fresh c'"
        "tr_requests tr w' = tr_requests tr w" by auto
    with ev(1) on(2) show ?thesis by (intro exI [of _ "Suc k"] exI [of _ c'] exI [of _ w']) simp
  qed
qed

lemma answer_phase:
  assumes "fed os h pdu payload_of tr m Q" and "live_talk os h pdu payload_of tr c w" and "Q c w"
    and "conn_state c = WRITING_RESPONSE \<or> conn_fresh c"
  shows "\<exists>k c' w'. k \<le> Suc (unat pdu) \<and> drive k os h c w = Inr (c', w')
    \<and> live_talk os h pdu payload_of tr c' w' \<and> Q c' w' \<and> conn_fresh c' \<and> tr_requests tr w' = tr_requests tr w"
  using assms(4)
proof
  assume "conn_state c = WRITING_RESPONSE"
  with write_phase [OF assms(1-3)] live_bounds(1) [OF assms(2)] show ?thesis
    by (meson Suc_le_mono order_trans)
next
  assume "conn_fresh c"
  with assms(2,3) show ?thesis by (intro exI [of _ 0] exI [of _ c] exI [of _ w]) simp
qed

lemma read_phase:
  assumes fed: "fed os h pdu payload_of tr m Q"
  shows "live_talk os h pdu payload_of tr c w \<Longrightarrow> Q c w \<Longrightarrow> reading c \<Longrightarrow> length (tr_requests tr w) < m \<Longrightarrow>
   \<exists>k c' w' x. k + length (pending c) \<le> unat (h_header_size h) + 2 * unat pdu + 1
     \<and> drive k os h c w = Inr (c', w') \<and> live_talk os h pdu payload_of tr c' w' \<and> Q c' w' \<and> conn_fresh c'
     \<and> tr_requests tr w' = tr_requests tr w @ [x]"
proof (induction "unat (h_header_size h) + unat pdu - length (pending c)" arbitrary: c w rule: less_induct)
  case less
  note room = live_bounds(2) [OF less.prems(1,3)]
  obtain c1 want w1 where ev: "connection_event os h (wanted c) c w = Inr (c1, want, w1)"
      "live_talk os h pdu payload_of tr c1 w1"
      "reads_on tr w (c1, want, w1) \<or> handed_over tr w (c1, want, w1)" "Q c1 w1"
    using fed_event [OF fed less.prems(1,2)] less.prems(3,4) by metis
  from ev(3) show ?case
  proof
    assume "reads_on tr w (c1, want, w1)"
    then have on: "reading c1" "tr_requests tr w1 = tr_requests tr w"
        "length (tr_received tr w) < length (tr_received tr w1)" by (simp_all add: reads_on_def)
    moreover have "tr_received tr w1 = frames (tr_requests tr w1) @ pending c1"
        "tr_received tr w = frames (tr_requests tr w) @ pending c"
      using ev(2) less.prems(1) by (simp_all add: live_talk_def conn_inv_def)
    ultimately have more: "length (pending c) < length (pending c1)" by simp
    with room have "unat (h_header_size h) + unat pdu - length (pending c1)
        < unat (h_header_size h) + unat pdu - length (pending c)" by linarith
    from less.hyps [OF this ev(2,4) on(1)] obtain k c' w' x where
        "k + length (pending c1) \<le> unat (h_header_size h) + 2 * unat pdu + 1"
        "drive k os h c1 w1 = Inr (c', w')" "live_talk os h pdu payload_of tr c' w'" "Q c' w'" "conn_fresh c'"
        "tr_requests tr w' = tr_requests tr w @ [x]" using on(2) less.prems(4) by auto
    with ev(1) more show ?thesis by (intro exI [of _ "Suc k"] exI [of _ c'] exI [of _ w'] exI [of _ x]) simp
  next
    assume "handed_over tr w (c1, want, w1)"
    then obtain x where x: "tr_requests tr w1 = tr_requests tr w @ [x]"
        "conn_state c1 = WRITING_RESPONSE \<or> conn_fresh c1" by (auto simp: handed_over_def)
    from answer_phase [OF fed ev(2,4) x(2)] obtain k c' w' where "k \<le> Suc (unat pdu)"
        "drive k os h c1 w1 = Inr (c', w')" "live_talk os h pdu payload_of tr c' w'" "Q c' w'" "conn_fresh c'"
        "tr_requests tr w' = tr_requests tr w @ [x]" using x(1) by auto
    with ev(1) room show ?thesis by (intro exI [of _ "Suc k"] exI [of _ c'] exI [of _ w'] exI [of _ x]) simp
  qed
qed

lemma rounds:
  assumes fed: "fed os h pdu payload_of tr m Q"
    and "live_talk os h pdu payload_of tr c w" and "Q c w" and "conn_fresh c"
    and "length (tr_requests tr w) + j = m"
  shows "\<exists>k c' w'. k \<le> j * (unat (h_header_size h) + 2 * unat pdu + 1) \<and> drive k os h c w = Inr (c', w')
    \<and> live_talk os h pdu payload_of tr c' w' \<and> Q c' w' \<and> conn_fresh c' \<and> length (tr_requests tr w') = m"
  using assms(2-)
proof (induction j arbitrary: c w)
  case 0
  then show ?case by (intro exI [of _ 0] exI [of _ c] exI [of _ w]) simp
next
  case (Suc j)
  then have "reading c" "length (tr_requests tr w) < m" by (simp_all add: reading_def conn_fresh_def)
  from read_phase [OF fed Suc.prems(1,2) this] obtain i c1 w1 x where
      one: "i \<le> unat (h_header_size h) + 2 * unat pdu + 1" "drive i os h c w = Inr (c1, w1)"
        "tr_requests tr w1 = tr_requests tr w @ [x]"
      and c1: "live_talk os h pdu payload_of tr c1 w1" "Q c1 w1" "conn_fresh c1" using add_leD1 by blast
  with Suc.prems(4) have "length (tr_requests tr w1) + j = m" by simp
  from Suc.IH [OF c1 this] obtain k c' w' where
      "k \<le> j * (unat (h_header_size h) + 2 * unat pdu + 1)" "drive k os h c1 w1 = Inr (c', w')"
      "live_talk os h pdu payload_of tr c' w'" "Q c' w'" "conn_fresh c'"
      "length (tr_requests tr w') = m" by blast
  with one show ?case
    by (intro exI [of _ "i + k"] exI [of _ c'] exI [of _ w']) (simp add: drive_append)
qed

subsection \<open>Properties\<close>

lemma peer_active_fed:
  "peer_active os f \<Longrightarrow> fed os h pdu payload_of tr m (\<lambda>c w. bs_fd (conn_socket c) = f)"
  by (auto simp: fed_def peer_active_def)

text \<open>
  C10. Requests are answered. With a peer that neither stalls nor closes, however few bytes it
  sends and takes at a time, and a handler within its contract, any number of requests is
  read, handed over and answered within so many events per request as the header has bytes,
  plus twice the buffer, plus one: after them the connection is between two requests, all
  that was received is the requests, and all replies are sent.
\<close>

theorem request_answered:
  assumes "handler_ok h pdu payload_of tr" and "wire_ok os (bs_fd s) tr" and "peer_active os (bs_fd s)"
    and "tr_received tr w = []" and "tr_sent tr w = []"
    and "tr_requests tr w = []" and "tr_replies tr w = []"
  shows "\<exists>k c w'. k \<le> m * (unat (h_header_size h) + 2 * unat pdu + 1)
    \<and> drive k os h (SocketConnection_new s h pdu) w = Inr (c, w')
    \<and> conn_fresh c \<and> length (tr_requests tr w') = m
    \<and> tr_received tr w' = frames (tr_requests tr w') \<and> tr_sent tr w' = concat (tr_replies tr w')"
proof -
  let ?c = "SocketConnection_new s h pdu"
  have "live_talk os h pdu payload_of tr ?c w"
    using assms(1-3) new_inv [OF assms(1,4-7)]
    by (simp add: live_talk_def SocketConnection_new_def peer_active_def)
  moreover have "conn_fresh ?c" "bs_fd (conn_socket ?c) = bs_fd s"
    by (simp_all add: conn_fresh_def SocketConnection_new_def)
  moreover have "length (tr_requests tr w) + m = m" using assms(6) by simp
  ultimately obtain k c w' where "k \<le> m * (unat (h_header_size h) + 2 * unat pdu + 1)"
      "drive k os h ?c w = Inr (c, w')" "conn_fresh c" "length (tr_requests tr w') = m"
      and inv: "live_talk os h pdu payload_of tr c w'"
    using rounds [OF peer_active_fed [OF assms(3)], where c = ?c and w = w and j = m and m = m
        and h = h and pdu = pdu and payload_of = payload_of and tr = tr] by blast
  moreover from inv \<open>conn_fresh c\<close>
  have "tr_received tr w' = frames (tr_requests tr w') \<and> tr_sent tr w' = concat (tr_replies tr w')"
    by (simp add: live_talk_def conn_inv_def conn_fresh_def pending_def unsent_def)
  ultimately show ?thesis by blast
qed

text \<open>A peer that sends the byte \<open>2\<close> for ever, one at a time.\<close>

definition endless_os :: "echo_world os" where
  "endless_os = echo_os\<lparr>
     os_recv := (\<lambda>s n w. let data = (if n = 0 then [] else [2])
        in ((int (length data), data), w\<lparr>ew_received := ew_received w @ data\<rparr>))\<rparr>"

lemma endless_ok: "wire_ok endless_os f echo_trace" "peer_active endless_os f"
proof -
  have "1 \<le> uint n" if "n \<noteq> 0" for n :: size_t using word_nonzero_uint [OF that] by simp
  then show "wire_ok endless_os f echo_trace"
    by (auto simp: wire_ok_def endless_os_def echo_os_def echo_trace_def same_talk_def Let_def)
  show "peer_active endless_os f" by (simp add: peer_active_def readable_def writable_def endless_os_def echo_os_def Let_def)
qed

theorem request_answered_witness:
  "\<exists>k c w'. k \<le> 30 \<and> drive k endless_os echo_handler (SocketConnection_new echo_socket echo_handler 4) echo_start
      = Inr (c, w')
    \<and> conn_fresh c \<and> length (ew_requests w') = 3 \<and> ew_sent w' = concat (ew_replies w')"
proof -
  have "\<exists>k c w'. k \<le> 3 * (unat (h_header_size echo_handler) + 2 * unat (4 :: size_t) + 1)
      \<and> drive k endless_os echo_handler (SocketConnection_new echo_socket echo_handler 4) echo_start = Inr (c, w')
      \<and> conn_fresh c \<and> length (tr_requests echo_trace w') = 3
      \<and> tr_received echo_trace w' = frames (tr_requests echo_trace w')
      \<and> tr_sent echo_trace w' = concat (tr_replies echo_trace w')"
    by (rule request_answered [OF echo_ok(1) endless_ok]) (simp_all add: echo_start_def echo_trace_def)
  then show ?thesis by (auto simp: echo_trace_def echo_handler_def)
qed

end
