(* ===== verification/Request_Streams.thy ===== *)
theory Request_Streams
  imports Request_Server
begin

text \<open>
  The byte streams of all connections of a request server at once. The environment is given a
  log that it never reads: what each descriptor received and sent since it was accepted, and
  which requests and replies belong to it. A handler is not told whose request it answers; the
  log credits it to the descriptor last read from. Erasing the log gives the server back.
\<close>

subsection \<open>The log\<close>

record talk =
  tk_received :: "byte list"
  tk_sent :: "byte list"
  tk_requests :: "(byte list \<times> byte list) list"
  tk_replies :: "byte list list"

record server_log =
  lg_turn :: fd
  lg_talks :: "fd \<Rightarrow> talk"

definition no_talk :: talk where
  "no_talk = \<lparr>tk_received = [], tk_sent = [], tk_requests = [], tk_replies = []\<rparr>"

definition log_start :: server_log where
  "log_start = \<lparr>lg_turn = - 1, lg_talks = (\<lambda>_. no_talk)\<rparr>"

definition log_talk :: "fd \<Rightarrow> (talk \<Rightarrow> talk) \<Rightarrow> server_log \<Rightarrow> server_log" where
  "log_talk f g l = l\<lparr>lg_talks := (lg_talks l)(f := g (lg_talks l f))\<rparr>"

lemma log_talk_simps [simp]:
  "lg_turn (log_talk f g l) = lg_turn l"
  "lg_talks (log_talk f g l) f' = (if f' = f then g (lg_talks l f) else lg_talks l f')"
  by (simp_all add: log_talk_def)

text \<open>A call of the environment that is not logged.\<close>

definition carry :: "('w \<Rightarrow> 'a \<times> 'w) \<Rightarrow> 'w \<times> 'l \<Rightarrow> 'a \<times> ('w \<times> 'l)" where
  "carry call x = (case call (fst x) of (a, w) \<Rightarrow> (a, (w, snd x)))"

lemma carry_simps [simp]:
  "fst (carry call x) = fst (call (fst x))" "fst (snd (carry call x)) = snd (call (fst x))"
  "snd (snd (carry call x)) = snd x"
  by (simp_all add: carry_def split: prod.splits)

definition logged_os :: "'w os \<Rightarrow> ('w \<times> server_log) os" where
  "logged_os os = \<lparr>
     os_errno = (\<lambda>x. os_errno os (fst x)),
     os_socket = (\<lambda>u. carry (os_socket os u)),
     os_getfl = (\<lambda>s x. os_getfl os s (fst x)),
     os_setfl = (\<lambda>s f. apfst (os_setfl os s f)),
     os_setsockopt = (\<lambda>s opt. apfst (os_setsockopt os s opt)),
     os_connect = (\<lambda>s a. carry (os_connect os s a)),
     os_bind = (\<lambda>s a. carry (os_bind os s a)),
     os_listen = (\<lambda>s. carry (os_listen os s)),
     os_accept = (\<lambda>s x. case os_accept os s (fst x) of ((r, a), w) \<Rightarrow>
        ((r, a), (w, if 0 \<le> r then log_talk r (\<lambda>_. no_talk) (snd x) else snd x))),
     os_shutdown = (\<lambda>s. apfst (os_shutdown os s)),
     os_close = (\<lambda>s. apfst (os_close os s)),
     os_send = (\<lambda>s buf x. case os_send os s buf (fst x) of (r, w) \<Rightarrow>
        (r, (w, log_talk s (\<lambda>t. t\<lparr>tk_sent := tk_sent t @ take (nat r) buf\<rparr>) (snd x)))),
     os_recv = (\<lambda>s n x. case os_recv os s n (fst x) of ((r, data), w) \<Rightarrow>
        ((r, data), (w, log_talk s (\<lambda>t. t\<lparr>tk_received := tk_received t @ data\<rparr>)
           ((snd x)\<lparr>lg_turn := s\<rparr>)))),
     os_peek = (\<lambda>s n. carry (os_peek os s n)),
     os_poll = (\<lambda>fds t. carry (os_poll os fds t)),
     os_so_error = (\<lambda>s. carry (os_so_error os s)),
     os_getaddrinfo = (\<lambda>ip port server. carry (os_getaddrinfo os ip port server)),
     os_sleep = (\<lambda>ms. apfst (os_sleep os ms))\<rparr>"

definition logged_handler :: "'w handler \<Rightarrow> ('w \<times> server_log) handler" where
  "logged_handler h = \<lparr>
     h_header_size = h_header_size h,
     h_payload_size = (\<lambda>hdr. carry (h_payload_size h hdr)),
     h_mode = (\<lambda>hdr. carry (h_mode h hdr)),
     h_connected = (\<lambda>ip port. apfst (h_connected h ip port)),
     h_disconnected = (\<lambda>ip port. apfst (h_disconnected h ip port)),
     h_processed = (\<lambda>hdr p n x. case h_processed h hdr p n (fst x) of ((out, k), w) \<Rightarrow>
        ((out, k), (w, log_talk (lg_turn (snd x)) (\<lambda>t. t\<lparr>
           tk_requests := tk_requests t @ [(hdr, take (unat n) p)],
           tk_replies := tk_replies t @ [out]\<rparr>) (snd x)))),
     h_processed_without_response = (\<lambda>hdr p n x.
        (h_processed_without_response h hdr p n (fst x),
         log_talk (lg_turn (snd x)) (\<lambda>t. t\<lparr>
           tk_requests := tk_requests t @ [(hdr, take (unat n) p)]\<rparr>) (snd x)))\<rparr>"

subsection \<open>Erasing the log\<close>

definition forget1 :: "('a \<times> 'w \<times> 'l) result \<Rightarrow> ('a \<times> 'w) result" where
  "forget1 = map_sum id (apsnd fst)"

definition forget2 :: "('a \<times> 'b \<times> 'w \<times> 'l) result \<Rightarrow> ('a \<times> 'b \<times> 'w) result" where
  "forget2 = map_sum id (apsnd (apsnd fst))"

definition forget3 :: "('a \<times> 'b \<times> 'c \<times> 'w \<times> 'l) result \<Rightarrow> ('a \<times> 'b \<times> 'c \<times> 'w) result" where
  "forget3 = map_sum id (apsnd (apsnd (apsnd fst)))"

lemmas forget_defs = forget1_def forget2_def forget3_def

lemma forget_simps [simp]:
  "forget1 (Inl e) = Inl e" "forget1 (Inr (a, x)) = Inr (a, fst x)"
  "forget2 (Inl e) = Inl e" "forget2 (Inr (a, b, x)) = Inr (a, b, fst x)"
  "forget3 (Inl e) = Inl e" "forget3 (Inr (a, b, c, x)) = Inr (a, b, c, fst x)"
  by (simp_all add: forget_defs)

lemma forget1_Inl [simp]: "forget1 m = Inl e \<longleftrightarrow> m = Inl e"
  by (cases m) (auto simp: forget_defs)

lemma forget1_Inr: "forget1 m = Inr (a, w) \<longleftrightarrow> (\<exists>l. m = Inr (a, (w, l)))"
  by (cases m) (auto simp: forget_defs)

text \<open>Two runs, one with the log: the same faults, the same results, the same world.\<close>

lemma forget_bind:
  assumes "\<And>a x. forget1 (k (a, x)) = k' (a, fst x)"
  shows "forget1 (bindR m k) = bindR (forget1 m) k'"
  using assms by (cases m) (auto simp: forget1_def split: prod.splits)

lemma forget_pure [simp]:
  "forget1 (bindR m (\<lambda>y. Inr (f y, x))) = bindR m (\<lambda>y. Inr (f y, fst x))"
  by (cases m) simp_all

lemma logged_read [simp]:
  "ServerActiveSocket_read (logged_os os) s n x =
     (case ServerActiveSocket_read os s n (fst x) of ((r, data), w) \<Rightarrow>
        ((r, data), (w, log_talk (bs_fd s) (\<lambda>t. t\<lparr>tk_received := tk_received t @ data\<rparr>)
           ((snd x)\<lparr>lg_turn := bs_fd s\<rparr>))))"
  by (simp add: ServerActiveSocket_read_def socket_recv_def logged_os_def split: prod.splits)

lemma logged_write:
  "\<exists>l. ServerActiveSocket_write (logged_os os) s buf x =
     (case ServerActiveSocket_write os s buf (fst x) of (r, w) \<Rightarrow> (r, (w, l)))"
  by (simp add: ServerActiveSocket_write_def socket_send_def logged_os_def split: prod.splits)

lemma process_forget:
  "forget2 (process (logged_handler h) n c x) = process h n c (fst x)"
  by (cases "write_mem (conn_output c) 0 (fst (fst (h_processed h (conn_header c) (conn_payload c) n (fst x))))")
    (auto simp: process_def logged_handler_def split: prod.splits)

lemma logged_handler_simps [simp]:
  "h_header_size (logged_handler h) = h_header_size h"
  "h_payload_size (logged_handler h) hdr = carry (h_payload_size h hdr)"
  "h_mode (logged_handler h) hdr = carry (h_mode h hdr)"
  "h_connected (logged_handler h) ip port = apfst (h_connected h ip port)"
  "h_disconnected (logged_handler h) ip port = apfst (h_disconnected h ip port)"
  by (simp_all add: logged_handler_def)

lemma runTask_forget:
  "forget2 (runTask (logged_handler h) m n c x) = runTask h m n c (fst x)"
  by (cases m) (simp_all add: process_forget, simp add: logged_handler_def)

lemma after_read_forget: "forget2 (bindR m (\<lambda>r. Inr (after_read r))) = bindR (forget2 m) (\<lambda>r. Inr (after_read r))"
  by (cases m) (auto simp: after_read_def Let_def)

lemma readHeader_forget:
  "forget2 (readHeader (logged_os os) (logged_handler h) c x) = readHeader os h c (fst x)"
proof -
  obtain r data w1 where rd: "ServerActiveSocket_read os (conn_socket c)
      (of_nat (length (conn_header c)) - conn_header_read c) (fst x) = ((r, data), w1)" by (metis prod.exhaust)
  show ?thesis
    by (cases "write_mem (conn_header c) (conn_header_read c) data")
      (simp_all add: readHeader_def rd runTask_forget carry_def Let_def split: prod.splits)
qed

lemma readPayload_forget:
  "forget2 (readPayload (logged_os os) (logged_handler h) c x) = readPayload os h c (fst x)"
proof -
  obtain r data w1 where rd: "ServerActiveSocket_read os (conn_socket c)
      (conn_payload_size c - conn_payload_read c) (fst x) = ((r, data), w1)" by (metis prod.exhaust)
  show ?thesis
    by (cases "write_mem (conn_payload c) (conn_payload_read c) data")
      (simp_all add: readPayload_def rd runTask_forget Let_def)
qed

lemma read_event_forget:
  "forget2 (connection_read_event (logged_os os) (logged_handler h) c x) = connection_read_event os h c (fst x)"
  by (cases "conn_state c")
    (simp_all add: connection_read_event_def after_read_forget readHeader_forget readPayload_forget)

lemma write_event_forget:
  "forget2 (connection_write_event (logged_os os) c x) = connection_write_event os c (fst x)"
proof (cases "conn_state c = WRITING_RESPONSE")
  case True
  show ?thesis
  proof (cases "read_mem (conn_output c) (conn_written c) (conn_response_size c - conn_written c)")
    case (Inl e)
    with True show ?thesis by (simp add: connection_write_event_def writeResponse_def)
  next
    case (Inr buf)
    obtain r w1 where wr: "ServerActiveSocket_write os (conn_socket c) buf (fst x) = (r, w1)" by fastforce
    from logged_write [of os "conn_socket c" buf x] wr obtain l where
        "ServerActiveSocket_write (logged_os os) (conn_socket c) buf x = (r, (w1, l))" by auto
    with wr True Inr show ?thesis by (simp add: connection_write_event_def writeResponse_def Let_def)
  qed
qed (simp add: connection_write_event_def split: ProcessState.splits)

lemma logged_accept:
  "PassiveSocket_accept (logged_os os) s x =
     (case os_accept os (bs_fd s) (fst x) of ((r, a), w) \<Rightarrow>
        (fst (ServerActiveSocket_new os (i32 r) a w), (snd (ServerActiveSocket_new os (i32 r) a w),
         if 0 \<le> r then log_talk r (\<lambda>_. no_talk) (snd x) else snd x)))"
  by (simp add: PassiveSocket_accept_def ServerActiveSocket_new_def setNonBlockingMode_def logged_os_def
      Let_def split: prod.splits)

lemma logged_disconnect:
  "disconnectClient (logged_os os) (logged_handler h) c x
   = (case disconnectClient os h c (fst x) of (c', w) \<Rightarrow> (c', (w, snd x)))"
  by (cases x) (simp add: disconnectClient_def ServerActiveSocket_close_def logged_os_def Let_def)

lemma accept_forget:
  "forget1 (handle_accept (logged_os os) (logged_handler h) cfg psock st x)
   = handle_accept os h cfg psock st (fst x)"
proof -
  obtain r a w1 where acc: "os_accept os (bs_fd psock) (fst x) = ((r, a), w1)" by (metis prod.exhaust)
  obtain sock w2 where new: "ServerActiveSocket_new os (i32 r) a w1 = (sock, w2)" by fastforce
  have plain: "PassiveSocket_accept os psock (fst x) = (sock, w2)"
    by (simp add: PassiveSocket_accept_def acc new)
  obtain l where logged: "PassiveSocket_accept (logged_os os) psock x = (sock, (w2, l))"
    by (simp add: logged_accept acc new)
  have same: "SocketConnection_new sock (logged_handler h) n = SocketConnection_new sock h n" for n
    by (simp add: SocketConnection_new_def)
  show ?thesis
    by (simp add: handle_accept_def plain logged same connectClient_def Let_def split: option.splits)
qed

lemma disconnected_forget:
  "forget1 (handle_disconnected (logged_os os) (logged_handler h) c st x)
   = handle_disconnected os h c st (fst x)"
  unfolding handle_disconnected_def
  by (cases "get_connection st c") (auto simp: logged_disconnect Let_def split: prod.splits)

lemma io_forget:
  assumes "\<And>c x. forget2 (step' c x) = step c (fst x)"
  shows "forget1 (handle_io step' c st x) = handle_io step c st (fst x)"
proof (cases "get_connection st c")
  case (Inr r)
  obtain s y where r: "r = (s, y)" by fastforce
  show ?thesis
  proof (cases "step' y x")
    case (Inl e)
    with assms [of y x, symmetric] \<open>get_connection st c = Inr r\<close> r show ?thesis by (simp add: handle_io_def)
  next
    case (Inr q)
    obtain z want v where q: "q = (z, want, v)" by (metis prod.exhaust)
    with Inr assms [of y x] have "step y (fst x) = Inr (z, want, fst v)" by simp
    with \<open>get_connection st c = Inr r\<close> r Inr q show ?thesis
      by (cases "register c want (set_connection s z st)") (simp_all add: handle_io_def)
  qed
qed (simp add: handle_io_def)

lemma event_forget:
  "forget1 (handle_event (logged_os os) (logged_handler h) cfg psock c st x)
   = handle_event os h cfg psock c st (fst x)"
proof (cases "heap_of st c")
  case (Some ec)
  then show ?thesis
    by (cases "ec_type ec")
      (simp_all add: handle_event_def accept_forget disconnected_forget
        io_forget [where step' = "connection_read_event (logged_os os) (logged_handler h)"
          and step = "connection_read_event os h", OF read_event_forget]
        io_forget [where step' = "connection_write_event (logged_os os)"
          and step = "connection_write_event os", OF write_event_forget])
qed (simp add: handle_event_def)

lemma dispatch_forget:
  "forget1 (dispatch (logged_os os) (logged_handler h) cfg psock cs st x)
   = dispatch os h cfg psock cs st (fst x)"
proof (induction cs arbitrary: st x)
  case (Cons c cs)
  show ?case by (simp add: event_forget [symmetric] Cons.IH forget_bind)
qed simp

lemma wait_forget:
  "forget3 (SocketMultiEventListener_wait (logged_os os) l t hp x)
   = SocketMultiEventListener_wait os l t hp (fst x)"
proof -
  obtain ret revs w where poll: "os_poll os (ml_handle l) t (fst x) = ((ret, revs), w)" by (metis prod.exhaust)
  then have "os_poll (logged_os os) (ml_handle l) t x = ((ret, revs), (w, snd x))"
    by (simp add: logged_os_def carry_def)
  with poll show ?thesis
    by (cases "collect_events (ml_server l) (ml_contexts l) (zip (ml_handle l) revs) hp")
      (auto simp: SocketMultiEventListener_wait_def wait_snapshot_def)
qed

lemma iteration_forget:
  "forget2 (run_iteration (logged_os os) (logged_handler h) cfg psock st x)
   = run_iteration os h cfg psock st (fst x)"
proof (cases "SocketMultiEventListener_wait (logged_os os) (rs_listener st) (cfg_read_timeout cfg) (heap_of st) x")
  case (Inl e)
  with wait_forget [of os "rs_listener st" "cfg_read_timeout cfg" "heap_of st" x, symmetric] show ?thesis
    by (simp add: run_iteration_def)
next
  case (Inr r)
  obtain res cs hp v where r: "r = (res, cs, hp, v)" by (metis prod.exhaust)
  with Inr wait_forget [of os "rs_listener st" "cfg_read_timeout cfg" "heap_of st" x]
  have "SocketMultiEventListener_wait os (rs_listener st) (cfg_read_timeout cfg) (heap_of st) (fst x)
      = Inr (res, cs, hp, fst v)" by simp
  with Inr r show ?thesis
    by (cases "dispatch (logged_os os) (logged_handler h) cfg psock cs (store_heap hp st) v")
      (auto simp: run_iteration_def dispatch_forget [of os h cfg psock cs "store_heap hp st" v, symmetric]
        Let_def)
qed

lemma loop_forget:
  "forget1 (run_loop n (logged_os os) (logged_handler h) cfg psock st x)
   = run_loop n os h cfg psock st (fst x)"
proof (induction n arbitrary: st x)
  case (Suc n)
  show ?case
    by (cases "run_iteration (logged_os os) (logged_handler h) cfg psock st x")
      (auto simp: Suc.IH iteration_forget [of os h cfg psock st x, symmetric])
qed simp

lemma run_forget:
  "forget1 (run n (logged_os os) (logged_handler h) cfg psock pool x) = run n os h cfg psock pool (fst x)"
  by (cases "run_start psock pool") (simp_all add: run_def loop_forget)

subsection \<open>One connection\<close>

text \<open>
  What is asked of the kernel and of the application: counts that are counts, and a handler
  whose payload sizes and replies fit the buffers of \<open>pdu\<close> bytes, as in \<^term>\<open>handler_ok\<close>.
\<close>

definition counts_ok :: "'w os \<Rightarrow> bool" where
  "counts_ok os \<longleftrightarrow>
     (\<forall>s n w. case fst (os_recv os s n w) of (r, data) \<Rightarrow>
        - 1 \<le> r \<and> r \<le> int (unat n) \<and> length data = nat r)
     \<and> (\<forall>s buf w. - 1 \<le> fst (os_send os s buf w) \<and> fst (os_send os s buf w) \<le> int (length buf))"

definition handler_fits :: "'w handler \<Rightarrow> size_t \<Rightarrow> (byte list \<Rightarrow> size_t) \<Rightarrow> bool" where
  "handler_fits h pdu payload_of \<longleftrightarrow>
     0 < h_header_size h \<and> unat (h_header_size h) < 2 ^ 31 \<and> unat pdu < 2 ^ 31
     \<and> (\<forall>hdr. payload_of hdr \<le> pdu)
     \<and> (\<forall>hdr w. fst (h_payload_size h hdr w) = payload_of hdr)
     \<and> (\<forall>hdr w. fst (h_mode h hdr w) \<noteq> SLOW)
     \<and> (\<forall>hdr p n w. case fst (h_processed h hdr p n w) of (out, k) \<Rightarrow> unat k = length out \<and> k \<le> pdu)"

definition talk_trace :: "fd \<Rightarrow> ('w \<times> server_log) trace" where
  "talk_trace f = \<lparr>tr_received = (\<lambda>x. tk_received (lg_talks (snd x) f)),
                   tr_sent = (\<lambda>x. tk_sent (lg_talks (snd x) f)),
                   tr_requests = (\<lambda>x. tk_requests (lg_talks (snd x) f)),
                   tr_replies = (\<lambda>x. tk_replies (lg_talks (snd x) f))\<rparr>"

text \<open>A handler that answers for one descriptor, whoever was read from last.\<close>

definition my_turn :: "fd \<Rightarrow> 'w \<times> server_log \<Rightarrow> 'w \<times> server_log" where
  "my_turn f = apsnd (\<lambda>l. l\<lparr>lg_turn := f\<rparr>)"

definition answering :: "fd \<Rightarrow> ('w \<times> server_log) handler \<Rightarrow> ('w \<times> server_log) handler" where
  "answering f h = h\<lparr>
     h_processed := (\<lambda>hdr p n x. h_processed h hdr p n (my_turn f x)),
     h_processed_without_response := (\<lambda>hdr p n x. h_processed_without_response h hdr p n (my_turn f x))\<rparr>"

lemma answering_simps [simp]:
  "h_header_size (answering f h) = h_header_size h"
  "h_payload_size (answering f h) = h_payload_size h"
  "h_mode (answering f h) = h_mode h"
  by (simp_all add: answering_def)

lemma counts_okD:
  assumes "counts_ok os"
  shows "os_recv os s n w = ((r, data), w') \<Longrightarrow> - 1 \<le> r \<and> r \<le> int (unat n) \<and> length data = nat r"
    and "os_send os s buf w = (k, w') \<Longrightarrow> - 1 \<le> k \<and> k \<le> int (length buf)"
  using assms unfolding counts_ok_def by (metis (mono_tags, lifting) case_prod_conv fst_conv)+

lemma logged_wire:
  assumes "counts_ok os"
  shows "wire_ok (logged_os os) f (talk_trace f)"
  using counts_okD [OF assms]
  by (auto simp: wire_ok_def logged_os_def talk_trace_def same_talk_def split: prod.splits)

lemma answering_ok:
  "handler_fits h pdu payload_of \<Longrightarrow>
   handler_ok (answering f (logged_handler h)) pdu payload_of (talk_trace f)"
  by (auto simp: handler_fits_def handler_ok_def answering_def logged_handler_def talk_trace_def
      my_turn_def same_talk_def same_wire_def Let_def case_prod_beta)

lemma my_turn_same: "lg_turn (snd x) = f \<Longrightarrow> my_turn f x = x"
proof -
  obtain w l where "x = (w, l)" by fastforce
  then show "lg_turn (snd x) = f \<Longrightarrow> my_turn f x = x" by (cases l) (simp add: my_turn_def)
qed

lemma runTask_turn:
  "lg_turn (snd x) = f \<Longrightarrow> runTask (answering f h) m n c x = runTask h m n c x"
  by (cases m) (simp_all add: process_def answering_def my_turn_same)

lemma read_event_turn:
  "connection_read_event (logged_os os) (answering (bs_fd (conn_socket c)) (logged_handler h)) c x
   = connection_read_event (logged_os os) (logged_handler h) c x"
proof (cases "conn_state c")
  case READING_HEADER
  obtain r data w1 where rd: "ServerActiveSocket_read os (conn_socket c)
      (of_nat (length (conn_header c)) - conn_header_read c) (fst x) = ((r, data), w1)" by (metis prod.exhaust)
  show ?thesis
    by (cases "write_mem (conn_header c) (conn_header_read c) data")
      (auto simp: connection_read_event_def READING_HEADER readHeader_def rd runTask_turn carry_def Let_def
        split: prod.splits)
next
  case READING_PAYLOAD
  obtain r data w1 where rd: "ServerActiveSocket_read os (conn_socket c)
      (conn_payload_size c - conn_payload_read c) (fst x) = ((r, data), w1)" by (metis prod.exhaust)
  show ?thesis
    by (cases "write_mem (conn_payload c) (conn_payload_read c) data")
      (simp_all add: connection_read_event_def READING_PAYLOAD readPayload_def rd runTask_turn Let_def)
qed (simp_all add: connection_read_event_def)

text \<open>An event of one connection leaves the talks of the other descriptors alone.\<close>

definition others_same :: "fd \<Rightarrow> 'w \<times> server_log \<Rightarrow> 'w \<times> server_log \<Rightarrow> bool" where
  "others_same f x y \<longleftrightarrow> (\<forall>g. g \<noteq> f \<longrightarrow> lg_talks (snd y) g = lg_talks (snd x) g)"

lemma runTask_others:
  "lg_turn (snd x) = f \<Longrightarrow> runTask (logged_handler h) m n c x = Inr r \<Longrightarrow> others_same f x (snd (snd r))"
  by (cases m) (auto simp: process_def logged_handler_def others_same_def bindR_Inr_iff split: prod.splits)

lemma others_same_trans: "others_same f x y \<Longrightarrow> others_same f y z \<Longrightarrow> others_same f x z"
  by (simp add: others_same_def)

lemma after_read_world [simp]: "snd (snd (after_read r)) = snd (snd r)"
  by (simp add: after_read_def Let_def split: prod.splits)

lemma after_read_others:
  assumes "others_same f x y" and "lg_turn (snd y) = f"
    and "bindR (runTask (logged_handler h) m n c y) (\<lambda>r. Inr (after_read r)) = Inr ev"
  shows "others_same f x (snd (snd ev))"
proof -
  obtain r where r: "runTask (logged_handler h) m n c y = Inr r" and ev: "ev = after_read r"
    using assms(3) by (auto simp only: bindR_Inr_iff sum.inject)
  from others_same_trans [OF assms(1) runTask_others [OF assms(2) r]] ev show ?thesis by simp
qed

lemma read_event_others:
  assumes "connection_read_event (logged_os os) (logged_handler h) c x = Inr ev"
  shows "others_same (bs_fd (conn_socket c)) x (snd (snd ev))"
proof (cases "conn_state c")
  case READING_HEADER
  obtain r data w1 where rd: "ServerActiveSocket_read os (conn_socket c)
      (of_nat (length (conn_header c)) - conn_header_read c) (fst x) = ((r, data), w1)" by (metis prod.exhaust)
  let ?y = "\<lambda>v. (v, log_talk (bs_fd (conn_socket c)) (\<lambda>t. t\<lparr>tk_received := tk_received t @ data\<rparr>)
      ((snd x)\<lparr>lg_turn := bs_fd (conn_socket c)\<rparr>))"
  have y: "others_same (bs_fd (conn_socket c)) x (?y v)" for v by (simp add: others_same_def)
  show ?thesis
  proof (cases "write_mem (conn_header c) (conn_header_read c) data")
    case (Inr hdr)
    with assms READING_HEADER rd y show ?thesis
      by (auto simp: connection_read_event_def readHeader_def carry_def Let_def
          intro: after_read_others [OF y] split: prod.splits if_splits)
  qed (use assms READING_HEADER rd in \<open>simp add: connection_read_event_def readHeader_def\<close>)
next
  case READING_PAYLOAD
  obtain r data w1 where rd: "ServerActiveSocket_read os (conn_socket c)
      (conn_payload_size c - conn_payload_read c) (fst x) = ((r, data), w1)" by (metis prod.exhaust)
  let ?y = "(w1, log_talk (bs_fd (conn_socket c)) (\<lambda>t. t\<lparr>tk_received := tk_received t @ data\<rparr>)
      ((snd x)\<lparr>lg_turn := bs_fd (conn_socket c)\<rparr>))"
  have y: "others_same (bs_fd (conn_socket c)) x ?y" by (simp add: others_same_def)
  show ?thesis
  proof (cases "write_mem (conn_payload c) (conn_payload_read c) data")
    case (Inr hdr)
    with assms READING_PAYLOAD rd y show ?thesis
      by (auto simp: connection_read_event_def readPayload_def Let_def
          intro: after_read_others split: if_splits)
  qed (use assms READING_PAYLOAD rd in \<open>simp add: connection_read_event_def readPayload_def\<close>)
qed (use assms in \<open>auto simp: connection_read_event_def others_same_def\<close>)

lemma write_event_others:
  assumes "connection_write_event (logged_os os) c x = Inr ev"
  shows "others_same (bs_fd (conn_socket c)) x (snd (snd ev))"
proof (cases "conn_state c = WRITING_RESPONSE")
  case True
  show ?thesis
  proof (cases "read_mem (conn_output c) (conn_written c) (conn_response_size c - conn_written c)")
    case (Inr buf)
    have "others_same (bs_fd (conn_socket c)) x (snd (ServerActiveSocket_write (logged_os os) (conn_socket c) buf x))"
      by (simp add: ServerActiveSocket_write_def socket_send_def logged_os_def others_same_def split: prod.splits)
    with True Inr assms show ?thesis
      by (auto simp: connection_write_event_def writeResponse_def Let_def split: prod.splits if_splits)
  qed (use True assms in \<open>simp add: connection_write_event_def writeResponse_def\<close>)
qed (use assms in \<open>auto simp: connection_write_event_def others_same_def split: ProcessState.splits\<close>)

subsection \<open>The streams of a server\<close>

definition talk_ok ::
  "'w handler \<Rightarrow> size_t \<Rightarrow> (byte list \<Rightarrow> size_t) \<Rightarrow> 'w \<times> server_log \<Rightarrow> connection \<Rightarrow> bool" where
  "talk_ok h pdu payload_of x c \<longleftrightarrow>
     conn_inv (logged_handler h) pdu payload_of (talk_trace (bs_fd (conn_socket c))) c x"

definition streams_ok ::
  "'w handler \<Rightarrow> size_t \<Rightarrow> (byte list \<Rightarrow> size_t) \<Rightarrow> run_state \<Rightarrow> 'w \<times> server_log \<Rightarrow> bool" where
  "streams_ok h pdu payload_of st x \<longleftrightarrow>
     (\<forall>s c. pool_objects (rs_pool st) s = Some c \<longrightarrow> talk_ok h pdu payload_of x c)"

text \<open>A connection does not see what happens on other descriptors, nor to its own context.\<close>

lemma talk_ok_same:
  assumes "talk_ok h pdu payload_of x c" and "lg_talks (snd y) (bs_fd (conn_socket c)) = lg_talks (snd x) (bs_fd (conn_socket c))"
  shows "talk_ok h pdu payload_of y (c\<lparr>conn_ctx := e\<rparr>)" and "talk_ok h pdu payload_of y c"
  using assms by (auto simp: talk_ok_def conn_defs talk_trace_def split: ProcessState.splits)

lemma answering_inv: "conn_inv (answering f h) = conn_inv h"
  by (intro ext) (simp add: conn_inv_def conn_sizes_def conn_counters_def requests_ok_def cong: ProcessState.case_cong)

text \<open>An event of a connection keeps its talk in order and does not fault.\<close>

lemma talk_event:
  assumes "counts_ok os" and "handler_fits h pdu payload_of" and "talk_ok h pdu payload_of x c"
  shows "\<exists>r. connection_read_event (logged_os os) (logged_handler h) c x = Inr r
      \<and> talk_ok h pdu payload_of (snd (snd r)) (fst r) \<and> conn_socket (fst r) = conn_socket c"
    and "\<exists>r. connection_write_event (logged_os os) c x = Inr r
      \<and> talk_ok h pdu payload_of (snd (snd r)) (fst r) \<and> conn_socket (fst r) = conn_socket c"
proof -
  let ?f = "bs_fd (conn_socket c)"
  note ok = answering_ok [OF assms(2), of ?f] logged_wire [OF assms(1), of ?f]
  have inv: "conn_inv (answering ?f (logged_handler h)) pdu payload_of (talk_trace ?f) c x"
    using assms(3) by (simp add: talk_ok_def answering_inv)
  from read_event_inv [OF ok inv] read_event_turn [of os c h x]
  show "\<exists>r. connection_read_event (logged_os os) (logged_handler h) c x = Inr r
      \<and> talk_ok h pdu payload_of (snd (snd r)) (fst r) \<and> conn_socket (fst r) = conn_socket c"
    by (auto simp: event_keeps_def talk_ok_def answering_inv)
  from write_event_inv [OF ok inv]
  show "\<exists>r. connection_write_event (logged_os os) c x = Inr r
      \<and> talk_ok h pdu payload_of (snd (snd r)) (fst r) \<and> conn_socket (fst r) = conn_socket c"
    by (auto simp: event_keeps_def talk_ok_def answering_inv)
qed

text \<open>The descriptor of a watched connection is nobody else's; those of all connections are open.\<close>

lemma fds_apart:
  assumes wf: "server_wf L psock opened clients st w" and "s \<notin> dom L" and "t \<noteq> s"
    and x: "pool_objects (rs_pool st) s = Some x" and y: "pool_objects (rs_pool st) t = Some y"
  shows "bs_fd (conn_socket y) \<noteq> bs_fd (conn_socket x)"
proof -
  let ?l = "rs_listener st"
  have lw: "listener_wf (heap_of st) ?l" and keep: "leftovers_kept L opened st w"
    and fd: "ec_fd (conn_ctx x) = bs_fd (conn_socket x)" "ec_fd (conn_ctx y) = bs_fd (conn_socket y)"
    using wf x y by (auto simp: server_wf_def)
  have ctx: "set (ml_contexts ?l) = live_ctx L st" using contexts_live [OF lw] wf by (simp add: server_wf_def)
  have s: "Conn s \<in> set (ml_contexts ?l)" using ctx x assms(2) by (auto simp: live_ctx_def)
  show ?thesis
  proof (cases "t \<in> dom L")
    case True
    then have "L t = Some (bs_fd (conn_socket y))" using keep y by (auto simp: leftovers_kept_def map_le_def pool_fds_def)
    then have "bs_fd (conn_socket y) \<notin> fst ` set (ml_handle ?l)" using keep ranI [of L t] by (auto simp: leftovers_kept_def)
    moreover have "bs_fd (conn_socket x) \<in> fst ` set (ml_handle ?l)" using listener_wf_fd [OF lw s] x fd(1) by simp
    ultimately show ?thesis by metis
  next
    case False
    then have "Conn t \<in> set (ml_contexts ?l)" using ctx y by (auto simp: live_ctx_def)
    from listener_wf_inj [OF lw this s] x y fd assms(3) show ?thesis by auto
  qed
qed

lemma fds_open:
  assumes "server_wf L psock opened clients st w" and "pool_objects (rs_pool st) s = Some x"
  shows "bs_fd (conn_socket x) \<in> opened w"
  using server_wf_ready(1) [OF assms(1)] assms(2) by (fastforce simp: pool_ready_def pool_fds_def ran_def)

lemma streams_others:
  assumes "streams_ok h pdu payload_of st x" and "others_same f x y"
    and "\<And>s c. pool_objects (rs_pool st') s = Some c \<Longrightarrow>
      talk_ok h pdu payload_of y c
      \<or> (\<exists>d e. pool_objects (rs_pool st) s = Some d \<and> c = d\<lparr>conn_ctx := e\<rparr> \<and> bs_fd (conn_socket d) \<noteq> f)"
  shows "streams_ok h pdu payload_of st' y"
  unfolding streams_ok_def
proof (intro allI impI)
  fix s c
  assume "pool_objects (rs_pool st') s = Some c"
  from assms(3) [OF this] show "talk_ok h pdu payload_of y c"
    using assms(1,2) by (auto simp: streams_ok_def others_same_def intro: talk_ok_same(1))
qed

lemma io_streams:
  assumes wf: "server_wf L psock opened clients st x" and streams: "streams_ok h pdu payload_of st x"
    and c: "c \<in> live_ctx L st"
    and step: "\<And>c x. talk_ok h pdu payload_of x c \<Longrightarrow> \<exists>r. step c x = Inr r
      \<and> talk_ok h pdu payload_of (snd (snd r)) (fst r) \<and> conn_socket (fst r) = conn_socket c"
    and others: "\<And>c x ev. step c x = Inr ev \<Longrightarrow> others_same (bs_fd (conn_socket c)) x (snd (snd ev))"
    and out: "handle_io step c st x = Inr (st', x')"
  shows "streams_ok h pdu payload_of st' x'"
proof -
  obtain s d where s: "c = Conn s" "pool_objects (rs_pool st) s = Some d" "s \<notin> dom L"
    using c out by (auto simp: live_ctx_def handle_io_def get_connection_def)
  then have "talk_ok h pdu payload_of x d" using streams by (simp add: streams_ok_def)
  then obtain y want v where y: "step d x = Inr (y, want, v)" "talk_ok h pdu payload_of v y"
    using step [of x d] by (metis prod.collapse fst_conv snd_conv)
  have "v = x'" and pool: "rs_pool st' = pool_update s y (rs_pool st)"
    using out s y(1) by (auto simp: handle_io_def get_connection_def register_def set_connection_def bindR_Inr_iff
        split: option.splits)
  show ?thesis
  proof (rule streams_others [OF streams])
    show "others_same (bs_fd (conn_socket d)) x x'" using others [OF y(1)] \<open>v = x'\<close> by simp
    fix t e
    assume t: "pool_objects (rs_pool st') t = Some e"
    show "talk_ok h pdu payload_of x' e \<or> (\<exists>d' e'. pool_objects (rs_pool st) t = Some d'
        \<and> e = d'\<lparr>conn_ctx := e'\<rparr> \<and> bs_fd (conn_socket d') \<noteq> bs_fd (conn_socket d))"
    proof (cases "t = s")
      case True
      with t pool y(2) \<open>v = x'\<close> show ?thesis by (simp add: pool_update_def)
    next
      case False
      then have "pool_objects (rs_pool st) t = Some e" using t pool by (simp add: pool_update_def)
      with fds_apart [OF wf s(3) False s(2) this] show ?thesis by (metis connection.surjective connection.update_convs(1))
    qed
  qed
qed

text \<open>The events that do not fault out of bounds: all of them, with such a handler.\<close>

lemma io_in_bounds:
  assumes "streams_ok h pdu payload_of st x"
    and step: "\<And>c x. talk_ok h pdu payload_of x c \<Longrightarrow> \<exists>r. step c x = Inr r"
    and c: "c \<in> live_ctx L st"
  shows "handle_io step c st x \<noteq> Inl OutOfBounds"
proof
  assume bad: "handle_io step c st x = Inl OutOfBounds"
  then obtain s d where s: "c = Conn s" "pool_objects (rs_pool st) s = Some d"
    using c by (auto simp: live_ctx_def handle_io_def get_connection_def)
  then obtain r where r: "step d x = Inr r" using assms(1) step by (meson streams_ok_def)
  obtain y want v where v: "r = (y, want, v)" by (metis prod.exhaust)
  then have "register c want (set_connection s y st) = Inl OutOfBounds"
    using bad s r by (simp add: handle_io_def get_connection_def bindR_Inl_iff)
  then show False
    by (auto simp: register_def bindR_Inl_iff modifyEvent_def addEvent_def removeEvent_def
        split: option.splits)
qed

lemma logged_env:
  "server_os os opened clients \<Longrightarrow> server_os (logged_os os) (opened \<circ> fst) (clients \<circ> fst)"
  "server_handler h opened clients \<Longrightarrow> server_handler (logged_handler h) (opened \<circ> fst) (clients \<circ> fst)"
proof -
  assume os: "server_os os opened clients"
  show "server_os (logged_os os) (opened \<circ> fst) (clients \<circ> fst)"
    unfolding server_os_def
  proof (intro conjI)
    show "\<forall>s x r a y. os_accept (logged_os os) s x = ((r, a), y) \<longrightarrow>
        - 1 \<le> r \<and> r < 2 ^ 31 \<and> (clients \<circ> fst) y = (clients \<circ> fst) x
        \<and> (if 0 \<le> r then r \<notin> (opened \<circ> fst) x \<and> (opened \<circ> fst) y = insert r ((opened \<circ> fst) x)
           else (opened \<circ> fst) y = (opened \<circ> fst) x)" (is "\<forall>s x r a y. _ \<longrightarrow> ?A x r y")
    proof (intro allI impI)
      fix s x r a y
      assume "os_accept (logged_os os) s x = ((r, a), y)"
      then have "os_accept os s (fst x) = ((r, a), fst y)"
        by (auto simp: logged_os_def split: prod.splits)
      with os show "?A x r y" unfolding server_os_def comp_def by blast
    qed
  qed (use os in \<open>auto simp: server_os_def poll_ok_def same_env_def logged_os_def case_prod_beta\<close>)
next
  assume "server_handler h opened clients"
  then show "server_handler (logged_handler h) (opened \<circ> fst) (clients \<circ> fst)"
    by (auto simp: server_handler_def same_env_def logged_handler_def case_prod_beta)
qed

lemma accept_streams:
  assumes os: "server_os os opened clients" and fits: "handler_fits h (cfg_pdu_size cfg) payload_of"
    and wf: "server_wf L psock (opened \<circ> fst) clients' st x"
    and streams: "streams_ok h (cfg_pdu_size cfg) payload_of st x"
    and out: "handle_accept (logged_os os) (logged_handler h) cfg psock st x = Inr (st', x')"
  shows "streams_ok h (cfg_pdu_size cfg) payload_of st' x'"
proof -
  obtain r a w1 where acc: "os_accept os (bs_fd psock) (fst x) = ((r, a), w1)" by (metis prod.exhaust)
  from os acc have r: "- 1 \<le> r" "r < 2 ^ 31" "0 \<le> r \<Longrightarrow> r \<notin> opened (fst x)"
    unfolding server_os_def by metis+
  have i32r: "i32 r = r" using r(1,2) by (intro i32_small) simp_all
  obtain sock w2 where new: "ServerActiveSocket_new os r a w1 = (sock, w2)" by fastforce
  have fd: "bs_fd sock = r" and ok: "sr_code (bs_result sock) = SUCCESS \<longleftrightarrow> 0 < r"
    using new by (auto simp: ServerActiveSocket_new_def Let_def result_simps split: if_splits)
  let ?l = "if 0 \<le> r then log_talk r (\<lambda>_. no_talk) (snd x) else snd x"
    and ?c = "SocketConnection_new sock (logged_handler h) (cfg_pdu_size cfg)"
  have logged: "PassiveSocket_accept (logged_os os) psock x = (sock, (w2, ?l))"
    by (simp add: logged_accept acc i32r new)
  have same: "lg_talks ?l (bs_fd (conn_socket d)) = lg_talks (snd x) (bs_fd (conn_socket d))"
    if "pool_objects (rs_pool st) s = Some d" for s d
    using fds_open [OF wf that] r(3) by auto
  have old: "talk_ok h (cfg_pdu_size cfg) payload_of (v, ?l) d"
    if "pool_objects (rs_pool st) s = Some d" for s d v
  proof -
    have "talk_ok h (cfg_pdu_size cfg) payload_of x d" using streams that unfolding streams_ok_def by blast
    from talk_ok_same(2) [OF this, of "(v, ?l)"] same [OF that] show ?thesis by (simp only: snd_conv)
  qed
  show ?thesis
  proof (cases "0 < r")
    case False
    with out ok logged have "st' = st" "x' = (w2, ?l)" by (simp_all add: handle_accept_def)
    with old show ?thesis by (simp add: streams_ok_def)
  next
    case True
    with out ok logged obtain s pool where acq: "pool_acquire ?c (rs_pool st) = Some (s, pool)"
        and st': "rs_pool st' = pool" "snd x' = ?l"
      by (auto simp: handle_accept_def connectClient_def bindR_Inr_iff Let_def split: option.splits)
    have "pool_wf (rs_pool st)" using wf by (simp add: server_wf_def)
    from op.acquire_law [OF this acq] have pool: "pool_objects pool = (pool_objects (rs_pool st))(s \<mapsto> ?c)"
      by simp
    have "conn_inv (answering r (logged_handler h)) (cfg_pdu_size cfg) payload_of (talk_trace r) ?c x'"
      using new_inv [OF answering_ok [OF fits, of r], of x' sock] True st'(2)
      by (simp add: talk_trace_def no_talk_def SocketConnection_new_def)
    then have "talk_ok h (cfg_pdu_size cfg) payload_of x' ?c"
      by (simp add: talk_ok_def answering_inv) (simp add: SocketConnection_new_def fd)
    with pool st' old [where v = "fst x'"] show ?thesis by (cases x') (auto simp: streams_ok_def)
  qed
qed

lemma disconnected_streams:
  assumes wf: "server_wf L psock opened clients st x" and streams: "streams_ok h pdu payload_of st x"
    and out: "handle_disconnected (logged_os os) (logged_handler h) c st x = Inr (st', x')"
  shows "streams_ok h pdu payload_of st' x'"
proof -
  obtain s d where s: "c = Conn s" "pool_objects (rs_pool st) s = Some d"
    using out by (auto simp: handle_disconnected_def get_connection_def bindR_Inr_iff
        split: server_ctx.splits option.splits)
  obtain d' w where disc: "disconnectClient os h d (fst x) = (d', w)" by fastforce
  with out s have x': "snd x' = snd x"
      and pool: "rs_pool st' = pool_release s (pool_update s d' (rs_pool st))"
    by (auto simp: handle_disconnected_def get_connection_def logged_disconnect set_connection_def
        bindR_Inr_iff)
  have "pool_wf (pool_update s d' (rs_pool st))"
    using wf s(2) by (intro pool_update_wf) (simp_all add: server_wf_def)
  with pool have "pool_objects (rs_pool st') = (pool_objects (rs_pool st))(s := None)"
    using op.release_law [of "pool_update s d' (rs_pool st)" s] by (simp add: pool_update_def)
  moreover have "talk_ok h pdu payload_of x' e" if "talk_ok h pdu payload_of x e" for e
    by (rule talk_ok_same(2) [OF that]) (simp add: x')
  ultimately show ?thesis using streams by (simp add: streams_ok_def)
qed

lemma disconnected_in_bounds: "handle_disconnected os h c st x \<noteq> Inl OutOfBounds"
  by (auto simp: handle_disconnected_def get_connection_def removeEvent_def bindR_Inl_iff Let_def
      split: server_ctx.splits option.splits prod.splits)

lemma accept_in_bounds: "handle_accept os h cfg psock st x \<noteq> Inl OutOfBounds"
  by (auto simp: handle_accept_def addEvent_def bindR_Inl_iff Let_def split: option.splits prod.splits if_splits)

text \<open>A whole server: every event keeps all talks in order and stays in bounds.\<close>

lemma event_streams:
  assumes os: "server_os os opened clients" "counts_ok os"
    and fits: "handler_fits h (cfg_pdu_size cfg) payload_of"
    and wf: "server_wf L psock (opened \<circ> fst) (clients \<circ> fst) st x"
    and streams: "streams_ok h (cfg_pdu_size cfg) payload_of st x" and c: "c \<in> live_ctx L st"
  shows "case handle_event (logged_os os) (logged_handler h) cfg psock c st x of
      Inl e \<Rightarrow> e \<noteq> OutOfBounds
    | Inr (st', x') \<Rightarrow> streams_ok h (cfg_pdu_size cfg) payload_of st' x'"
proof -
  let ?os = "logged_os os" and ?h = "logged_handler h"
  obtain ec where ec: "heap_of st c = Some ec" using c by (auto simp: live_ctx_def)
  have ok: "case r of Inl e \<Rightarrow> e \<noteq> OutOfBounds
      | Inr (st', x') \<Rightarrow> streams_ok h (cfg_pdu_size cfg) payload_of st' x'"
    if "r \<noteq> Inl OutOfBounds" "\<And>st' x'. r = Inr (st', x') \<Longrightarrow> streams_ok h (cfg_pdu_size cfg) payload_of st' x'" for r
    using that by (auto split: sum.splits)
  note rd = talk_event(1) [OF os(2) fits] and wr = talk_event(2) [OF os(2) fits]
  have "case handle_accept ?os ?h cfg psock st x of Inl e \<Rightarrow> e \<noteq> OutOfBounds
      | Inr (st', x') \<Rightarrow> streams_ok h (cfg_pdu_size cfg) payload_of st' x'"
    by (rule ok [OF accept_in_bounds accept_streams [OF os(1) fits wf streams]])
  moreover have "case handle_disconnected ?os ?h c st x of Inl e \<Rightarrow> e \<noteq> OutOfBounds
      | Inr (st', x') \<Rightarrow> streams_ok h (cfg_pdu_size cfg) payload_of st' x'"
    by (rule ok [OF disconnected_in_bounds disconnected_streams [OF wf streams]])
  moreover have "case handle_io (connection_read_event ?os ?h) c st x of Inl e \<Rightarrow> e \<noteq> OutOfBounds
      | Inr (st', x') \<Rightarrow> streams_ok h (cfg_pdu_size cfg) payload_of st' x'"
    by (rule ok [OF io_in_bounds [OF streams _ c] io_streams [OF wf streams c rd read_event_others]])
      (use rd in blast)+
  moreover have "case handle_io (connection_write_event ?os) c st x of Inl e \<Rightarrow> e \<noteq> OutOfBounds
      | Inr (st', x') \<Rightarrow> streams_ok h (cfg_pdu_size cfg) payload_of st' x'"
    by (rule ok [OF io_in_bounds [OF streams _ c] io_streams [OF wf streams c wr write_event_others]])
      (use wr in blast)+
  ultimately show ?thesis using ec streams by (cases "ec_type ec") (simp_all add: handle_event_def)
qed

lemma dispatch_streams:
  assumes os: "server_os os opened clients" "counts_ok os" and h: "server_handler h opened clients"
    and fits: "handler_fits h (cfg_pdu_size cfg) payload_of"
  shows "server_wf L psock (opened \<circ> fst) (clients \<circ> fst) st x \<Longrightarrow>
    streams_ok h (cfg_pdu_size cfg) payload_of st x \<Longrightarrow> set cs \<subseteq> live_ctx L st \<Longrightarrow> distinct cs \<Longrightarrow>
    (case dispatch (logged_os os) (logged_handler h) cfg psock cs st x of
      Inl e \<Rightarrow> e \<noteq> OutOfBounds
    | Inr (st', x') \<Rightarrow> streams_ok h (cfg_pdu_size cfg) payload_of st' x')"
proof (induction cs arbitrary: st x)
  case Nil
  then show ?case by simp
next
  case (Cons c cs)
  let ?e = "handle_event (logged_os os) (logged_handler h) cfg psock c st x"
  have c: "c \<in> live_ctx L st" using Cons.prems(3) by simp
  note ok = event_streams [OF os fits Cons.prems(1,2) c]
    and wf = handle_event_wf [OF logged_env(1) [OF os(1)] logged_env(2) [OF h] Cons.prems(1) c, of cfg]
  show ?case
  proof (cases ?e)
    case (Inl e)
    with ok show ?thesis by simp
  next
    case (Inr r)
    obtain st' x' where r: "r = (st', x')" by (cases r)
    with Inr ok wf have st': "server_wf L psock (opened \<circ> fst) (clients \<circ> fst) st' x'"
        "streams_ok h (cfg_pdu_size cfg) payload_of st' x'" "live_ctx L st - {c} \<subseteq> live_ctx L st'"
      by simp_all
    have "set cs \<subseteq> live_ctx L st'" "distinct cs" using st'(3) Cons.prems(3,4) by auto
    from Cons.IH [OF st'(1,2) this] Inr r show ?thesis by simp
  qed
qed

lemma store_heap_streams:
  "streams_ok h pdu payload_of st x \<Longrightarrow> snd y = snd x \<Longrightarrow> streams_ok h pdu payload_of (store_heap hp st) y"
  by (auto simp: streams_ok_def store_heap_def intro!: talk_ok_same(1))

lemma iteration_streams:
  assumes os: "server_os os opened clients" "counts_ok os" and h: "server_handler h opened clients"
    and fits: "handler_fits h (cfg_pdu_size cfg) payload_of"
    and wf: "server_wf L psock (opened \<circ> fst) (clients \<circ> fst) st x"
    and streams: "streams_ok h (cfg_pdu_size cfg) payload_of st x"
  shows "case run_iteration (logged_os os) (logged_handler h) cfg psock st x of
      Inl e \<Rightarrow> e \<noteq> OutOfBounds
    | Inr (go, st', x') \<Rightarrow> streams_ok h (cfg_pdu_size cfg) payload_of st' x'"
proof -
  let ?os = "logged_os os" and ?l = "rs_listener st" and ?t = "cfg_read_timeout cfg"
  have lw: "listener_wf (heap_of st) ?l" and int: "interest ?l = registrations L st"
    using wf by (simp_all add: server_wf_def)
  note los = logged_env(1) [OF os(1)]
  have pk: "poll_ok ?os" using los by (simp add: server_os_def)
  obtain ret revs y where poll: "os_poll ?os (ml_handle ?l) ?t x = ((ret, revs), y)" by (metis prod.exhaust)
  then have y: "snd y = snd x" by (auto simp: logged_os_def carry_def split: prod.splits)
  have env: "same_env (opened \<circ> fst) (clients \<circ> fst) x y" using los poll unfolding server_os_def by (metis snd_conv)
  note st = store_heap_streams [OF streams y]
  show ?thesis
  proof (cases "0 < ret")
    case False
    then have "SocketMultiEventListener_wait ?os ?l ?t (heap_of st) x
        = Inr (mkCode (if ret = 0 then SOCKET_TIMEOUT else SOCKET_EVENT_ERROR), [], heap_of st, y)"
      using wait_wf(1) [OF lw pk poll] by simp
    with st show ?thesis by (simp add: run_iteration_def)
  next
    case True
    from wait_wf(2) [OF lw pk poll True] obtain hp where
        wait: "SocketMultiEventListener_wait ?os ?l ?t (heap_of st) x
          = Inr (mkCode SUCCESS, reported (ml_contexts ?l) revs, hp, y)"
      and fds: "same_fds (heap_of st) hp" by blast
    note wf' = store_heap_wf [OF server_wf_env [OF wf env] fds]
    have "set (reported (ml_contexts ?l) revs) \<subseteq> live_ctx L (store_heap hp st)"
      using set_reported [of "ml_contexts ?l" revs] contexts_live [OF lw int] wf' by simp
    moreover have "distinct (reported (ml_contexts ?l) revs)"
      using lw by (simp add: listener_wf_def in_step_def distinct_reported)
    ultimately have "case dispatch ?os (logged_handler h) cfg psock (reported (ml_contexts ?l) revs)
        (store_heap hp st) y of Inl e \<Rightarrow> e \<noteq> OutOfBounds
      | Inr (st', x') \<Rightarrow> streams_ok h (cfg_pdu_size cfg) payload_of st' x'"
      using dispatch_streams [OF os h fits conjunct1 [OF wf'] st] by blast
    then show ?thesis
      by (cases "dispatch ?os (logged_handler h) cfg psock (reported (ml_contexts ?l) revs) (store_heap hp st) y")
        (auto simp: run_iteration_def wait)
  qed
qed

lemma loop_streams:
  assumes os: "server_os os opened clients" "counts_ok os" and h: "server_handler h opened clients"
    and fits: "handler_fits h (cfg_pdu_size cfg) payload_of"
  shows "server_wf L psock (opened \<circ> fst) (clients \<circ> fst) st x \<Longrightarrow>
    streams_ok h (cfg_pdu_size cfg) payload_of st x \<Longrightarrow>
    (case run_loop n (logged_os os) (logged_handler h) cfg psock st x of
      Inl e \<Rightarrow> e \<noteq> OutOfBounds
    | Inr (st', x') \<Rightarrow> streams_ok h (cfg_pdu_size cfg) payload_of st' x')"
proof (induction n arbitrary: st x)
  case 0
  then show ?case by simp
next
  case (Suc n)
  note ok = iteration_streams [OF os h fits Suc.prems]
    and wf = run_iteration_wf [OF logged_env(1) [OF os(1)] logged_env(2) [OF h] Suc.prems(1), of cfg]
  show ?case
  proof (cases "run_iteration (logged_os os) (logged_handler h) cfg psock st x")
    case (Inl e)
    with ok show ?thesis by simp
  next
    case (Inr r)
    obtain go st' x' where r: "r = (go, st', x')" by (metis prod.exhaust)
    with Inr ok wf have "server_wf L psock (opened \<circ> fst) (clients \<circ> fst) st' x'"
        "streams_ok h (cfg_pdu_size cfg) payload_of st' x'" by simp_all
    with Suc.IH [OF this] Inr r show ?thesis by simp
  qed
qed

subsection \<open>Properties\<close>

text \<open>
  C5. A request server keeps the streams of its clients apart. With a handler within its
  contract, after any number of iterations and whatever the kernel delivers to whom, for every
  connection: what its descriptor received since it was accepted is exactly the requests
  credited to it, in order and of the right sizes, followed by what it holds of the next one,
  and what was sent on it, followed by what is unsent, is the replies to these requests. The
  server no longer fails out of bounds. The log that says so is never read: the server without
  it does the same.
\<close>

theorem request_server_streams:
  assumes "server_os os opened clients" and "server_handler h opened clients" and "counts_ok os"
    and "handler_fits h (cfg_pdu_size cfg) payload_of"
    and "bs_fd psock \<in> opened w" and "clients w = 0"
  shows "case run n (logged_os os) (logged_handler h) cfg psock (ObjectPool_new 32) (w, log_start) of
      Inl e \<Rightarrow> e \<in> {NullDeref, BadCast} \<and> run n os h cfg psock (ObjectPool_new 32) w = Inl e
    | Inr (st, (w', l)) \<Rightarrow> run n os h cfg psock (ObjectPool_new 32) w = Inr (st, w')
        \<and> (\<forall>s c. pool_objects (rs_pool st) s = Some c \<longrightarrow>
            (let t = lg_talks l (bs_fd (conn_socket c))
             in tk_received t = frames (tk_requests t) @ pending c
                \<and> tk_sent t @ unsent c = concat (tk_replies t)
                \<and> (\<forall>(hdr, p) \<in> set (tk_requests t).
                     length hdr = unat (h_header_size h) \<and> length p = unat (payload_of hdr))))"
proof -
  let ?run = "run n (logged_os os) (logged_handler h) cfg psock (ObjectPool_new 32) (w, log_start)"
  note os = logged_env(1) [OF assms(1)] and h = logged_env(2) [OF assms(2)]
  have "bs_fd psock \<in> (opened \<circ> fst) (w, log_start)" "(clients \<circ> fst) (w, log_start) = 0"
    using assms(5,6) by simp_all
  then obtain st where st: "run_start psock (ObjectPool_new 32) = Inr st" "rs_pool st = ObjectPool_new 32"
      "server_wf Map.empty psock (opened \<circ> fst) (clients \<circ> fst) st (w, log_start)"
    using run_start_wf [OF pool_ready_new(1), of psock "opened \<circ> fst" "(w, log_start)" "clients \<circ> fst" 32]
    by (auto simp: pool_ready_new run_start_def bindR_Inr_iff Let_def)
  have "streams_ok h (cfg_pdu_size cfg) payload_of st (w, log_start)"
    by (simp add: streams_ok_def st(2)) (simp add: ObjectPool_new_def)
  note ok = loop_streams [OF assms(1,3,2,4) st(3) this, of n]
    and wf = run_loop_wf [OF os h st(3), of n cfg]
  have same: "forget1 ?run = run n os h cfg psock (ObjectPool_new 32) w" by (simp add: run_forget)
  show ?thesis
  proof (cases ?run)
    case (Inl e)
    with ok wf st(1) have "e \<in> {NullDeref, BadCast}" by (auto simp: run_def server_faults_def)
    with Inl same show ?thesis by simp
  next
    case (Inr r)
    obtain st' w' l where r: "r = (st', (w', l))" by (metis prod.exhaust)
    with Inr ok st(1) have "streams_ok h (cfg_pdu_size cfg) payload_of st' (w', l)" by (simp add: run_def)
    then have "conn_inv (logged_handler h) (cfg_pdu_size cfg) payload_of
        (talk_trace (bs_fd (conn_socket c))) c (w', l)" if "pool_objects (rs_pool st') s = Some c" for s c
      using that by (auto simp: streams_ok_def talk_ok_def)
    with Inr r same show ?thesis
      by (auto simp: conn_inv_def requests_ok_def talk_trace_def Let_def)
  qed
qed

text \<open>A client that sends \<open>7\<close> for ever: its requests are four bytes long and answered by nothing.\<close>

definition chatty_os :: "(fd set \<times> int) os" where
  "chatty_os = quiet_os\<lparr>
     os_recv := (\<lambda>s n w. if n = 0 then ((0, []), w) else ((1, [7]), w)),
     os_poll := (\<lambda>fds t w. ((1, map (\<lambda>p. POLLIN) fds), w))\<rparr>"

theorem request_server_streams_witness:
  "case run 9 (logged_os chatty_os) (logged_handler count_handler) server_cfg listening_socket
      (ObjectPool_new 32) (({3}, 0), log_start) of
      Inl e \<Rightarrow> e \<noteq> OutOfBounds
    | Inr (st, (w', l)) \<Rightarrow> \<forall>s c. pool_objects (rs_pool st) s = Some c \<longrightarrow>
        tk_received (lg_talks l (bs_fd (conn_socket c)))
        = frames (tk_requests (lg_talks l (bs_fd (conn_socket c)))) @ pending c"
proof -
  have env: "server_os chatty_os fst snd"
    by (auto simp: server_os_def chatty_os_def quiet_os_def null_os_def same_env_def poll_ok_def split: if_splits)
  have "counts_ok chatty_os"
    using word_nonzero_uint
    by (auto simp: counts_ok_def chatty_os_def quiet_os_def null_os_def)
  moreover have "handler_fits count_handler (cfg_pdu_size server_cfg) (\<lambda>_. 0)"
    by (simp add: handler_fits_def count_handler_def server_cfg_def)
  ultimately show ?thesis
    using request_server_streams [OF env quiet_env(2), of server_cfg "\<lambda>_. 0" listening_socket "({3}, 0)" 9]
    by (auto simp: listening_socket_def Let_def split: sum.splits)
qed

end
