(* ===== verification/Round_Trip.thy ===== *)
theory Round_Trip
  imports Client_Sessions Connection_Progress "HOL-Library.Sublist"
begin

text \<open>
  A client and a connection of the request server at the two ends of one stream: what the
  client writes is parsed into the requests it meant, and what it reads is the replies.
\<close>

subsection \<open>Framing\<close>

text \<open>
  A request is a header of fixed size and a payload of the size the header says. The server's
  way of cutting a stream into requests is the only one.
\<close>

definition framed :: "nat \<Rightarrow> (byte list \<Rightarrow> nat) \<Rightarrow> (byte list \<times> byte list) list \<Rightarrow> bool" where
  "framed H P xs \<longleftrightarrow> (\<forall>(hdr, p) \<in> set xs. length hdr = H \<and> length p = P hdr)"

definition incomplete :: "nat \<Rightarrow> (byte list \<Rightarrow> nat) \<Rightarrow> byte list \<Rightarrow> bool" where
  "incomplete H P d \<longleftrightarrow> length d < H \<or> length d < H + P (take H d)"

lemma frames_Cons: "frames ((hdr, p) # rs) = hdr @ p @ frames rs"
  by (simp add: frames_def)

lemma frames_prefix:
  assumes "0 < H"
  shows "framed H P ys \<Longrightarrow> framed H P xs \<Longrightarrow> prefix (frames ys @ d) (frames xs) \<Longrightarrow>
    \<exists>us. xs = ys @ us \<and> framed H P us \<and> prefix d (frames us)"
proof (induction ys arbitrary: xs)
  case Nil
  then show ?case by simp
next
  case (Cons y ys)
  obtain hdr p where y: "y = (hdr, p)" by fastforce
  with Cons.prems(1) have ly: "length hdr = H" "length p = P hdr" "framed H P ys" by (simp_all add: framed_def)
  obtain z where z: "frames xs = hdr @ p @ frames ys @ d @ z"
    using Cons.prems(3) by (auto simp: y frames_Cons prefix_def)
  then have "frames xs \<noteq> []" using ly(1) assms by auto
  then obtain hdr' p' xs' where xs: "xs = (hdr', p') # xs'" by (cases xs) (auto simp: frames_def)
  with Cons.prems(2) have lx: "length hdr' = H" "length p' = P hdr'" "framed H P xs'" by (simp_all add: framed_def)
  have eq: "hdr' @ p' @ frames xs' = hdr @ p @ frames ys @ d @ z" using z by (simp add: xs frames_Cons)
  with ly(1) lx(1) have "hdr' = hdr" "p' @ frames xs' = p @ frames ys @ d @ z" by simp_all
  with ly(2) lx(2) have same: "hdr' = hdr" "p' = p" "frames xs' = frames ys @ d @ z" by simp_all
  then have "prefix (frames ys @ d) (frames xs')" by simp
  from Cons.IH [OF ly(3) lx(3) this] show ?case by (simp add: xs y same)
qed

lemma frames_incomplete:
  assumes "framed H P us" and "incomplete H P (frames us)"
  shows "us = []"
proof (cases us)
  case (Cons u us')
  obtain hdr p where "u = (hdr, p)" by fastforce
  with assms Cons show ?thesis by (simp add: framed_def incomplete_def frames_Cons)
qed simp

subsection \<open>The two ends\<close>

text \<open>
  The documented behaviour of a connected pair of sockets: \<open>a\<close> is the client's descriptor,
  \<open>f\<close> the server's. \<open>sent\<close> and \<open>got\<close> are what the client has sent and received, the trace
  holds the same for the server. What one end receives is what the other has sent, from the
  start and in order; an end that still has something to receive receives it, and is reported
  readable.
\<close>

definition server_view ::
  "'w trace \<Rightarrow> 'w \<Rightarrow> byte list \<times> byte list \<times> (byte list \<times> byte list) list \<times> byte list list" where
  "server_view tr w = (tr_received tr w, tr_sent tr w, tr_requests tr w, tr_replies tr w)"

definition server_end ::
  "'w os \<Rightarrow> fd \<Rightarrow> ('w \<Rightarrow> byte list) \<Rightarrow> ('w \<Rightarrow> byte list) \<Rightarrow> 'w trace \<Rightarrow> bool" where
  "server_end os f sent got tr \<longleftrightarrow> wire_ok os f tr \<and> writable os f
     \<and> (\<forall>n w. sent (snd (os_recv os f n w)) = sent w \<and> got (snd (os_recv os f n w)) = got w)
     \<and> (\<forall>buf w. sent (snd (os_send os f buf w)) = sent w \<and> got (snd (os_send os f buf w)) = got w
          \<and> tr_received tr (snd (os_send os f buf w)) = tr_received tr w)
     \<and> (\<forall>n w. prefix (tr_received tr w) (sent w) \<longrightarrow>
          prefix (tr_received tr (snd (os_recv os f n w))) (sent w))
     \<and> (\<forall>w. length (tr_received tr w) < length (sent w) \<longrightarrow> readable os f w)"

definition client_end ::
  "'w os \<Rightarrow> 'w ssl_lib \<Rightarrow> base_socket \<Rightarrow> ('w \<Rightarrow> byte list) \<Rightarrow> ('w \<Rightarrow> byte list) \<Rightarrow> 'w trace \<Rightarrow> bool" where
  "client_end os lib p sent got tr \<longleftrightarrow>
     blocking_sends os lib (PlainSocket p) sent \<and> stream_reads os lib (PlainSocket p) got
     \<and> quiet os (\<lambda>w. (server_view tr w, sent w, got w))
     \<and> (\<forall>buf w. server_view tr (snd (os_send os (bs_fd p) buf w)) = server_view tr w
          \<and> got (snd (os_send os (bs_fd p) buf w)) = got w)
     \<and> (\<forall>n w. server_view tr (snd (os_recv os (bs_fd p) n w)) = server_view tr w)
     \<and> (\<forall>n w. prefix (got w) (tr_sent tr w) \<longrightarrow> prefix (got (snd (os_recv os (bs_fd p) n w))) (tr_sent tr w))
     \<and> (\<forall>w t. length (got w) < length (tr_sent tr w) \<longrightarrow>
          readable os (bs_fd p) w \<and> fst (os_poll os [(bs_fd p, POLLIN)] t w) = (1, [POLLIN]))"

text \<open>The application's handler touches neither end.\<close>

definition handler_apart :: "'w handler \<Rightarrow> ('w \<Rightarrow> 'a) \<Rightarrow> bool" where
  "handler_apart h obs \<longleftrightarrow>
     (\<forall>hdr w. obs (snd (h_payload_size h hdr w)) = obs w)
     \<and> (\<forall>hdr w. obs (snd (h_mode h hdr w)) = obs w)
     \<and> (\<forall>hdr p n w. obs (snd (h_processed h hdr p n w)) = obs w)
     \<and> (\<forall>hdr p n w. obs (h_processed_without_response h hdr p n w) = obs w)"

subsection \<open>The server's end\<close>

definition handler_keeps :: "'w handler \<Rightarrow> ('w \<Rightarrow> bool) \<Rightarrow> bool" where
  "handler_keeps h P \<longleftrightarrow>
     (\<forall>hdr w. P w \<longrightarrow> P (snd (h_payload_size h hdr w)))
     \<and> (\<forall>hdr w. P w \<longrightarrow> P (snd (h_mode h hdr w)))
     \<and> (\<forall>hdr p n w. P w \<longrightarrow> P (snd (h_processed h hdr p n w)))
     \<and> (\<forall>hdr p n w. P w \<longrightarrow> P (h_processed_without_response h hdr p n w))"

lemma task_keeps:
  assumes "handler_keeps h P" and "runTask h mode n c w = Inr (st, c', w')" and "P w"
  shows "P w'"
proof -
  have P: "P (snd (h_processed h hdr p n w))" "P (h_processed_without_response h hdr p n w)" for hdr p
    using assms(1,3) by (simp_all add: handler_keeps_def)
  have "P w'" if "process h n c w = Inr (st, c', w')"
    using that P(1) [of "conn_header c" "conn_payload c"]
    by (auto simp: process_def bindR_Inr_iff split: prod.splits)
  then show ?thesis using assms(2,3) P(2) by (cases mode) auto
qed

lemma event_keeps_world:
  assumes recv: "\<And>n w. P w \<Longrightarrow> P (snd (os_recv os (bs_fd (conn_socket c)) n w))"
    and send: "\<And>buf w. P w \<Longrightarrow> P (snd (os_send os (bs_fd (conn_socket c)) buf w))"
    and h: "handler_keeps h P" and ev: "connection_event os h e c w = Inr (c1, want, w1)" and P: "P w"
  shows "P w1"
proof -
  have rd: "P w2" if "ServerActiveSocket_read os (conn_socket c) n w = (rd, w2)" for n rd w2
    using recv [OF P, of "as_len n"] that
    by (auto simp: ServerActiveSocket_read_def socket_recv_def split: prod.splits)
  have wr: "P w2" if "ServerActiveSocket_write os (conn_socket c) buf w = (r, w2)" for buf r w2
    using send [OF P, of buf] that
    by (auto simp: ServerActiveSocket_write_def socket_send_def split: prod.splits)
  have size: "P w3" if "h_payload_size h hdr w2 = (n, w3)" "P w2" for hdr n w2 w3
    using h that unfolding handler_keeps_def by (metis snd_conv)
  have mode: "P w3" if "h_mode h hdr w2 = (m, w3)" "P w2" for hdr m w2 w3
    using h that unfolding handler_keeps_def by (metis snd_conv)
  note task = task_keeps [OF h]
  have header: "P w2" if "readHeader os h c w = Inr (st, c2, w2)" for st c2 w2
    using that by (auto simp: readHeader_def bindR_Inr_iff Let_def split: prod.splits if_splits
        dest: rd size mode task)
  have payload: "P w2" if "readPayload os h c w = Inr (st, c2, w2)" for st c2 w2
    using that by (auto simp: readPayload_def bindR_Inr_iff Let_def split: prod.splits if_splits
        dest: rd task)
  have response: "P w2" if out: "writeResponse os c w = Inr (st, c2, w2)" for st c2 w2
  proof -
    obtain buf where "read_mem (conn_output c) (conn_written c) (conn_response_size c - conn_written c) = Inr buf"
      using out by (cases "read_mem (conn_output c) (conn_written c) (conn_response_size c - conn_written c)")
        (simp_all add: writeResponse_def)
    moreover obtain r v where put: "ServerActiveSocket_write os (conn_socket c) buf w = (r, v)" by fastforce
    ultimately have "v = w2" using out by (simp add: writeResponse_def Let_def split: if_splits)
    with wr [OF put] show ?thesis by simp
  qed
  show ?thesis
    using ev P header payload response
    by (cases e) (auto simp: connection_read_event_def connection_write_event_def after_read_def
        bindR_Inr_iff Let_def split: ProcessState.splits prod.splits if_splits)
qed

lemma server_endD:
  assumes "server_end os f sent got tr"
  shows "sent (snd (os_recv os f n w)) = sent w" and "got (snd (os_recv os f n w)) = got w"
    and "sent (snd (os_send os f buf w)) = sent w" and "got (snd (os_send os f buf w)) = got w"
    and "tr_received tr (snd (os_send os f buf w)) = tr_received tr w"
    and "sent w = S \<Longrightarrow> prefix (tr_received tr w) S \<Longrightarrow> prefix (tr_received tr (snd (os_recv os f n w))) S"
  using assms by (auto simp: server_end_def)

text \<open>The server's end of a stream on which the client has sent whole requests.\<close>

definition inbound ::
  "fd \<Rightarrow> ('w \<Rightarrow> byte list) \<Rightarrow> ('w \<Rightarrow> byte list) \<Rightarrow> 'w trace \<Rightarrow> byte list \<Rightarrow> byte list \<Rightarrow> connection \<Rightarrow> 'w \<Rightarrow> bool" where
  "inbound f sent got tr S G c w \<longleftrightarrow> bs_fd (conn_socket c) = f
     \<and> sent w = S \<and> got w = G \<and> prefix (tr_received tr w) S"

lemma live_framed:
  assumes "live_talk os h pdu payload_of tr c w"
  defines "H \<equiv> unat (h_header_size h)" and "P \<equiv> \<lambda>hdr. unat (payload_of hdr)"
  shows "0 < H" and "framed H P (tr_requests tr w)"
    and "tr_received tr w = frames (tr_requests tr w) @ pending c"
    and "reading c \<Longrightarrow> incomplete H P (pending c)"
proof -
  have h: "handler_ok h pdu payload_of tr" and inv: "conn_inv h pdu payload_of tr c w"
    using assms(1) by (simp_all add: live_talk_def)
  show "0 < H" using h unfolding handler_ok_def H_def word_less_nat_alt by simp
  show "framed H P (tr_requests tr w)" "tr_received tr w = frames (tr_requests tr w) @ pending c"
    using inv by (auto simp: conn_inv_def requests_ok_def framed_def H_def P_def)
  show "incomplete H P (pending c)" if "reading c"
    using that inv
    by (auto simp: reading_def conn_inv_def conn_sizes_def conn_counters_def pending_def incomplete_def
        H_def P_def word_less_nat_alt min_less_iff_disj)
qed

lemma inbound_fed:
  assumes pair: "server_end os f sent got tr" and h: "handler_ok h pdu payload_of tr"
    and apart: "handler_apart h (\<lambda>w. (sent w, got w))"
    and xs: "framed (unat (h_header_size h)) (\<lambda>hdr. unat (payload_of hdr)) xs"
  shows "fed os h pdu payload_of tr (length xs) (inbound f sent got tr (frames xs) G)"
  unfolding fed_def
proof (intro conjI allI impI)
  let ?P = "\<lambda>w. sent w = frames xs \<and> got w = G \<and> prefix (tr_received tr w) (frames xs)"
  fix c w c1 want w1
  assume Q: "inbound f sent got tr (frames xs) G c w" and sock: "conn_socket c1 = conn_socket c"
    and ev: "connection_event os h (wanted c) c w = Inr (c1, want, w1)"
  have "tr_received tr (snd (h_payload_size h hdr v)) = tr_received tr v"
      "tr_received tr (snd (h_mode h hdr v)) = tr_received tr v"
      "tr_received tr (snd (h_processed h hdr p n v)) = tr_received tr v"
      "tr_received tr (h_processed_without_response h hdr p n v) = tr_received tr v" for hdr p n v
    using handler_payload_size [OF h, where hdr = hdr and w = v] handler_mode [OF h, where hdr = hdr and w = v]
      handler_processed [OF h, where hdr = hdr and p = p and n = n and w = v]
      handler_processed_without [OF h refl, where hdr = hdr and p = p and n = n and w = v]
    by (cases "h_payload_size h hdr v"; cases "h_mode h hdr v"; cases "h_processed h hdr p n v";
        fastforce simp: same_wire_def)+
  with apart have "handler_keeps h ?P" by (simp add: handler_keeps_def handler_apart_def)
  moreover have Pw: "?P w" and f: "bs_fd (conn_socket c) = f" using Q by (simp_all add: inbound_def)
  moreover have "?P (snd (os_recv os f n v))" "?P (snd (os_send os f buf v))" if "?P v" for n buf v
    using server_endD [OF pair, where w = v] that by simp_all
  ultimately have "?P w1" using event_keeps_world [where P = ?P, OF _ _ _ ev Pw] by simp
  with sock f show "inbound f sent got tr (frames xs) G c1 w1" by (simp add: inbound_def)
next
  fix c w
  assume live: "live_talk os h pdu payload_of tr c w" and Q: "inbound f sent got tr (frames xs) G c w"
    and rd: "reading c" and few: "length (tr_requests tr w) < length xs"
  note fr = live_framed [OF live]
  have "prefix (tr_received tr w) (frames xs)" using Q by (simp add: inbound_def)
  with frames_prefix [OF fr(1,2) xs] obtain us where us: "xs = tr_requests tr w @ us"
      "framed (unat (h_header_size h)) (\<lambda>hdr. unat (payload_of hdr)) us" "prefix (pending c) (frames us)"
    unfolding fr(3) by blast
  have "pending c \<noteq> frames us"
    using frames_incomplete [OF us(2)] fr(4) [OF rd] us(1) few by auto
  then have "length (pending c) < length (frames us)" using us(3) by (meson prefix_length_less prefix_order.le_neq_trans)
  moreover have "frames xs = frames (tr_requests tr w) @ frames us" by (simp add: us(1) frames_def)
  ultimately have "length (tr_received tr w) < length (sent w)" using Q by (simp add: fr(3) inbound_def)
  with pair Q show "readable os (bs_fd (conn_socket c)) w" by (simp add: server_end_def inbound_def)
qed

lemma requests_parsed:
  assumes pair: "server_end os (bs_fd s) sent got tr" and h: "handler_ok h pdu payload_of tr"
    and apart: "handler_apart h (\<lambda>w. (sent w, got w))"
    and xs: "framed (unat (h_header_size h)) (\<lambda>hdr. unat (payload_of hdr)) xs"
    and w: "sent w = frames xs" "tr_received tr w = []" "tr_sent tr w = []" "tr_requests tr w = []"
      "tr_replies tr w = []"
  shows "\<exists>k c w'. k \<le> length xs * (unat (h_header_size h) + 2 * unat pdu + 1)
    \<and> drive k os h (SocketConnection_new s h pdu) w = Inr (c, w') \<and> conn_fresh c
    \<and> tr_requests tr w' = xs \<and> tr_sent tr w' = concat (tr_replies tr w') \<and> got w' = got w"
proof -
  let ?c = "SocketConnection_new s h pdu" and ?Q = "inbound (bs_fd s) sent got tr (frames xs) (got w)"
  have "live_talk os h pdu payload_of tr ?c w"
    using new_inv [OF h w(2-5)] h pair by (simp add: live_talk_def server_end_def SocketConnection_new_def)
  moreover have "?Q ?c w" "conn_fresh ?c" using w by (simp_all add: inbound_def conn_fresh_def SocketConnection_new_def)
  moreover have "length (tr_requests tr w) + length xs = length xs" using w(4) by simp
  ultimately obtain k c w' where k: "k \<le> length xs * (unat (h_header_size h) + 2 * unat pdu + 1)"
      "drive k os h ?c w = Inr (c, w')" "conn_fresh c" "length (tr_requests tr w') = length xs"
    and inv: "live_talk os h pdu payload_of tr c w'" and Q: "?Q c w'"
    using rounds [OF inbound_fed [OF pair h apart xs, where G = "got w"], where c = ?c and w = w] by blast
  note fr = live_framed [OF inv]
  have "prefix (frames (tr_requests tr w') @ pending c) (frames xs)" using Q fr(3) by (simp add: inbound_def)
  from frames_prefix [OF fr(1,2) xs this] k(4) have "tr_requests tr w' = xs" by auto
  moreover have "tr_sent tr w' = concat (tr_replies tr w')"
    using inv k(3) by (simp add: live_talk_def conn_inv_def conn_fresh_def unsent_def)
  ultimately show ?thesis using k Q by (auto simp: inbound_def)
qed

subsection \<open>The client's end\<close>

text \<open>A client that reads as often as it is told, into a buffer of \<open>n\<close> bytes.\<close>

fun client_reads ::
  "nat \<Rightarrow> 'w os \<Rightarrow> 'w ssl_lib \<Rightarrow> client \<Rightarrow> size_t \<Rightarrow> 'w \<Rightarrow> (byte list \<times> 'w) result" where
  "client_reads 0 os lib c n w = Inr ([], w)"
| "client_reads (Suc k) os lib c n w =
     bindR (SocketClientImpl_read os lib c (replicate (unat n) 0) n w) (\<lambda>(r, buffer, w).
       if sr_code r = SUCCESS
       then bindR (client_reads k os lib c n w) (\<lambda>(data, w). Inr (take (nat (sr_bytes r)) buffer @ data, w))
       else Inr ([], w))"

lemma client_endD:
  assumes "client_end os lib p sent got tr"
  shows "blocking_sends os lib (PlainSocket p) sent" and "stream_reads os lib (PlainSocket p) got"
    and "quiet os (\<lambda>w. (server_view tr w, sent w, got w))"
    and "server_view tr (snd (os_send os (bs_fd p) buf w)) = server_view tr w"
    and "got (snd (os_send os (bs_fd p) buf w)) = got w"
    and "server_view tr (snd (os_recv os (bs_fd p) n w)) = server_view tr w"
    and "prefix (got w) (tr_sent tr w) \<Longrightarrow> prefix (got (snd (os_recv os (bs_fd p) n w))) (tr_sent tr w)"
    and "length (got w) < length (tr_sent tr w) \<Longrightarrow> readable os (bs_fd p) w"
    and "length (got w) < length (tr_sent tr w) \<Longrightarrow> fst (os_poll os [(bs_fd p, POLLIN)] t w) = (1, [POLLIN])"
  using assms by (auto simp: client_end_def)

lemma one_read:
  assumes pair: "client_end os lib p sent got tr" and c: "cl_socket c = Some (PlainSocket p)"
    and "cfg_max_retries (cl_cfg c) \<noteq> 0" and n: "0 < n" "unat n < 2 ^ 31"
    and more: "length (got w) < length (tr_sent tr w)" and pre: "prefix (got w) (tr_sent tr w)"
  shows "\<exists>r data w'. SocketClientImpl_read os lib c (replicate (unat n) 0) n w
      = Inr (r, data @ drop (length data) (replicate (unat n) 0), w')
    \<and> sr_code r = SUCCESS \<and> sr_bytes r = int (length data) \<and> data \<noteq> [] \<and> got w' = got w @ data
    \<and> server_view tr w' = server_view tr w \<and> prefix (got w') (tr_sent tr w')"
proof -
  let ?t = "cfg_read_timeout (cl_cfg c)" and ?l = "(bs_fd p, POLLIN)"
  have reads: "stream_reads os lib (PlainSocket p) got" and q: "quiet os (\<lambda>w. (server_view tr w, sent w, got w))"
    using client_endD(2,3) [OF pair] by simp_all
  obtain w1 where poll: "os_poll os [?l] ?t w = ((1, [POLLIN]), w1)"
    using client_endD(9) [OF pair more, of ?t] by (cases "os_poll os [?l] ?t w") simp
  then have wait: "SocketEventListener_wait os ?l ?t w = (mkCode SUCCESS, w1)"
    by (simp add: SocketEventListener_wait_def wait_with_def has_event_def poll_consts)
  have same: "server_view tr w1 = server_view tr w" "got w1 = got w"
    using wait_quiet [OF q, of ?l ?t w] wait by simp_all
  then have sent1: "tr_sent tr w1 = tr_sent tr w" by (simp add: server_view_def)
  obtain r data w2 where rd: "client_read os lib (PlainSocket p) n w1 = Inr ((r, data), w2)"
      "length data = nat (sr_bytes r)" "length data \<le> unat n" "got w2 = got w1 @ data"
      "sr_code r = SUCCESS \<longleftrightarrow> 0 < sr_bytes r"
    using client_read_result [OF reads n(2)] by blast
  obtain k where raw: "os_recv os (bs_fd p) n w1 = ((k, data), w2)"
    using rd(1) n(2) by (auto simp: socket_recv_def as_len_small split: prod.splits)
  have "readable os (bs_fd p) w1" using client_endD(8) [OF pair] more same sent1 by simp
  with raw n(1) have "1 \<le> k" unfolding readable_def by (metis fst_conv)
  moreover have "length data = nat k"
    using reads n(2) raw unfolding stream_reads_def
    by (metis (mono_tags, lifting) case_prod_conv raw_recv.simps(1))
  ultimately have data: "data \<noteq> []" by auto
  then have pos: "0 < sr_bytes r" using rd(2) by (cases "0 < sr_bytes r") auto
  have view: "server_view tr w2 = server_view tr w1" "prefix (got w2) (tr_sent tr w1)"
    using client_endD(6,7) [OF pair, where w = w1 and n = n] pre raw same sent1 by simp_all
  have "write_mem (replicate (unat n) 0) 0 data = Inr (data @ drop (length data) (replicate (unat n) 0))"
    using rd(3) by (intro write_mem_front) simp
  moreover have "0 < unat (cfg_max_retries (cl_cfg c))" using assms(3) by (simp add: unat_gt_0)
  ultimately have "SocketClientImpl_read os lib c (replicate (unat n) 0) n w
      = Inr (r, data @ drop (length data) (replicate (unat n) 0), w2)"
    using c wait rd(1,5) pos
    by (simp add: SocketClientImpl_read_def the_socket_def open_listener) (subst read_loop.simps, simp)
  then show ?thesis using rd pos data same view sent1 by (auto simp: server_view_def)
qed

lemma reads_reply:
  assumes pair: "client_end os lib p sent got tr" and c: "cl_socket c = Some (PlainSocket p)"
    and "cfg_max_retries (cl_cfg c) \<noteq> 0" and "0 < n" "unat n < 2 ^ 31"
  shows "prefix (got w) (tr_sent tr w) \<Longrightarrow>
    \<exists>k w'. k \<le> length (tr_sent tr w) - length (got w)
      \<and> client_reads k os lib c n w = Inr (drop (length (got w)) (tr_sent tr w), w')"
proof (induction "length (tr_sent tr w) - length (got w)" arbitrary: w rule: less_induct)
  case less
  show ?case
  proof (cases "length (got w) < length (tr_sent tr w)")
    case False
    then show ?thesis by (intro exI [of _ 0]) simp
  next
    case True
    from one_read [OF assms True less.prems] obtain r data w1 where
        rd: "SocketClientImpl_read os lib c (replicate (unat n) 0) n w
          = Inr (r, data @ drop (length data) (replicate (unat n) 0), w1)"
        "sr_code r = SUCCESS" "sr_bytes r = int (length data)" "data \<noteq> []" "got w1 = got w @ data"
        "server_view tr w1 = server_view tr w" "prefix (got w1) (tr_sent tr w1)" by blast
    have s1: "tr_sent tr w1 = tr_sent tr w" using rd(6) by (simp add: server_view_def)
    have lt: "length (tr_sent tr w1) - length (got w1) < length (tr_sent tr w) - length (got w)"
      using rd(4,5) s1 True by (cases data) auto
    from less.hyps [OF lt rd(7)] obtain k w' where "k \<le> length (tr_sent tr w1) - length (got w1)"
        "client_reads k os lib c n w1 = Inr (drop (length (got w1)) (tr_sent tr w1), w')" by blast
    moreover have "data @ drop (length (got w1)) (tr_sent tr w1) = drop (length (got w)) (tr_sent tr w)"
      using rd(5,7) s1 by (auto simp: prefix_def)
    ultimately show ?thesis using rd(1-3) lt by (intro exI [of _ "Suc k"] exI [of _ w']) simp
  qed
qed

lemma request_written:
  assumes pair: "client_end os lib p sent got tr" and c: "cl_socket c = Some (PlainSocket p)"
    and "cfg_max_retries (cl_cfg c) \<noteq> 0" and "length buffer < 2 ^ 31"
    and wr: "SocketClientImpl_write os lib c buffer (of_nat (length buffer)) w = Some (Inr (r, w1))"
    and ok: "sr_code r = SUCCESS"
  shows "sent w1 = sent w @ buffer" and "server_view tr w1 = server_view tr w" and "got w1 = got w"
proof -
  show "sent w1 = sent w @ buffer"
    using client_write_sends [OF c client_endD(1) [OF pair] assms(3,4), of w] wr ok by auto
  let ?obs = "\<lambda>w. (server_view tr w, got w)" and ?cfg = "cl_cfg c"
  have q: "quiet os ?obs" using client_endD(3) [OF pair] by (simp add: quiet_def)
  have wait: "?obs (snd (SocketEventListener_wait os l t v)) = ?obs v" for l t v by (rule wait_quiet [OF q])
  have send: "case client_write os lib (PlainSocket p) chunk v of Inl e \<Rightarrow> False
      | Inr (q, v') \<Rightarrow> ?obs v' = ?obs v" for chunk v
    using client_endD(4,5) [OF pair, of chunk v]
    by (cases "os_send os (bs_fd p) chunk v") (simp add: socket_send_def)
  have sleep: "?obs (os_sleep os t v) = ?obs v" for t v using q by (simp add: quiet_def)
  obtain z where z: "write_loop (client_write os lib (PlainSocket p))
      (SocketEventListener_wait os (bs_fd p, POLLOUT) (cfg_write_timeout ?cfg))
      (os_sleep os (cfg_time_between_retries ?cfg)) (unat (cfg_max_retries ?cfg)) buffer
      (of_nat (length buffer)) 0 0 (mkCode SUCCESS) w = Some z"
      "z \<noteq> Inl e \<Longrightarrow> (\<exists>q n. z = Inr (q, n, w1))" for e
    using wr c by (auto simp: SocketClientImpl_write_def the_socket_def open_listener
        split: option.splits sum.splits)
  have "?obs w1 = ?obs w"
    using write_loop_outcome [where obs = ?obs and bad = "\<lambda>e. False", OF z(1) wait send sleep] z(2) by (cases z) auto
  then show "server_view tr w1 = server_view tr w" and "got w1 = got w" by simp_all
qed

subsection \<open>Properties\<close>

text \<open>
  C6. A request makes the round trip. A client that has written any number of whole requests
  with success to a fresh connection is understood: after a bounded number of events the
  connection has handed exactly these requests, headers and payloads, to the application, in
  order, and sent all replies, however the kernel cuts the stream; and the client, reading
  with a buffer of any size, gets exactly the replies after at most as many reads as they
  have bytes.
\<close>

theorem request_round_trip:
  assumes "client_end os lib p sent got tr" and "server_end os (bs_fd s) sent got tr"
    and "handler_ok h pdu payload_of tr" and "handler_apart h (\<lambda>w. (sent w, got w))"
    and "cl_socket c = Some (PlainSocket p)" and "cfg_max_retries (cl_cfg c) \<noteq> 0"
    and "sent w = []" and "got w = []" and "server_view tr w = ([], [], [], [])"
    and "framed (unat (h_header_size h)) (\<lambda>hdr. unat (payload_of hdr)) xs" and "length (frames xs) < 2 ^ 31"
    and "SocketClientImpl_write os lib c (frames xs) (of_nat (length (frames xs))) w = Some (Inr (r, w1))"
    and "sr_code r = SUCCESS" and "0 < n" and "unat n < 2 ^ 31"
  shows "\<exists>k d w2. k \<le> length xs * (unat (h_header_size h) + 2 * unat pdu + 1)
    \<and> drive k os h (SocketConnection_new s h pdu) w1 = Inr (d, w2) \<and> conn_fresh d
    \<and> tr_requests tr w2 = xs
    \<and> (\<exists>j w3. j \<le> length (concat (tr_replies tr w2))
         \<and> client_reads j os lib c n w2 = Inr (concat (tr_replies tr w2), w3))"
proof -
  note wr = request_written [OF assms(1,5,6,11,12,13)]
  have "sent w1 = frames xs" "tr_received tr w1 = []" "tr_sent tr w1 = []" "tr_requests tr w1 = []"
      "tr_replies tr w1 = []" and got: "got w1 = []"
    using wr assms(7-9) by (simp_all add: server_view_def)
  from requests_parsed [OF assms(2-4,10) this(1-5)] obtain k d w2 where
      k: "k \<le> length xs * (unat (h_header_size h) + 2 * unat pdu + 1)"
        "drive k os h (SocketConnection_new s h pdu) w1 = Inr (d, w2)" "conn_fresh d" "tr_requests tr w2 = xs"
      and out: "tr_sent tr w2 = concat (tr_replies tr w2)" "got w2 = []"
    using got by auto
  have "prefix (got w2) (tr_sent tr w2)" by (simp add: out)
  from reads_reply [OF assms(1,5,6,14,15) this] out obtain j w3 where
      "j \<le> length (concat (tr_replies tr w2))" "client_reads j os lib c n w2 = Inr (concat (tr_replies tr w2), w3)"
    by auto
  with k show ?thesis by blast
qed

text \<open>
  The two pipes of a connected pair, descriptor 5 for the client and 7 for the server, each
  delivering one byte at a time; the application answers with the payload, reversed.
\<close>

record pair_world =
  pw_sent :: "byte list"
  pw_received :: "byte list"
  pw_back :: "byte list"
  pw_got :: "byte list"
  pw_requests :: "(byte list \<times> byte list) list"
  pw_replies :: "byte list list"

definition pair_start :: pair_world where
  "pair_start = \<lparr>pw_sent = [], pw_received = [], pw_back = [], pw_got = [], pw_requests = [], pw_replies = []\<rparr>"

definition pair_trace :: "pair_world trace" where
  "pair_trace = \<lparr>tr_received = pw_received, tr_sent = pw_back, tr_requests = pw_requests,
                 tr_replies = pw_replies\<rparr>"

definition next_byte :: "size_t \<Rightarrow> byte list \<Rightarrow> byte list \<Rightarrow> byte list" where
  "next_byte n taken stream = (if n = 0 then [] else take 1 (drop (length taken) stream))"

definition pair_os :: "pair_world os" where
  "pair_os = null_os\<lparr>
     os_poll := (\<lambda>fds t w. ((1, map snd fds), w)),
     os_send := (\<lambda>s buf w. (int (length buf),
        if s = 7 then w\<lparr>pw_back := pw_back w @ buf\<rparr> else w\<lparr>pw_sent := pw_sent w @ buf\<rparr>)),
     os_recv := (\<lambda>s n w.
        if s = 7 then let d = next_byte n (pw_received w) (pw_sent w)
          in ((int (length d), d), w\<lparr>pw_received := pw_received w @ d\<rparr>)
        else let d = next_byte n (pw_got w) (pw_back w)
          in ((int (length d), d), w\<lparr>pw_got := pw_got w @ d\<rparr>))\<rparr>"

definition pair_handler :: "pair_world handler" where
  "pair_handler = \<lparr>
     h_header_size = 1,
     h_payload_size = (\<lambda>hdr w. (echo_payload hdr, w)),
     h_mode = (\<lambda>hdr w. (FAST, w)),
     h_connected = (\<lambda>ip port w. w),
     h_disconnected = (\<lambda>ip port w. w),
     h_processed = (\<lambda>hdr p n w. let out = rev (take (min 4 (unat n)) p) in
        ((out, of_nat (length out)),
         w\<lparr>pw_requests := pw_requests w @ [(hdr, take (unat n) p)], pw_replies := pw_replies w @ [out]\<rparr>)),
     h_processed_without_response = (\<lambda>hdr p n w.
        w\<lparr>pw_requests := pw_requests w @ [(hdr, take (unat n) p)]\<rparr>)\<rparr>"

lemma next_byte_props:
  "length (next_byte n taken stream) \<le> unat n" "length (next_byte n taken stream) \<le> 1"
  "prefix taken stream \<Longrightarrow> prefix (taken @ next_byte n taken stream) stream"
  "0 < n \<Longrightarrow> length taken < length stream \<Longrightarrow> length (next_byte n taken stream) = 1"
proof -
  have "n \<noteq> 0 \<Longrightarrow> 1 \<le> unat n" by (simp add: Suc_le_eq unat_gt_0)
  then show "length (next_byte n taken stream) \<le> unat n" by (auto simp: next_byte_def)
  show "length (next_byte n taken stream) \<le> 1" by (simp add: next_byte_def)
  show "prefix taken stream \<Longrightarrow> prefix (taken @ next_byte n taken stream) stream"
    by (elim prefixE) (simp add: next_byte_def take_is_prefix)
  show "0 < n \<Longrightarrow> length taken < length stream \<Longrightarrow> length (next_byte n taken stream) = 1"
    by (auto simp: next_byte_def)
qed

lemma next_byte_small: "int (length (next_byte n taken stream)) \<le> uint n"
  unfolding uint_nat of_nat_le_iff by (rule next_byte_props(1))

lemma pair_calls:
  "os_recv pair_os s n w =
     (if s = 7 then ((int (length (next_byte n (pw_received w) (pw_sent w))), next_byte n (pw_received w) (pw_sent w)),
         w\<lparr>pw_received := pw_received w @ next_byte n (pw_received w) (pw_sent w)\<rparr>)
      else ((int (length (next_byte n (pw_got w) (pw_back w))), next_byte n (pw_got w) (pw_back w)),
         w\<lparr>pw_got := pw_got w @ next_byte n (pw_got w) (pw_back w)\<rparr>))"
  "os_send pair_os s buf w = (int (length buf),
     if s = 7 then w\<lparr>pw_back := pw_back w @ buf\<rparr> else w\<lparr>pw_sent := pw_sent w @ buf\<rparr>)"
  "os_poll pair_os fds t w = ((1, map snd fds), w)" "os_so_error pair_os s w = (E_NONE, w)"
  "os_sleep pair_os ms w = w" "os_errno pair_os w = E_NONE"
  by (simp_all add: pair_os_def null_os_def Let_def)

lemma pair_views:
  "tr_received pair_trace = pw_received" "tr_sent pair_trace = pw_back"
  "tr_requests pair_trace = pw_requests" "tr_replies pair_trace = pw_replies"
  "bs_fd echo_socket = 7"
  by (simp_all add: pair_trace_def echo_socket_def)

lemma pair_server: "server_end pair_os (bs_fd echo_socket) pw_sent pw_got pair_trace"
  unfolding server_end_def
proof (intro conjI allI impI)
  show "wire_ok pair_os (bs_fd echo_socket) pair_trace"
    by (simp add: wire_ok_def pair_calls pair_views same_talk_def next_byte_small)
qed (simp_all add: writable_def readable_def pair_calls pair_views next_byte_props(3,4))

lemma pair_client: "client_end pair_os stub_ssl \<lparr>bs_result = mkCode SUCCESS, bs_fd = 5\<rparr> pw_sent pw_got pair_trace"
  unfolding client_end_def
proof (intro conjI allI impI)
  show "blocking_sends pair_os stub_ssl (PlainSocket \<lparr>bs_result = mkCode SUCCESS, bs_fd = 5\<rparr>) pw_sent"
    by (simp add: blocking_sends_def quiet_def pair_calls)
  show "stream_reads pair_os stub_ssl (PlainSocket \<lparr>bs_result = mkCode SUCCESS, bs_fd = 5\<rparr>) pw_got"
    by (simp add: stream_reads_def quiet_def pair_calls next_byte_small)
qed (simp_all add: quiet_def server_view_def readable_def pair_calls pair_views next_byte_props(3,4))

lemma pair_app:
  "handler_ok pair_handler 4 echo_payload pair_trace"
  "handler_apart pair_handler (\<lambda>w. (pw_sent w, pw_got w))"
proof -
  have "unat (of_nat (length (rev (take (min 4 (unat n)) p))) :: size_t) = length (rev (take (min 4 (unat n)) p))"
    and "(of_nat (length (rev (take (min 4 (unat n)) p))) :: size_t) \<le> 4" for n :: size_t and p :: "byte list"
    by (simp_all add: word_le_nat_alt unat_of_nat take_bit_nat_eq_self min_le_iff_disj)
  then show "handler_ok pair_handler 4 echo_payload pair_trace"
    by (simp add: handler_ok_def pair_handler_def echo_payload_def pair_trace_def same_wire_def
        same_talk_def Let_def)
  show "handler_apart pair_handler (\<lambda>w. (pw_sent w, pw_got w))"
    by (simp add: handler_apart_def pair_handler_def Let_def)
qed

text \<open>Two requests, the second without payload, and two bytes to read at a time.\<close>

definition pair_client_object :: client where
  "pair_client_object = sample_client (PlainSocket \<lparr>bs_result = mkCode SUCCESS, bs_fd = 5\<rparr>)"

lemma pair_write:
  "SocketClientImpl_write pair_os stub_ssl pair_client_object [2, 7, 8, 1] 4 pair_start
   = Some (Inr (mkResult SUCCESS 4, pair_start\<lparr>pw_sent := [2, 7, 8, 1]\<rparr>))"
  by (simp add: SocketClientImpl_write_def pair_client_object_def the_socket_def open_listener)
    (subst write_loop.simps, simp add: SocketEventListener_wait_def wait_with_def pair_os_def null_os_def
      has_event_def poll_consts read_mem_def socket_send_def recv_result_def createResult_def size_of_def
      i32_small Let_def pair_start_def)

theorem request_round_trip_witness:
  "\<exists>k d w2 j w3. k \<le> 20
    \<and> drive k pair_os pair_handler (SocketConnection_new echo_socket pair_handler 4)
        (pair_start\<lparr>pw_sent := [2, 7, 8, 1]\<rparr>) = Inr (d, w2)
    \<and> pw_requests w2 = [([2], [7, 8]), ([1], [])]
    \<and> client_reads j pair_os stub_ssl pair_client_object 2 w2 = Inr (concat (pw_replies w2), w3)"
proof -
  let ?xs = "[([2], [7, 8]), ([1], [])] :: (byte list \<times> byte list) list"
  have "frames ?xs = [2, 7, 8, 1]" by (simp add: frames_def)
  moreover have "framed (unat (h_header_size pair_handler)) (\<lambda>hdr. unat (echo_payload hdr)) ?xs"
    by (simp add: framed_def pair_handler_def echo_payload_def)
  moreover have "server_view pair_trace pair_start = ([], [], [], [])" "pw_sent pair_start = []" "pw_got pair_start = []"
    by (simp_all add: server_view_def pair_trace_def pair_start_def)
  moreover have "cl_socket pair_client_object = Some (PlainSocket \<lparr>bs_result = mkCode SUCCESS, bs_fd = 5\<rparr>)"
      "cfg_max_retries (cl_cfg pair_client_object) \<noteq> 0" by (simp_all add: pair_client_object_def)
  moreover have "h_header_size pair_handler = 1" by (simp add: pair_handler_def)
  ultimately have "\<exists>k d w2. k \<le> 20
      \<and> drive k pair_os pair_handler (SocketConnection_new echo_socket pair_handler 4)
          (pair_start\<lparr>pw_sent := [2, 7, 8, 1]\<rparr>) = Inr (d, w2) \<and> conn_fresh d
      \<and> tr_requests pair_trace w2 = ?xs
      \<and> (\<exists>j w3. j \<le> length (concat (tr_replies pair_trace w2))
          \<and> client_reads j pair_os stub_ssl pair_client_object 2 w2 = Inr (concat (tr_replies pair_trace w2), w3))"
    using request_round_trip [OF pair_client pair_server pair_app, of pair_client_object pair_start ?xs
        "mkResult SUCCESS 4" "pair_start\<lparr>pw_sent := [2, 7, 8, 1]\<rparr>" 2] pair_write
    by simp
  then show ?thesis unfolding pair_views by blast
qed

end
