(* ===== verification/Spec2Isabelle.thy ===== *)
theory Spec2Isabelle
  imports Public_API Socket_Container Windows_Listener Broadcast_Races Connection_Progress
    Request_Streams Broadcast_Close Round_Trip
begin

text \<open>
  A model of \<^verbatim>\<open>SecuritySocket\<close>, a C++ library of TCP, TLS and unix-domain sockets with timeouts
  and retries: a blocking client, a request/response server and a broadcast server. All source
  files named here are under \<^verbatim>\<open>src/src\<close>, most in \<^verbatim>\<open>src/src/implementation\<close>.

  \<^bold>\<open>The program.\<close> \<^verbatim>\<open>SocketClientImpl\<close> drives one \<^verbatim>\<open>ClientActiveSocket\<close> (plain or TLS) through a
  one-socket event listener. \<^verbatim>\<open>SocketRequestServerImpl\<close> runs one thread: a \<^verbatim>\<open>PassiveSocket\<close> and
  the accepted \<^verbatim>\<open>ServerActiveSocket\<close>s are registered with a \<^verbatim>\<open>SocketMultiEventListener\<close> by raw
  pointers to their contexts; the connections live in an \<^verbatim>\<open>ObjectPool\<close>, and each is a state
  machine that assembles requests for the application's handler and sends its answers.
  \<^verbatim>\<open>SocketBroadcastServerImpl\<close> has a monitor thread that accepts clients and notices their end,
  and a caller that writes to all of them, waits for them, or drops them.

  \<^bold>\<open>The theories.\<close> In the order of the imports:

  \<^item> \<^theory_text>\<open>Prelude\<close>: machine integers (a \<^verbatim>\<open>size_t\<close> is a 64-bit word, an \<^verbatim>\<open>int32_t\<close> an integer taken
    through \<^term>\<open>i32\<close>), the faults a C++ program can commit, buffers with bounds-checked access.
    An operation that may fault returns \<^typ>\<open>'a result\<close>; an error the code reports is an ordinary
    value, a \<^typ>\<open>SocketResult\<close>.
  \<^item> \<^theory_text>\<open>TLS_Library\<close>, \<^theory_text>\<open>OS_Interface\<close>: OpenSSL and the kernel as records of functions over a
    world \<^typ>\<open>'w\<close>, which are parameters of everything above; \<^verbatim>\<open>SocketHelper.hpp\<close>, \<^verbatim>\<open>TLSHelper.hpp\<close>.
    What is relied on is stated where it is used (\<^term>\<open>recv_ok\<close>, \<^term>\<open>send_ok\<close>, \<^term>\<open>poll_ok\<close>,
    \<^term>\<open>broadcast_os\<close>) and instantiated by a concrete environment in each witness.
  \<^item> \<^theory_text>\<open>Result_Codes\<close>: \<^verbatim>\<open>SocketResult.hpp\<close>. \<^theory_text>\<open>C_Strings\<close>, \<^theory_text>\<open>Configuration\<close>: the configuration
    classes of \<^verbatim>\<open>SecuritySocket.hpp\<close> with their fixed-size arrays, and the cipher strings of
    \<^verbatim>\<open>SecuritySocket.cpp\<close>. \<^theory_text>\<open>Address\<close>: \<^verbatim>\<open>SocketAddress.cpp\<close>.
  \<^item> \<^theory_text>\<open>Active_Sockets\<close>: \<^verbatim>\<open>ClientActiveSocket.cpp\<close>, \<^verbatim>\<open>ServerActiveSocket.cpp\<close>, \<^verbatim>\<open>PassiveSocket.cpp\<close>.
  \<^item> \<^theory_text>\<open>Event_Listener\<close>: \<^verbatim>\<open>SocketEvent_Linux.cpp\<close>; the contexts are names, a partial function
    gives what is alive behind each. \<^theory_text>\<open>Channels\<close>: what a socket promises its writers and
    readers, as locales.
  \<^item> \<^theory_text>\<open>Object_Pool\<close>: \<^verbatim>\<open>ObjectPool.hpp\<close>, slots for addresses. \<^theory_text>\<open>Client\<close>: \<^verbatim>\<open>SocketClient.cpp\<close>.
    \<^theory_text>\<open>Client_Sessions\<close>: sequences of calls of the public class \<^verbatim>\<open>SocketClient\<close> and the resources
    they hold.
  \<^item> \<^theory_text>\<open>Connection\<close>: \<^verbatim>\<open>SocketConnection.cpp\<close> with the part of the event loop that drives one
    connection. \<^theory_text>\<open>Connection_Progress\<close>: how many events it takes to answer a request.
    \<^theory_text>\<open>Round_Trip\<close>: a client and a connection at the two ends of one stream.
    \<^theory_text>\<open>Request_Server\<close>: \<^verbatim>\<open>SocketRequestServer.cpp\<close>, its invariant, and the
    book of clients it refines. \<^theory_text>\<open>Request_Sessions\<close>: one server opened and closed again and
    again. \<^theory_text>\<open>Request_Types\<close>: the sizes of the buffers of its connections.
    \<^theory_text>\<open>Request_Streams\<close>: the same server over a kernel and a handler that keep a log of what passed
    on each descriptor, which no step reads.
  \<^item> \<^theory_text>\<open>Broadcast_Write\<close>, \<^theory_text>\<open>Broadcast_Server\<close>: \<^verbatim>\<open>SocketBroadcastServer.cpp\<close>, the loops of
    \<^verbatim>\<open>write\<close>, and the two threads as program counters with a step for each locked region,
    listener operation, callback and, in \<^verbatim>\<open>write\<close>, each wait, look at a socket and send. \<^theory_text>\<open>Broadcast_Safety\<close>: the invariant of their interleavings.
    \<^theory_text>\<open>Broadcast_Session\<close>: its consequences for every execution from \<^verbatim>\<open>open\<close> on.
    \<^theory_text>\<open>Broadcast_Close\<close>: the descriptors a session holds and what \<^verbatim>\<open>close\<close> gives back.
    \<^theory_text>\<open>Broadcast_Races\<close>: from which states, and how, an execution gets to where the
    documentation says it cannot.
  \<^item> \<^theory_text>\<open>Public_API\<close>: the public server classes of \<^verbatim>\<open>SecuritySocket.cpp\<close>, the request server with
    its thread. \<^theory_text>\<open>Socket_Container\<close>: the byte copies of \<^verbatim>\<open>BaseSocket.hpp\<close>, containers at
    addresses, and the TLS classes of the server side. \<^theory_text>\<open>Windows_Listener\<close>: the wait of
    \<^verbatim>\<open>SocketEvent_Windows.cpp\<close> and the request server over it.

  \<^bold>\<open>Interfaces.\<close> A component relies on another through a locale that is interpreted on the
  model's own definitions: the registry of events by the request server, the pool by the same,
  the byte channels by the client's and the broadcast server's write loops.

  \<^bold>\<open>What is shown.\<close> For the client: writing and reading return, lose and invent no byte, and
  where they leave the buffer; connecting returns whenever the handshake makes progress, and
  not without; over any sequence of calls every descriptor, context and session acquired is
  released once, and the only null pointer is that of a TLS client without a session, handed to
  a library that does not accept it (\<^const>\<open>lib_null_ok\<close> says which libraries do). For the request server: one invariant for every execution, with
  the only faults there are; the refinement of an abstract book of clients; what a session
  leaves to the next, and that no sequence of calls of the public class, between whichever
  iterations of the thread, leads elsewhere; the conservation of the byte stream through the
  state machine of a connection, however reads and writes are cut, and a bound on the events in
  which it answers a request of a peer that does not stall; that requests written by the client
  of this library reach the application as they were meant and the client reads exactly the
  replies; and, for a handler within its contract, that over a whole run of the server the
  streams of its clients stay apart, each the requests of one client and the replies to them,
  with no access out of bounds. For the broadcast server: in every
  interleaving no freed client is touched, the sockets of two clients never hold the same
  descriptor (though \<^verbatim>\<open>write\<close> and the listener can use a number that meanwhile is another
  client's, which \<^theory_text>\<open>Broadcast_Races\<close> shows) and each client is announced once; the open descriptors are accounted for in every state and after
  \<^verbatim>\<open>close\<close>; \<^verbatim>\<open>dropAll\<close> returns by its own steps, \<^verbatim>\<open>close\<close> after a bounded number of the
  monitor's; \<^verbatim>\<open>write\<close>, when no other thread steps in between, computes the sequential loop. For the rest: round trips, bounds and
  classifications; a container that was copied leads to the object that was built; a request
  server over the Windows listener computes what it computes over that of Linux. Where the code
  departs from its documentation the property states what it does.

  \<^bold>\<open>Bounds and fuel.\<close> Loops whose end depends on the environment are partial functions whose
  value \<open>None\<close> means that they do not return; a claim that one returns says \<open>Some\<close>. The event
  loop of the request server is counted by its iterations: its invariant holds for every
  count. Executions of the broadcast server are an inductive relation of unbounded length.

  \<^bold>\<open>Not modelled.\<close> The members of the Windows listener other than its waits, which are the
  code of Linux line by line and share its definitions; more than one caller of the request
  or of the broadcast server at a time; a call of the application inside an iteration of the
  request server's thread (\<^verbatim>\<open>close\<close> only sets a flag and waits, \<^verbatim>\<open>open\<close> returns at once); the memory
  order of the atomic flags; the sample programs, which use an earlier interface.
\<close>

end
